(* ===== verification/Prelude.thy ===== *)
theory Prelude imports Complex_Main "HOL-Library.Word" "HOL-Library.Multiset" "HOL-Library.Sublist" begin

unbundle bit_operations_syntax

text \<open>
  The vocabulary that every component of the development shares.

  \<^item> The machine types of the C++ code: \<open>byte\<close> is \<open>uint8_t\<close>, \<open>u32\<close> is \<open>uint32_t\<close>, \<open>u64\<close> is
    \<open>uint64_t\<close> and \<open>std::size_t\<close> where it is used as a counter; a \<open>std::string\<close> is a list of
    \<open>char\<close>, and each HOL \<open>char\<close> is one 8-bit byte.
  \<^item> The operations of \<open>std::string\<close> and \<open>std::istream\<close> that the code calls: \<open>substr\<close>, which throws
    when the start is past the end, \<open>find\<close>, which may answer \<open>npos\<close>, \<open>find_first_of\<close>,
    \<open>std::search\<close> with a predicate, \<open>std::getline\<close> and the loop over it.
  \<^item> Double precision arithmetic. A \<open>double\<close> is a real number, and every operation of the machine
    rounds its exact result by a function \<open>rnd\<close>; what the proofs use of it is that rounding is
    monotone. Infinities and NaN do not arise in the modelled code and are left out.

  The generic lemmas on these operations are in the simpset or in the collections below.
\<close>

named_theorems cpp_string \<open>facts on the std::string and std::istream operations\<close>
named_theorems cpp_bytes \<open>facts on bytes and characters\<close>

type_synonym byte = "8 word"
type_synonym u16 = "16 word"
type_synonym u32 = "32 word"
type_synonym u64 = "64 word"

section \<open>Characters and bytes\<close>

abbreviation NL :: char where
  "NL \<equiv> CHR 10"

text \<open>\<open>(uint8_t)c\<close>, and the conversion of an unsigned value back to \<open>char\<close>, which keeps the low
  eight bits.\<close>

definition byte_of :: "char \<Rightarrow> byte" where
  "byte_of c = word_of_nat (of_char c)"

definition char_of_byte :: "byte \<Rightarrow> char" where
  "char_of_byte b = char_of (unat b)"

lemma byte_of_char_of_byte [simp, cpp_bytes]: "byte_of (char_of_byte b) = b"
proof -
  have "unat b < 2 ^ 8"
    using unsigned_less [of b, where 'a = nat] by simp
  then have "unat b mod 256 = unat b" by simp
  then show ?thesis
    by (simp add: byte_of_def char_of_byte_def)
qed

lemma char_of_byte_of [simp, cpp_bytes]: "char_of_byte (byte_of c) = c"
  by (simp add: byte_of_def char_of_byte_def unat_of_nat)

lemma unat_byte_of [cpp_bytes]: "unat (byte_of c) = of_char c"
  by (simp add: byte_of_def unat_of_nat)

lemma byte_of_inj [simp, cpp_bytes]: "byte_of c = byte_of d \<longleftrightarrow> c = d"
  by (metis char_of_byte_of)

section \<open>Substrings\<close>

text \<open>\<open>s.substr(pos, n)\<close> throws \<open>std::out_of_range\<close> when \<open>pos > s.size()\<close>, which is \<open>None\<close> here.\<close>

definition substr_at :: "'a list \<Rightarrow> nat \<Rightarrow> nat \<Rightarrow> 'a list option" where
  "substr_at s pos n = (if length s < pos then None else Some (take n (drop pos s)))"

definition substr_from :: "'a list \<Rightarrow> nat \<Rightarrow> 'a list option" where
  "substr_from s pos = (if length s < pos then None else Some (drop pos s))"

text \<open>The slice \<open>[i, j)\<close> of a sequence, as an iterator range names it.\<close>

definition slice :: "'a list \<Rightarrow> nat \<Rightarrow> nat \<Rightarrow> 'a list" where
  "slice xs i j = take (j - i) (drop i xs)"

lemma length_slice [simp]: "j \<le> length xs \<Longrightarrow> length (slice xs i j) = j - i"
  by (auto simp: slice_def)

lemma slice_empty [simp]: "slice xs i i = []"
  by (simp add: slice_def)

lemma slice_all [simp]: "slice xs 0 (length xs) = xs"
  by (simp add: slice_def)

lemma slice_append: "i \<le> j \<Longrightarrow> j \<le> k \<Longrightarrow> slice xs i j @ slice xs j k = slice xs i k"
proof -
  assume "i \<le> j" "j \<le> k"
  then obtain a b where j: "j = i + a" and k: "k = i + a + b"
    by (metis le_Suc_ex)
  show ?thesis
    unfolding slice_def j k by (simp add: take_add drop_drop add.commute)
qed

lemma nth_slice [simp]: "i + k < j \<Longrightarrow> j \<le> length xs \<Longrightarrow> slice xs i j ! k = xs ! (i + k)"
  by (simp add: slice_def)

lemma set_slice: "set (slice xs i j) \<subseteq> set xs"
  by (auto simp: slice_def dest: in_set_takeD in_set_dropD)

lemma slice_slice:
  "j' \<le> j - i \<Longrightarrow> slice (slice xs i j) i' j' = slice xs (i + i') (i + j')"
proof -
  assume "j' \<le> j - i"
  then have "j' - i' \<le> j - i - i'" by simp
  then show ?thesis
    by (simp add: slice_def drop_take min_absorb1 add.commute)
qed

lemma slice_Cons: "i < j \<Longrightarrow> j \<le> length xs \<Longrightarrow> slice xs i j = xs ! i # slice xs (Suc i) j"
  by (simp add: slice_def Cons_nth_drop_Suc [symmetric] take_Cons' )

lemma slice_snoc: "i \<le> j \<Longrightarrow> j < length xs \<Longrightarrow> slice xs i (Suc j) = slice xs i j @ [xs ! j]"
  by (simp add: slice_def Suc_diff_le take_Suc_conv_app_nth)

lemma map_slice: "map f (slice xs i j) = slice (map f xs) i j"
  by (simp add: slice_def take_map drop_map)

section \<open>Searching\<close>

text \<open>
  \<open>std::search(s.begin(), s.end(), pat.begin(), pat.end(), eq)\<close>: the first position at which
  \<open>pat\<close> matches, \<open>None\<close> for \<open>s.end()\<close>. \<open>s.find(pat)\<close> is the same search with equality, and
  \<open>None\<close> is \<open>std::string::npos\<close>.
\<close>

fun matches_at :: "('a \<Rightarrow> 'b \<Rightarrow> bool) \<Rightarrow> 'b list \<Rightarrow> 'a list \<Rightarrow> bool" where
  "matches_at eq [] s = True"
| "matches_at eq (p # ps) [] = False"
| "matches_at eq (p # ps) (c # cs) = (eq c p \<and> matches_at eq ps cs)"

fun search_by :: "('a \<Rightarrow> 'b \<Rightarrow> bool) \<Rightarrow> 'b list \<Rightarrow> 'a list \<Rightarrow> nat option" where
  "search_by eq pat [] = (if pat = [] then Some 0 else None)"
| "search_by eq pat (c # cs) =
     (if matches_at eq pat (c # cs) then Some 0 else map_option Suc (search_by eq pat cs))"

definition find_str :: "'a list \<Rightarrow> 'a list \<Rightarrow> nat option" where
  "find_str s pat = search_by (=) pat s"

lemma matches_at_eq_prefix: "matches_at (=) pat s \<longleftrightarrow> prefix pat s"
proof -
  have "matches_at eq pat s \<longleftrightarrow> prefix pat s" if "eq = (=)" for eq
    using that by (induction eq pat s rule: matches_at.induct) auto
  then show ?thesis by simp
qed

lemma matches_at_length: "matches_at eq pat s \<Longrightarrow> length pat \<le> length s"
  by (induction eq pat s rule: matches_at.induct) auto

lemma matches_at_nth:
  "matches_at eq pat s \<longleftrightarrow> length pat \<le> length s \<and> (\<forall>k < length pat. eq (s ! k) (pat ! k))"
  by (induction eq pat s rule: matches_at.induct) (auto simp: less_Suc_eq_0_disj)

lemma search_by_None_iff:
  "search_by eq pat s = None \<longleftrightarrow> (\<forall>i \<le> length s. \<not> matches_at eq pat (drop i s))"
proof (induction s)
  case Nil
  then show ?case by (cases pat) auto
next
  case (Cons c cs)
  show ?case
  proof
    assume "search_by eq pat (c # cs) = None"
    then have "\<not> matches_at eq pat (c # cs)" and "search_by eq pat cs = None"
      by (auto split: if_splits)
    with Cons.IH show "\<forall>i \<le> length (c # cs). \<not> matches_at eq pat (drop i (c # cs))"
      by (auto simp: drop_Cons split: nat.splits)
  next
    assume *: "\<forall>i \<le> length (c # cs). \<not> matches_at eq pat (drop i (c # cs))"
    then have "\<not> matches_at eq pat (c # cs)"
      by (metis drop0 le0)
    moreover have "\<forall>i \<le> length cs. \<not> matches_at eq pat (drop i cs)"
      using * by (metis Suc_le_mono drop_Suc_Cons length_Cons)
    ultimately show "search_by eq pat (c # cs) = None"
      using Cons.IH by simp
  qed
qed

lemma search_by_Some_iff:
  "search_by eq pat s = Some i \<longleftrightarrow>
     i \<le> length s \<and> matches_at eq pat (drop i s) \<and> (\<forall>j < i. \<not> matches_at eq pat (drop j s))"
proof (induction s arbitrary: i)
  case Nil
  then show ?case by (cases pat) auto
next
  case (Cons c cs)
  show ?case
  proof (cases "matches_at eq pat (c # cs)")
    case True
    then have "search_by eq pat (c # cs) = Some 0" by simp
    moreover have "i = 0" if "\<forall>j < i. \<not> matches_at eq pat (drop j (c # cs))"
      using that True by (metis drop0 gr0I)
    ultimately show ?thesis using True by (cases i) auto
  next
    case False
    then show ?thesis
      by (cases i) (auto simp: Cons.IH less_Suc_eq_0_disj)
  qed
qed

lemma find_str_Some:
  "find_str s pat = Some i \<longleftrightarrow>
     i \<le> length s \<and> prefix pat (drop i s) \<and> (\<forall>j < i. \<not> prefix pat (drop j s))"
  by (simp add: find_str_def search_by_Some_iff matches_at_eq_prefix)

lemma find_str_None: "find_str s pat = None \<longleftrightarrow> \<not> sublist pat s"
proof -
  have "sublist pat s \<longleftrightarrow> (\<exists>i \<le> length s. prefix pat (drop i s))"
  proof
    assume "sublist pat s"
    then obtain us vs where "s = us @ pat @ vs" by (auto simp: sublist_def)
    then have "length us \<le> length s" and "prefix pat (drop (length us) s)" by auto
    then show "\<exists>i \<le> length s. prefix pat (drop i s)" by blast
  next
    assume "\<exists>i \<le> length s. prefix pat (drop i s)"
    then show "sublist pat s"
      by (metis append_take_drop_id prefix_def sublist_def)
  qed
  then show ?thesis
    by (auto simp: find_str_def search_by_None_iff matches_at_eq_prefix)
qed

text \<open>\<open>s.find_first_of(cs, from)\<close>: the first position from \<open>from\<close> on whose character is in \<open>cs\<close>.\<close>

fun first_of :: "'a list \<Rightarrow> 'a list \<Rightarrow> nat option" where
  "first_of [] ps = None"
| "first_of (c # s) ps = (if c \<in> set ps then Some 0 else map_option Suc (first_of s ps))"

definition find_first_of :: "'a list \<Rightarrow> 'a list \<Rightarrow> nat \<Rightarrow> nat option" where
  "find_first_of s ps from = map_option (\<lambda>i. from + i) (first_of (drop from s) ps)"

lemma first_of_None: "first_of s ps = None \<longleftrightarrow> set s \<inter> set ps = {}"
  by (induction s) auto

lemma first_of_Some:
  "first_of s ps = Some i \<longleftrightarrow>
     i < length s \<and> s ! i \<in> set ps \<and> set (take i s) \<inter> set ps = {}"
  by (induction s arbitrary: i) (auto simp: nth_Cons take_Cons split: nat.splits)

section \<open>Pieces between separators, and line input\<close>

text \<open>
  The pieces of a sequence between separators: a separator at the very end closes the last piece
  and does not open an empty one. This is how a loop over \<open>std::getline\<close> cuts a file into lines.
\<close>

function pieces :: "'a \<Rightarrow> 'a list \<Rightarrow> 'a list list" where
  "pieces c s = (if s = [] then []
     else takeWhile (\<lambda>x. x \<noteq> c) s # pieces c (drop 1 (dropWhile (\<lambda>x. x \<noteq> c) s)))"
  by pat_completeness auto
termination
proof (relation "measure (length \<circ> snd)", goal_cases)
  case (2 c s)
  moreover have "length (dropWhile (\<lambda>x. x \<noteq> c) s) \<le> length s"
    by (rule length_dropWhile_le)
  moreover have "0 < length s" using 2 by simp
  ultimately show ?case unfolding in_measure comp_def snd_conv length_drop by linarith
qed simp

declare pieces.simps [simp del]

lemma pieces_Nil [simp]: "pieces c [] = []"
  by (simp add: pieces.simps)

lemma pieces_piece [cpp_string]: "c \<notin> set l \<Longrightarrow> pieces c (l @ c # rest) = l # pieces c rest"
  by (subst pieces.simps) (auto simp: takeWhile_append dropWhile_append)

lemma pieces_last [cpp_string]:
  assumes "c \<notin> set l" and "l \<noteq> []"
  shows "pieces c l = [l]"
proof -
  have "takeWhile (\<lambda>x. x \<noteq> c) l = l" and "dropWhile (\<lambda>x. x \<noteq> c) l = []"
    using assms(1) by (auto simp: takeWhile_eq_all_conv dropWhile_eq_Nil_conv)
  then show ?thesis using assms(2) by (subst pieces.simps) (simp only: drop_Nil pieces_Nil if_False)
qed

text \<open>Every sequence is empty, one piece, or a piece and a separator before the rest.\<close>

lemma pieces_cases:
  obtains "s = []" | "s \<noteq> []" and "c \<notin> set s" | l rest where "c \<notin> set l" and "s = l @ c # rest"
  by (metis split_list_first)

lemma pieces_induct [case_names Nil last piece]:
  assumes "P []" and "\<And>s. s \<noteq> [] \<Longrightarrow> c \<notin> set s \<Longrightarrow> P s"
    and "\<And>l rest. c \<notin> set l \<Longrightarrow> P rest \<Longrightarrow> P (l @ c # rest)"
  shows "P s"
proof (induction s rule: length_induct)
  case (1 s)
  show ?case
    by (rule pieces_cases [where s = s and c = c]) (use assms 1 in auto)
qed

lemma pieces_no_separator: "l \<in> set (pieces c s) \<Longrightarrow> c \<notin> set l"
  by (induction s rule: pieces_induct [where c = c]) (auto simp: cpp_string)

lemma concat_pieces: "concat (pieces c s) = filter (\<lambda>x. x \<noteq> c) s"
  by (induction s rule: pieces_induct [where c = c])
     (auto simp: cpp_string intro!: filter_id_conv [THEN iffD2, symmetric])

lemma pieces_append_line: "(\<And>l. l \<in> set ls \<Longrightarrow> c \<notin> set l) \<Longrightarrow>
   pieces c (concat (map (\<lambda>l. l @ [c]) ls)) = ls"
  by (induction ls) (auto simp: cpp_string)

text \<open>
  \<open>std::getline(in, line)\<close> on the unread rest of a file: it fails at end of file with nothing read,
  otherwise it reads up to the next newline, which it consumes and does not store.
\<close>

definition getline :: "string \<Rightarrow> (string \<times> string) option" where
  "getline s = (if s = [] then None
     else Some (takeWhile (\<lambda>c. c \<noteq> NL) s, drop 1 (dropWhile (\<lambda>c. c \<noteq> NL) s)))"

lemma getline_shorter: "getline s = Some (l, rest) \<Longrightarrow> length rest < length s"
proof -
  assume "getline s = Some (l, rest)"
  then have "s \<noteq> []" and r: "rest = drop 1 (dropWhile (\<lambda>c. c \<noteq> NL) s)"
    by (auto simp: getline_def split: if_splits)
  have "length (dropWhile (\<lambda>c. c \<noteq> NL) s) \<le> length s"
    by (rule length_dropWhile_le)
  moreover have "0 < length s" using \<open>s \<noteq> []\<close> by simp
  ultimately show ?thesis unfolding r length_drop by linarith
qed

text \<open>\<open>while (std::getline(in, line)) ...\<close>: the lines the loop body sees, in order.\<close>

function read_lines :: "string \<Rightarrow> string list" where
  "read_lines s = (case getline s of None \<Rightarrow> [] | Some (l, rest) \<Rightarrow> l # read_lines rest)"
  by pat_completeness auto
termination
  by (relation "measure length") (auto dest: getline_shorter)

declare read_lines.simps [simp del]

lemma read_lines_pieces: "read_lines s = pieces NL s"
proof (induction s rule: read_lines.induct)
  case (1 s)
  show ?case
    using "1.IH"
    by (subst read_lines.simps, subst pieces.simps) (simp add: getline_def)
qed

section \<open>Files and the end of the process\<close>

text \<open>A path without content cannot be opened. A failed \<open>XCHECK\<close> or \<open>assert\<close> ends the process.\<close>

type_synonym filesystem = "string \<Rightarrow> string option"

datatype abort = XCheckFailed | AssertFailed

section \<open>Lower case\<close>

text \<open>\<open>std::tolower\<close> in the "C" locale, which the program never changes: only A to Z move.\<close>

definition tolower :: "char \<Rightarrow> char" where
  "tolower c = (if 65 \<le> (of_char c :: nat) \<and> (of_char c :: nat) \<le> 90
     then char_of ((of_char c :: nat) + 32) else c)"

definition toupper :: "char \<Rightarrow> char" where
  "toupper c = (if 97 \<le> (of_char c :: nat) \<and> (of_char c :: nat) \<le> 122
     then char_of ((of_char c :: nat) - 32) else c)"

lemma tolower_idem [simp]: "tolower (tolower c) = tolower c"
  by (auto simp: tolower_def)

section \<open>Double precision arithmetic\<close>

text \<open>What the code uses of the C library's floating point: the rounding of the arithmetic, \<open>log\<close>
and \<open>atof\<close>.\<close>

record fpenv =
  rnd :: "real \<Rightarrow> real"
  flog :: "real \<Rightarrow> real"
  atof :: "string \<Rightarrow> real"

definition fadd :: "fpenv \<Rightarrow> real \<Rightarrow> real \<Rightarrow> real" where
  "fadd E a b = rnd E (a + b)"

definition fsub :: "fpenv \<Rightarrow> real \<Rightarrow> real \<Rightarrow> real" where
  "fsub E a b = rnd E (a - b)"

definition fmul :: "fpenv \<Rightarrow> real \<Rightarrow> real \<Rightarrow> real" where
  "fmul E a b = rnd E (a * b)"

definition fdiv :: "fpenv \<Rightarrow> real \<Rightarrow> real \<Rightarrow> real" where
  "fdiv E a b = rnd E (a / b)"

lemma fadd_mono: "mono (rnd E) \<Longrightarrow> a \<le> a' \<Longrightarrow> b \<le> b' \<Longrightarrow> fadd E a b \<le> fadd E a' b'"
  by (simp add: fadd_def monoD add_mono)

text \<open>\<open>atoi\<close>: optional white space and sign, then the digits up to the first other character.\<close>

definition is_space :: "char \<Rightarrow> bool" where
  "is_space c \<longleftrightarrow> c = CHR '' '' \<or> 9 \<le> (of_char c :: nat) \<and> (of_char c :: nat) \<le> 13"

definition is_digit :: "char \<Rightarrow> bool" where
  "is_digit c \<longleftrightarrow> 48 \<le> (of_char c :: nat) \<and> (of_char c :: nat) \<le> 57"

fun digits_value :: "int \<Rightarrow> string \<Rightarrow> int" where
  "digits_value n [] = n"
| "digits_value n (c # cs) =
     (if is_digit c then digits_value (10 * n + (of_char c - 48)) cs else n)"

definition atoi :: "string \<Rightarrow> int" where
  "atoi s = (case dropWhile is_space s of
       [] \<Rightarrow> 0
     | c # cs \<Rightarrow> if c = CHR ''-'' then - digits_value 0 cs
                else if c = CHR ''+'' then digits_value 0 cs else digits_value 0 (c # cs))"

text \<open>\<open>%d\<close> of a number that is not negative, and \<open>std::to_string\<close>.\<close>

fun decimal :: "nat \<Rightarrow> string" where
  "decimal n = (if n < 10 then [char_of (48 + n)] else decimal (n div 10) @ [char_of (48 + n mod 10)])"

declare decimal.simps [simp del]

lemma decimal_not_Nil [simp]: "decimal n \<noteq> []"
  by (subst decimal.simps) simp

lemma of_char_digit: "d < 10 \<Longrightarrow> of_char (char_of (48 + d :: nat) :: char) = 48 + int d"
  using of_nat_of_char [of "char_of (48 + d :: nat)", where 'a = int, symmetric] by simp

lemma decimal_digits: "c \<in> set (decimal n) \<Longrightarrow> is_digit c"
proof (induction n rule: decimal.induct)
  case (1 n)
  then show ?case by (subst (asm) (2) decimal.simps) (auto simp: is_digit_def split: if_splits)
qed

lemma decimal_no_newline: "NL \<notin> set (decimal n)"
  using decimal_digits [of NL n] by (auto simp: is_digit_def)

lemma digits_value_append: "\<forall>c \<in> set a. is_digit c \<Longrightarrow> digits_value n (a @ b) = digits_value (digits_value n a) b"
  by (induction a arbitrary: n) auto

lemma digits_value_decimal: "digits_value 0 (decimal n) = int n"
proof (induction n rule: decimal.induct)
  case (1 n)
  show ?case
  proof (cases "n < 10")
    case True
    then show ?thesis by (subst decimal.simps) (simp add: is_digit_def of_char_digit)
  next
    case False
    have "digits_value 0 (decimal n) = digits_value (digits_value 0 (decimal (n div 10))) [char_of (48 + n mod 10)]"
      using False decimal_digits by (subst decimal.simps) (simp add: digits_value_append)
    also have "\<dots> = 10 * int (n div 10) + int (n mod 10)"
      using "1" False by (simp add: is_digit_def of_char_digit)
    also have "\<dots> = int n" by presburger
    finally show ?thesis .
  qed
qed

text \<open>
  \<open>MIN_DOUBLE\<close> and \<open>MAX_DOUBLE\<close> of the code, -3.14e+100 and 3.14e+100, as the doubles nearest to these
  literals: 8081665415464805 times 2 to the 281.
\<close>

definition MAX_DOUBLE :: real where
  "MAX_DOUBLE = 31399999999999998440121755087188611496023317657858142522962119136060321217693842207715753438069391360"

definition MIN_DOUBLE :: real where
  "MIN_DOUBLE = -31399999999999998440121755087188611496023317657858142522962119136060321217693842207715753438069391360"

text \<open>
  An environment for concrete runs: no rounding, a logarithm that is negative on (0, 1), integers
  for \<open>atof\<close>.
\<close>

definition sample_env :: fpenv where
  "sample_env = \<lparr>rnd = (\<lambda>x. x), flog = (\<lambda>x. x - 1), atof = (\<lambda>s. of_int (atoi s))\<rparr>"

lemma mono_sample_env [simp]: "mono (rnd sample_env)"
  by (simp add: sample_env_def mono_def)

end
