(* ===== verification/Unicode.thy ===== *)
theory Unicode imports Prelude begin

text \<open>
  UTF-8 decoding, \<open>cppjieba/Unicode.hpp\<close>: one rune (\<open>DecodeRuneInString\<close>), a whole string
  (\<open>DecodeRunesInString\<close>), and the words that a range of runes stands for
  (\<open>GetWordFromRunes\<close> and its callers). A \<open>RuneStrArray\<close> is a list, its iterators are positions in
  the list. Offsets into a string are natural numbers: the code keeps them in \<open>uint32_t\<close>, so the
  model is about strings shorter than 4 GiB.

  The lemmas show that a decoded string is tiled by its runes, and that a sequence of adjacent
  word ranges gives back the bytes of the string it covers.
\<close>

section \<open>Runes\<close>

type_synonym Rune = u32

record RuneStrLite =
  lite_rune :: Rune
  lite_len :: nat

record RuneStr =
  rune :: Rune
  offset :: nat
  len :: nat
  unicode_offset :: nat
  unicode_length :: nat

text \<open>\<open>rune = (uint8_t)c & m\<close> and \<open>rune <<= 6; rune |= (uint8_t)c & 0x3f\<close>.\<close>

definition lead_bits :: "byte \<Rightarrow> char \<Rightarrow> Rune" where
  "lead_bits m c = ucast (byte_of c AND m)"

definition next_bits :: "Rune \<Rightarrow> char \<Rightarrow> Rune" where
  "next_bits r c = push_bit 6 r OR ucast (byte_of c AND 0x3f)"

text \<open>The argument is the string from \<open>str\<close> on; its length is the code's \<open>len\<close>.\<close>

definition DecodeRuneInString :: "string \<Rightarrow> RuneStrLite" where
  "DecodeRuneInString str =
     (if length str = 0 then \<lparr>lite_rune = 0, lite_len = 0\<rparr>
      else if byte_of (str ! 0) AND 0x80 = 0 then
        \<lparr>lite_rune = lead_bits 0x7f (str ! 0), lite_len = 1\<rparr>
      else if byte_of (str ! 0) \<le> 0xdf \<and> 1 < length str then
        \<lparr>lite_rune = next_bits (lead_bits 0x1f (str ! 0)) (str ! 1), lite_len = 2\<rparr>
      else if byte_of (str ! 0) \<le> 0xef \<and> 2 < length str then
        \<lparr>lite_rune = next_bits (next_bits (lead_bits 0x0f (str ! 0)) (str ! 1)) (str ! 2),
         lite_len = 3\<rparr>
      else if byte_of (str ! 0) \<le> 0xf7 \<and> 3 < length str then
        \<lparr>lite_rune = next_bits (next_bits (next_bits (lead_bits 0x07 (str ! 0)) (str ! 1))
           (str ! 2)) (str ! 3),
         lite_len = 4\<rparr>
      else \<lparr>lite_rune = 0, lite_len = 0\<rparr>)"

text \<open>The loop of \<open>DecodeRunesInString\<close> from byte \<open>i\<close> and rune \<open>j\<close> on; \<open>None\<close> is \<open>return false\<close>.\<close>

function decode_from :: "string \<Rightarrow> nat \<Rightarrow> nat \<Rightarrow> RuneStr list option" where
  "decode_from s i j =
     (if i < length s then
        (let rp = DecodeRuneInString (drop i s) in
         if lite_len rp = 0 then None
         else map_option (\<lambda>rs. \<lparr>rune = lite_rune rp, offset = i, len = lite_len rp,
                                 unicode_offset = j, unicode_length = 1\<rparr> # rs)
                (decode_from s (i + lite_len rp) (Suc j)))
      else Some [])"
  by pat_completeness auto
termination
  by (relation "measure (\<lambda>(s, i, j). length s - i)") auto

declare decode_from.simps [simp del]

text \<open>The return value and the array it leaves: a failed decoding clears the array.\<close>

definition DecodeRunesInString :: "string \<Rightarrow> bool \<times> RuneStr list" where
  "DecodeRunesInString s =
     (case decode_from s 0 0 of None \<Rightarrow> (False, []) | Some rs \<Rightarrow> (True, rs))"

text \<open>The overload that keeps only the runes.\<close>

definition DecodeRunesInString_Unicode :: "string \<Rightarrow> bool \<times> Rune list" where
  "DecodeRunesInString_Unicode s =
     (let (ok, runes) = DecodeRunesInString s in
      if \<not> ok then (False, []) else (True, map rune runes))"

definition IsSingleWord :: "string \<Rightarrow> bool" where
  "IsSingleWord str \<longleftrightarrow> lite_len (DecodeRuneInString str) = length str"

section \<open>Words\<close>

record Word =
  w_word :: string
  w_offset :: nat
  w_unicode_offset :: nat
  w_unicode_length :: nat

record WordRange =
  left :: nat
  right :: nat

definition Length :: "WordRange \<Rightarrow> nat" where
  "Length wr = right wr - left wr + 1"

definition IsAllAscii :: "RuneStr list \<Rightarrow> WordRange \<Rightarrow> bool" where
  "IsAllAscii rs wr = list_all (\<lambda>x. \<not> 0x80 \<le> rune x) (slice rs (left wr) (Suc (right wr)))"

definition GetWordFromRunes :: "string \<Rightarrow> RuneStr list \<Rightarrow> nat \<Rightarrow> nat \<Rightarrow> Word" where
  "GetWordFromRunes s rs l r =
     (let n = offset (rs ! r) - offset (rs ! l) + len (rs ! r);
          unicode_n = unicode_offset (rs ! r) - unicode_offset (rs ! l) + unicode_length (rs ! r)
      in \<lparr>w_word = take n (drop (offset (rs ! l)) s), w_offset = offset (rs ! l),
          w_unicode_offset = unicode_offset (rs ! l), w_unicode_length = unicode_n\<rparr>)"

definition GetStringFromRunes :: "string \<Rightarrow> RuneStr list \<Rightarrow> nat \<Rightarrow> nat \<Rightarrow> string" where
  "GetStringFromRunes s rs l r =
     take (offset (rs ! r) - offset (rs ! l) + len (rs ! r)) (drop (offset (rs ! l)) s)"

definition GetWordsFromWordRanges :: "string \<Rightarrow> RuneStr list \<Rightarrow> WordRange list \<Rightarrow> Word list" where
  "GetWordsFromWordRanges s rs wrs = map (\<lambda>wr. GetWordFromRunes s rs (left wr) (right wr)) wrs"

definition GetStringsFromWords :: "Word list \<Rightarrow> string list" where
  "GetStringsFromWords words = map w_word words"

section \<open>Bits and numbers\<close>

text \<open>The decoded value as arithmetic on the bytes, for the bounds and the round trip below.\<close>

lemma unat_and_mask: "unat ((b :: 'a :: len word) AND mask n) = unat b mod 2 ^ n"
proof -
  have "unat (b AND mask n) = unat (take_bit n b)"
    by (simp only: take_bit_eq_mask)
  also have "\<dots> = take_bit n (unat b)"
    by (rule unsigned_take_bit_eq)
  finally show ?thesis by (simp only: take_bit_eq_mod)
qed

lemma unat_ucast_byte: "unat (ucast (b :: byte) :: u32) = unat b"
proof -
  have "unat b < 2 ^ 8"
    using unsigned_less [of b, where 'a = nat] by simp
  then have "take_bit 32 (unat b) = unat b"
    by (simp add: take_bit_nat_eq_self)
  then show ?thesis by (simp add: unsigned_ucast_eq)
qed

lemma byte_masks:
  "(0x7f :: byte) = mask 7" "(0x3f :: byte) = mask 6" "(0x1f :: byte) = mask 5"
  "(0x0f :: byte) = mask 4" "(0x07 :: byte) = mask 3"
  by (simp_all add: mask_eq_exp_minus_1)

lemma unat_lead_bits [cpp_bytes]:
  "unat (lead_bits 0x7f c) = unat (byte_of c) mod 128"
  "unat (lead_bits 0x1f c) = unat (byte_of c) mod 32"
  "unat (lead_bits 0x0f c) = unat (byte_of c) mod 16"
  "unat (lead_bits 0x07 c) = unat (byte_of c) mod 8"
  unfolding lead_bits_def byte_masks
  by (simp_all only: unat_ucast_byte unat_and_mask) simp_all

lemma next_bits_plus: "next_bits r c = push_bit 6 r + ucast (byte_of c AND 0x3f)"
proof -
  have "push_bit 6 r AND ucast (byte_of c AND 0x3f) = 0"
    unfolding byte_masks
    by (rule bit_word_eqI) (auto simp: bit_simps)
  then show ?thesis
    by (simp add: next_bits_def disjunctive_add_eq_or)
qed

lemma unat_next_bits [cpp_bytes]:
  "unat r < 2 ^ 26 \<Longrightarrow> unat (next_bits r c) = unat r * 64 + unat (byte_of c) mod 64"
proof -
  assume r: "unat r < 2 ^ 26"
  have c: "unat (ucast (byte_of c AND 0x3f) :: u32) = unat (byte_of c) mod 64"
    unfolding byte_masks by (simp only: unat_ucast_byte unat_and_mask) simp
  have "push_bit 6 r = r * 64"
    by (simp add: push_bit_eq_mult)
  then have "unat (push_bit 6 r) = unat r * 64"
    using r by (simp add: unat_mult_lem [THEN iffD1])
  with r c show ?thesis
    unfolding next_bits_plus
    by (subst unat_add_lem [THEN iffD1]) auto
qed

lemma byte_high_bit: "byte_of c AND 0x80 = 0 \<longleftrightarrow> unat (byte_of c) < 128"
proof -
  have "byte_of c AND 0x80 = 0 \<longleftrightarrow> \<not> bit (byte_of c) 7"
  proof -
    have "(0x80 :: byte) = push_bit 7 1" by simp
    then show ?thesis
      by (metis and_exp_eq_0_iff_not_bit push_bit_of_1)
  qed
  also have "\<dots> \<longleftrightarrow> unat (byte_of c) < 128"
  proof -
    have "unat (byte_of c) < 256"
      using unsigned_less [of "byte_of c", where 'a = nat] by simp
    then have "unat (byte_of c) div 128 = 0 \<or> unat (byte_of c) div 128 = 1"
      by linarith
    moreover have "unat (byte_of c) < 128 \<longleftrightarrow> unat (byte_of c) div 128 = 0"
      by (simp add: div_eq_0_iff)
    moreover have "bit (byte_of c) 7 \<longleftrightarrow> odd (unat (byte_of c) div 128)"
      using bit_unsigned_iff [where 'a = nat, of "byte_of c" 7] by (simp add: bit_iff_odd)
    ultimately show ?thesis by auto
  qed
  finally show ?thesis .
qed


lemma byte_le_iff:
  "byte_of c \<le> 0xdf \<longleftrightarrow> unat (byte_of c) \<le> 223"
  "byte_of c \<le> 0xef \<longleftrightarrow> unat (byte_of c) \<le> 239"
  "byte_of c \<le> 0xf7 \<longleftrightarrow> unat (byte_of c) \<le> 247"
  by (simp_all add: word_le_nat_alt)

lemmas decode_arith = byte_high_bit byte_le_iff unat_lead_bits unat_next_bits

section \<open>Decoding one rune\<close>

lemma DecodeRuneInString_len_le [simp]: "lite_len (DecodeRuneInString str) \<le> length str"
proof -
  consider "length str = 0" | "length str = 1" | "length str = 2" | "length str = 3" | "4 \<le> length str"
    by linarith
  then show ?thesis by cases (auto simp: DecodeRuneInString_def)
qed

lemma DecodeRuneInString_len_le_4 [simp]: "lite_len (DecodeRuneInString str) \<le> 4"
  by (auto simp: DecodeRuneInString_def)

lemma DecodeRuneInString_fails_iff:
  "lite_len (DecodeRuneInString str) = 0 \<longleftrightarrow>
     str = [] \<or>
     128 \<le> unat (byte_of (hd str)) \<and>
     (length str = 1 \<or> 223 < unat (byte_of (hd str)) \<and> length str = 2 \<or>
      239 < unat (byte_of (hd str)) \<and> length str = 3 \<or> 247 < unat (byte_of (hd str)))"
proof (cases str)
  case Nil
  then show ?thesis by (simp add: DecodeRuneInString_def)
next
  case (Cons c cs)
  then show ?thesis
    unfolding DecodeRuneInString_def byte_high_bit byte_le_iff
    by (auto simp del: length_0_conv length_greater_0_conv simp flip: length_greater_0_conv)
qed

lemma rune_bound_of_len:
  assumes "lite_len (DecodeRuneInString str) = n" and "0 < n"
  shows "unat (lite_rune (DecodeRuneInString str)) <
           (if n = 1 then 2 ^ 7 else if n = 2 then 2 ^ 11 else if n = 3 then 2 ^ 16 else 2 ^ 21)"
proof -
  have m: "(a::nat) mod 128 < 128" "a mod 64 < 64" "a mod 32 < 32" "a mod 16 < 16" "a mod 8 < 8" for a
    by simp_all
  have b2: "unat (next_bits (lead_bits 0x1f c) d) < 2 ^ 11" for c d
    using m(3) [of "unat (byte_of c)"] m(2) [of "unat (byte_of d)"]
    by (simp add: unat_next_bits unat_lead_bits)
  have b3: "unat (next_bits (next_bits (lead_bits 0x0f c) d) e) < 2 ^ 16" for c d e
    using m(4) [of "unat (byte_of c)"] m(2) [of "unat (byte_of d)"] m(2) [of "unat (byte_of e)"]
    by (simp add: unat_next_bits unat_lead_bits)
  have b4: "unat (next_bits (next_bits (next_bits (lead_bits 0x07 c) d) e) f) < 2 ^ 21" for c d e f
    using m(5) [of "unat (byte_of c)"] m(2) [of "unat (byte_of d)"] m(2) [of "unat (byte_of e)"]
      m(2) [of "unat (byte_of f)"]
    by (simp add: unat_next_bits unat_lead_bits)
  show ?thesis
    using assms b2 b3 b4 by (auto simp: DecodeRuneInString_def unat_lead_bits)
qed

section \<open>Decoding a string\<close>

text \<open>The runes \<open>rs\<close>, the first of them rune number \<open>j\<close>, tile the bytes \<open>[i, n)\<close>.\<close>

fun runes_tile :: "nat \<Rightarrow> nat \<Rightarrow> RuneStr list \<Rightarrow> nat \<Rightarrow> bool" where
  "runes_tile i j [] n \<longleftrightarrow> i = n"
| "runes_tile i j (r # rs) n \<longleftrightarrow>
     offset r = i \<and> 1 \<le> len r \<and> len r \<le> 4 \<and> unicode_offset r = j \<and> unicode_length r = 1 \<and>
     runes_tile (i + len r) (Suc j) rs n"

lemma decode_from_tiles:
  "decode_from s i j = Some rs \<Longrightarrow> i \<le> length s \<Longrightarrow> runes_tile i j rs (length s)"
proof (induction s i j arbitrary: rs rule: decode_from.induct)
  case (1 s i j)
  show ?case
  proof (cases "i < length s")
    case False
    with "1.prems" show ?thesis by (auto simp: decode_from.simps [of s i j])
  next
    case True
    define rp where "rp = DecodeRuneInString (drop i s)"
    have "lite_len rp \<le> length s - i" and "lite_len rp \<le> 4"
      using DecodeRuneInString_len_le [of "drop i s"] by (simp_all add: rp_def)
    moreover from True "1.prems" obtain rs' where nz: "lite_len rp \<noteq> 0"
      and rs': "decode_from s (i + lite_len rp) (Suc j) = Some rs'"
      and rs: "rs = \<lparr>rune = lite_rune rp, offset = i, len = lite_len rp,
                    unicode_offset = j, unicode_length = 1\<rparr> # rs'"
      by (auto simp: decode_from.simps [of s i j] rp_def [symmetric] Let_def split: if_splits)
    moreover have "runes_tile (i + lite_len rp) (Suc j) rs' (length s)"
      using "1.IH" [OF True rp_def nz rs'] \<open>lite_len rp \<le> length s - i\<close> True by simp
    ultimately show ?thesis by simp
  qed
qed

lemma DecodeRunesInString_tiles:
  "DecodeRunesInString s = (True, rs) \<Longrightarrow> runes_tile 0 0 rs (length s)"
  by (auto simp: DecodeRunesInString_def intro: decode_from_tiles split: option.splits)

lemma DecodeRunesInString_failed:
  "DecodeRunesInString s = (False, rs) \<Longrightarrow> rs = []"
  by (auto simp: DecodeRunesInString_def split: option.splits)

lemma decode_from_rune_bound:
  "decode_from s i j = Some rs \<Longrightarrow> r \<in> set rs \<Longrightarrow> unat (rune r) < 2 ^ 21"
proof (induction s i j arbitrary: rs rule: decode_from.induct)
  case (1 s i j)
  define rp where "rp = DecodeRuneInString (drop i s)"
  have i: "i < length s" using "1.prems" by (auto simp: decode_from.simps [of s i j] split: if_splits)
  with "1.prems" obtain rs' where nz: "lite_len rp \<noteq> 0"
      and rs': "decode_from s (i + lite_len rp) (Suc j) = Some rs'"
      and rs: "rs = \<lparr>rune = lite_rune rp, offset = i, len = lite_len rp,
                    unicode_offset = j, unicode_length = 1\<rparr> # rs'"
    by (auto simp: decode_from.simps [of s i j] rp_def [symmetric] Let_def split: if_splits)
  have "unat (lite_rune rp) < 2 ^ 21"
    using rune_bound_of_len [of "drop i s" "lite_len rp"] nz
    by (auto simp: rp_def split: if_splits)
  with rs "1.prems" "1.IH" [OF i rp_def nz rs'] show ?case by auto
qed

section \<open>Boundaries\<close>

text \<open>Where rune \<open>k\<close> of a decoded string begins; past the last rune, the end of the string.\<close>

definition boundary :: "RuneStr list \<Rightarrow> nat \<Rightarrow> nat \<Rightarrow> nat" where
  "boundary rs n k = (if k < length rs then offset (rs ! k) else n)"

lemma runes_tile_nth:
  assumes "runes_tile i j rs n" and "k < length rs"
  shows "offset (rs ! k) + len (rs ! k) = boundary rs n (Suc k) \<and>
         unicode_offset (rs ! k) = j + k \<and> unicode_length (rs ! k) = 1 \<and> 1 \<le> len (rs ! k)"
  using assms
proof (induction rs arbitrary: i j k)
  case Nil
  then show ?case by simp
next
  case (Cons r rs)
  show ?case
  proof (cases k)
    case 0
    with Cons.prems show ?thesis by (cases rs) (auto simp: boundary_def)
  next
    case (Suc k')
    have "runes_tile (i + len r) (Suc j) rs n" and "k' < length rs"
      using Cons.prems Suc by auto
    from Cons.IH [OF this] Suc show ?thesis by (simp add: boundary_def)
  qed
qed

lemma boundary_Suc:
  "runes_tile i j rs n \<Longrightarrow> k < length rs \<Longrightarrow> boundary rs n k < boundary rs n (Suc k)"
  using runes_tile_nth [of i j rs n k] by (simp add: boundary_def)

lemma boundary_mono:
  assumes "runes_tile i j rs n" and "k \<le> m" and "m \<le> length rs"
  shows "boundary rs n k \<le> boundary rs n m"
  using assms(2,3)
proof (induction m)
  case 0
  then show ?case by simp
next
  case (Suc m)
  then show ?case
    using boundary_Suc [OF assms(1), of m] by (cases "k = Suc m") auto
qed

lemma boundary_end: "runes_tile i j rs n \<Longrightarrow> boundary rs n (length rs) = n"
  by (simp add: boundary_def)

lemma boundary_start: "runes_tile i j rs n \<Longrightarrow> boundary rs n 0 = i"
  by (cases rs) (auto simp: boundary_def)

lemma runes_tile_length: "runes_tile i j rs n \<Longrightarrow> i + length rs \<le> n"
  by (induction rs arbitrary: i j) fastforce+

lemma runes_tile_nonempty: "runes_tile 0 0 rs n \<Longrightarrow> rs = [] \<longleftrightarrow> n = 0"
  by (cases rs) (auto dest: runes_tile_length)

section \<open>Ranges of runes as substrings\<close>

lemma GetStringFromRunes_slice:
  assumes "runes_tile 0 0 rs (length s)" and "l \<le> r" and "r < length rs"
  shows "GetStringFromRunes s rs l r =
         slice s (boundary rs (length s) l) (boundary rs (length s) (Suc r))"
proof -
  have l: "offset (rs ! l) = boundary rs (length s) l" and
       r: "offset (rs ! r) = boundary rs (length s) r"
    using assms by (simp_all add: boundary_def)
  have "offset (rs ! l) \<le> offset (rs ! r)"
    unfolding l r using boundary_mono [OF assms(1,2)] assms(3) by simp
  then have "offset (rs ! r) - offset (rs ! l) + len (rs ! r) =
      boundary rs (length s) (Suc r) - boundary rs (length s) l"
    using runes_tile_nth [OF assms(1,3)] l by simp
  then show ?thesis
    by (simp add: GetStringFromRunes_def slice_def l)
qed

lemma w_word_GetWordFromRunes [simp]:
  "w_word (GetWordFromRunes s rs l r) = GetStringFromRunes s rs l r"
  by (simp add: GetWordFromRunes_def GetStringFromRunes_def Let_def)

text \<open>The ranges \<open>wrs\<close>, in their order, tile the runes \<open>[i, j)\<close>: what a segmentation is.\<close>

fun tiles :: "nat \<Rightarrow> nat \<Rightarrow> WordRange list \<Rightarrow> bool" where
  "tiles i j [] \<longleftrightarrow> i = j"
| "tiles i j (w # ws) \<longleftrightarrow> left w = i \<and> i \<le> right w \<and> right w < j \<and> tiles (Suc (right w)) j ws"

lemma tiles_le: "tiles i j ws \<Longrightarrow> i \<le> j"
  by (induction ws arbitrary: i) fastforce+

lemma tiles_append: "tiles i j ws \<Longrightarrow> tiles j k vs \<Longrightarrow> tiles i k (ws @ vs)"
proof (induction ws arbitrary: i)
  case (Cons w ws)
  moreover have "j \<le> k" using Cons.prems(2) by (rule tiles_le)
  ultimately show ?case by auto
qed simp

lemma tiles_shift:
  "tiles i j ws \<Longrightarrow>
   tiles (b + i) (b + j) (map (\<lambda>w. \<lparr>left = b + left w, right = b + right w\<rparr>) ws)"
proof (induction ws arbitrary: i)
  case (Cons w ws)
  then have "tiles (b + Suc (right w)) (b + j)
      (map (\<lambda>w. \<lparr>left = b + left w, right = b + right w\<rparr>) ws)"
    by (intro Cons.IH) simp
  with Cons.prems show ?case by simp
qed simp

lemma concat_tiles:
  assumes t: "runes_tile 0 0 rs (length s)"
  shows "tiles i j wrs \<Longrightarrow> j \<le> length rs \<Longrightarrow>
    concat (GetStringsFromWords (GetWordsFromWordRanges s rs wrs)) =
    slice s (boundary rs (length s) i) (boundary rs (length s) j)"
proof (induction wrs arbitrary: i)
  case Nil
  then show ?case by (simp add: GetStringsFromWords_def GetWordsFromWordRanges_def)
next
  case (Cons w ws)
  let ?b = "boundary rs (length s)"
  have w: "left w = i" "i \<le> right w" "right w < j" "tiles (Suc (right w)) j ws"
    using Cons.prems by auto
  have "concat (GetStringsFromWords (GetWordsFromWordRanges s rs (w # ws))) =
        slice s (?b i) (?b (Suc (right w))) @ slice s (?b (Suc (right w))) (?b j)"
    using w Cons.prems(2) GetStringFromRunes_slice [OF t, of i "right w"] Cons.IH [OF w(4)]
    by (simp add: GetStringsFromWords_def GetWordsFromWordRanges_def)
  also have "\<dots> = slice s (?b i) (?b j)"
    using w Cons.prems(2) by (intro slice_append boundary_mono [OF t]) auto
  finally show ?case .
qed

end
