(* ===== verification/Segment.thy ===== *)
theory Segment imports Unicode begin

text \<open>
  What the segmenters of \<open>cppjieba\<close> have in common: the separators of \<open>SegmentBase.hpp\<close>, the
  \<open>PreFilter\<close> that cuts a decoded sentence at separators, and the method
  \<open>Cut(sentence, words)\<close>, whose text is the same in \<open>MPSegment\<close>, \<open>HMMSegment\<close>, \<open>MixSegment\<close>,
  \<open>FullSegment\<close> and \<open>QuerySegment\<close> but for the range cutter it calls.

  The locales are the contract between that method and the range cutters: \<open>range_cutter\<close> promises
  ranges inside the part it was given, \<open>range_segmenter\<close> promises ranges that tile it. The facts on
  whole sentences are proved once inside them.
\<close>

section \<open>Separators\<close>

text \<open>\<open>" \t\n\xEF\xBC\x8C\xE3\x80\x82"\<close>: blank, tab, newline, the full-width comma and full stop.\<close>

definition SPECIAL_SEPARATORS :: string where
  "SPECIAL_SEPARATORS = [CHR '' '', CHR 9, CHR 10, CHR 0xEF, CHR 0xBC, CHR 0x8C, CHR 0xE3, CHR 0x80, CHR 0x82]"

text \<open>\<open>ResetSeparators\<close>: the return value and \<open>symbols_\<close> afterwards. The insertion loop stops at the
first rune that is already in the set.\<close>

fun insert_symbols :: "Rune set \<Rightarrow> RuneStr list \<Rightarrow> bool \<times> Rune set" where
  "insert_symbols syms [] = (True, syms)"
| "insert_symbols syms (r # rs) =
     (if rune r \<in> syms then (False, syms) else insert_symbols (insert (rune r) syms) rs)"

definition ResetSeparators :: "string \<Rightarrow> bool \<times> Rune set" where
  "ResetSeparators s =
     (let (ok, runes) = DecodeRunesInString s in
      if \<not> ok then (False, {}) else insert_symbols {} runes)"

text \<open>The constructor's \<open>XCHECK(ResetSeparators(SPECIAL_SEPARATORS))\<close>.\<close>

definition default_symbols :: "Rune set" where
  "default_symbols = snd (ResetSeparators SPECIAL_SEPARATORS)"

lemma insert_symbols_set:
  "insert_symbols syms rs = (True, syms') \<Longrightarrow> syms' = syms \<union> rune ` set rs"
  by (induction syms rs rule: insert_symbols.induct) (auto split: if_splits)

lemma insert_symbols_ok:
  "fst (insert_symbols syms rs) \<longleftrightarrow> distinct (map rune rs) \<and> syms \<inter> rune ` set rs = {}"
  by (induction syms rs rule: insert_symbols.induct) auto

section \<open>PreFilter\<close>

record PreFilter =
  pf_symbols :: "Rune set"
  pf_sentence :: "RuneStr list"
  pf_cursor :: nat

definition PreFilter_init :: "Rune set \<Rightarrow> string \<Rightarrow> PreFilter" where
  "PreFilter_init syms sentence =
     \<lparr>pf_symbols = syms, pf_sentence = snd (DecodeRunesInString sentence), pf_cursor = 0\<rparr>"

definition HasNext :: "PreFilter \<Rightarrow> bool" where
  "HasNext p \<longleftrightarrow> pf_cursor p \<noteq> length (pf_sentence p)"

text \<open>The loop of \<open>Next\<close>, which began at \<open>b\<close> and now is at \<open>c\<close>: where the range ends and the cursor
stays.\<close>

function next_end :: "Rune set \<Rightarrow> RuneStr list \<Rightarrow> nat \<Rightarrow> nat \<Rightarrow> nat" where
  "next_end syms rs b c =
     (if c < length rs then
        (if rune (rs ! c) \<in> syms then (if b = c then Suc c else c) else next_end syms rs b (Suc c))
      else length rs)"
  by pat_completeness auto
termination
  by (relation "measure (\<lambda>(syms, rs, b, c). length rs - c)") auto

declare next_end.simps [simp del]

definition Next :: "PreFilter \<Rightarrow> (nat \<times> nat) \<times> PreFilter" where
  "Next p =
     (let e = next_end (pf_symbols p) (pf_sentence p) (pf_cursor p) (pf_cursor p)
      in ((pf_cursor p, e), p\<lparr>pf_cursor := e\<rparr>))"

lemma next_end_bounds:
  "c \<le> length rs \<Longrightarrow> b \<le> c \<Longrightarrow> c \<le> next_end syms rs b c \<and> next_end syms rs b c \<le> length rs \<and>
     (c < length rs \<longrightarrow> b < next_end syms rs b c)"
proof (induction syms rs b c rule: next_end.induct)
  case (1 syms rs b c)
  show ?case
  proof (cases "c < length rs \<and> rune (rs ! c) \<notin> syms")
    case True
    with "1.prems" have "Suc c \<le> next_end syms rs b (Suc c) \<and> next_end syms rs b (Suc c) \<le> length rs"
      using "1.IH" by simp
    with True "1.prems" show ?thesis by (simp add: next_end.simps [of syms rs b c])
  next
    case False
    with "1.prems" show ?thesis by (auto simp: next_end.simps [of syms rs b c])
  qed
qed

text \<open>A range that is not a single separator holds no separator.\<close>

lemma next_end_no_symbol:
  "b \<le> c \<Longrightarrow> (\<And>k. b \<le> k \<Longrightarrow> k < c \<Longrightarrow> rune (rs ! k) \<notin> syms) \<Longrightarrow> b \<le> k \<Longrightarrow>
     k < next_end syms rs b c \<Longrightarrow> next_end syms rs b c \<noteq> Suc b \<Longrightarrow> rune (rs ! k) \<notin> syms"
proof (induction syms rs b c rule: next_end.induct)
  case (1 syms rs b c)
  show ?case
  proof (cases "c < length rs \<and> rune (rs ! c) \<notin> syms")
    case True
    then have e: "next_end syms rs b c = next_end syms rs b (Suc c)"
      by (simp add: next_end.simps [of syms rs b c])
    show ?thesis
      by (rule "1.IH") (use True "1.prems" e less_Suc_eq in auto)
  next
    case False
    with "1.prems" show ?thesis
      by (auto simp: next_end.simps [of syms rs b c] split: if_splits)
  qed
qed

text \<open>\<open>while (pre_filter.HasNext()) { range = pre_filter.Next(); ... }\<close>: the ranges in their order.\<close>

definition pf_ok :: "PreFilter \<Rightarrow> bool" where
  "pf_ok p \<longleftrightarrow> pf_cursor p \<le> length (pf_sentence p)"

function pf_ranges :: "PreFilter \<Rightarrow> (nat \<times> nat) list" where
  "pf_ranges p =
     (if pf_ok p \<and> HasNext p then (let (r, p') = Next p in r # pf_ranges p') else [])"
  by pat_completeness auto
termination
proof (relation "measure (\<lambda>p. length (pf_sentence p) - pf_cursor p)", goal_cases)
  case (2 p r p')
  then show ?case
    using next_end_bounds [of "pf_cursor p" "pf_sentence p" "pf_cursor p" "pf_symbols p"]
    by (auto simp: Next_def Let_def HasNext_def pf_ok_def)
qed simp

declare pf_ranges.simps [simp del]

lemma PreFilter_init_ok [simp]: "pf_ok (PreFilter_init syms s)"
  by (simp add: PreFilter_init_def pf_ok_def)

lemma Next_ok: "pf_ok p \<Longrightarrow> HasNext p \<Longrightarrow> Next p = (r, p') \<Longrightarrow>
  pf_ok p' \<and> pf_sentence p' = pf_sentence p \<and> r = (pf_cursor p, pf_cursor p') \<and>
  pf_cursor p < pf_cursor p' \<and> pf_cursor p' \<le> length (pf_sentence p)"
  using next_end_bounds [of "pf_cursor p" "pf_sentence p" "pf_cursor p" "pf_symbols p"]
  by (auto simp: Next_def Let_def HasNext_def pf_ok_def)

text \<open>The ranges \<open>[b, e)\<close> are not empty and adjacent from \<open>i\<close> to \<open>j\<close>.\<close>

fun adjacent :: "nat \<Rightarrow> nat \<Rightarrow> (nat \<times> nat) list \<Rightarrow> bool" where
  "adjacent i j [] \<longleftrightarrow> i = j"
| "adjacent i j ((b, e) # rs) \<longleftrightarrow> b = i \<and> b < e \<and> e \<le> j \<and> adjacent e j rs"

lemma pf_ranges_adjacent:
  "pf_ok p \<Longrightarrow> adjacent (pf_cursor p) (length (pf_sentence p)) (pf_ranges p)"
proof (induction p rule: pf_ranges.induct)
  case (1 p)
  show ?case
  proof (cases "HasNext p")
    case False
    then show ?thesis by (simp add: pf_ranges.simps [of p] HasNext_def)
  next
    case True
    obtain r p' where n: "Next p = (r, p')" by (cases "Next p")
    from "1.prems" True n have "pf_ranges p = r # pf_ranges p'"
      by (subst pf_ranges.simps) simp
    with "1.IH" [of "(r, p')" r p'] Next_ok [OF "1.prems" True n] "1.prems" True n show ?thesis by auto
  qed
qed

section \<open>Cut on a sentence\<close>

text \<open>
  The method that each segmenter has: \<open>cutter\<close> is the segmenter's own \<open>Cut(begin, end, wrs)\<close>. It gets
  the runes of the sentence and a range, and gives the word ranges it pushes. \<open>Cut_words\<close> is the
  overload that gives \<open>Word\<close>s, \<open>Cut_strings\<close> the one that gives strings.
\<close>

definition Cut_ranges :: "(RuneStr list \<Rightarrow> nat \<Rightarrow> nat \<Rightarrow> WordRange list) \<Rightarrow> PreFilter \<Rightarrow> WordRange list" where
  "Cut_ranges cutter p = concat (map (\<lambda>(b, e). cutter (pf_sentence p) b e) (pf_ranges p))"

definition Cut_words ::
  "(RuneStr list \<Rightarrow> nat \<Rightarrow> nat \<Rightarrow> WordRange list) \<Rightarrow> Rune set \<Rightarrow> string \<Rightarrow> Word list" where
  "Cut_words cutter syms sentence =
     (let pre_filter = PreFilter_init syms sentence
      in GetWordsFromWordRanges sentence (pf_sentence pre_filter) (Cut_ranges cutter pre_filter))"

definition Cut_strings ::
  "(RuneStr list \<Rightarrow> nat \<Rightarrow> nat \<Rightarrow> WordRange list) \<Rightarrow> Rune set \<Rightarrow> string \<Rightarrow> string list" where
  "Cut_strings cutter syms sentence = GetStringsFromWords (Cut_words cutter syms sentence)"

lemma pf_sentence_init [simp]: "pf_sentence (PreFilter_init syms s) = snd (DecodeRunesInString s)"
  by (simp add: PreFilter_init_def)

lemma pf_cursor_init [simp]: "pf_cursor (PreFilter_init syms s) = 0"
  by (simp add: PreFilter_init_def)

text \<open>The word ranges \<open>ws\<close> lie inside \<open>[b, e)\<close>.\<close>

definition inside :: "nat \<Rightarrow> nat \<Rightarrow> WordRange list \<Rightarrow> bool" where
  "inside b e ws \<longleftrightarrow> (\<forall>w \<in> set ws. b \<le> left w \<and> left w \<le> right w \<and> right w < e)"

lemma inside_Nil [simp]: "inside b e []"
  by (simp add: inside_def)

lemma inside_append [simp]: "inside b e (xs @ ys) \<longleftrightarrow> inside b e xs \<and> inside b e ys"
  by (auto simp: inside_def)

lemma inside_Cons [simp]:
  "inside b e (w # ws) \<longleftrightarrow> b \<le> left w \<and> left w \<le> right w \<and> right w < e \<and> inside b e ws"
  by (auto simp: inside_def)

lemma inside_mono: "inside b e ws \<Longrightarrow> b' \<le> b \<Longrightarrow> e \<le> e' \<Longrightarrow> inside b' e' ws"
  by (fastforce simp: inside_def)

lemma tiles_inside: "tiles i j ws \<Longrightarrow> inside i j ws"
proof (induction ws arbitrary: i)
  case (Cons w ws)
  then have "inside (Suc (right w)) j ws" by simp
  then have "inside i j ws" by (rule inside_mono) (use Cons.prems in auto)
  with Cons.prems show ?case by auto
qed simp

locale range_cutter =
  fixes cutter :: "'c \<Rightarrow> RuneStr list \<Rightarrow> nat \<Rightarrow> nat \<Rightarrow> WordRange list" and ok :: "'c \<Rightarrow> bool"
  assumes cut_inside: "ok c \<Longrightarrow> b < e \<Longrightarrow> e \<le> length rs \<Longrightarrow> inside b e (cutter c rs b e)"
begin

lemma concat_inside:
  "ok c \<Longrightarrow> adjacent i j brs \<Longrightarrow> j \<le> length rs \<Longrightarrow> inside i j (concat (map (\<lambda>(b, e). cutter c rs b e) brs))"
proof (induction i j brs rule: adjacent.induct)
  case (2 i j b e brs)
  then have "inside b e (cutter c rs b e)" by (intro cut_inside) auto
  then have "inside i j (cutter c rs b e)" by (rule inside_mono) (use 2 in auto)
  moreover have "inside e j (concat (map (\<lambda>(b, e). cutter c rs b e) brs))"
    using 2 by simp
  then have "inside i j (concat (map (\<lambda>(b, e). cutter c rs b e) brs))"
    by (rule inside_mono) (use 2 in auto)
  ultimately show ?case by simp
qed simp

lemma Cut_ranges_inside: "ok c \<Longrightarrow> pf_ok p \<Longrightarrow> inside (pf_cursor p) (length (pf_sentence p)) (Cut_ranges (cutter c) p)"
  unfolding Cut_ranges_def by (rule concat_inside [OF _ pf_ranges_adjacent]) simp_all

text \<open>Every word of the result is a piece of the sentence, at the offset it carries.\<close>

lemma Cut_words_substrings:
  assumes c: "ok c" and w: "w \<in> set (Cut_words (cutter c) syms s)"
  shows "w_word w = take (length (w_word w)) (drop (w_offset w) s) \<and> w_word w \<noteq> []"
proof -
  let ?p = "PreFilter_init syms s"
  obtain dec rs where d: "DecodeRunesInString s = (dec, rs)" by (cases "DecodeRunesInString s")
  from w obtain wr where w: "w = GetWordFromRunes s rs (left wr) (right wr)"
    and wr: "wr \<in> set (Cut_ranges (cutter c) ?p)"
    by (auto simp: Cut_words_def GetWordsFromWordRanges_def d)
  have in1: "left wr \<le> right wr \<and> right wr < length rs"
    using Cut_ranges_inside [OF c, of ?p] wr by (auto simp: inside_def d)
  then have dec using d DecodeRunesInString_failed [of s rs] by (cases dec) auto
  then have t: "runes_tile 0 0 rs (length s)" using d DecodeRunesInString_tiles by simp
  let ?b = "boundary rs (length s)"
  have b: "?b (left wr) < ?b (Suc (right wr))"
    using in1 boundary_Suc [OF t, of "right wr"] boundary_mono [OF t, of "left wr" "right wr"] by simp
  moreover have "?b (Suc (right wr)) \<le> length s"
    using boundary_mono [OF t, of "Suc (right wr)" "length rs"] boundary_end [OF t] in1 by simp
  moreover have "w_word w = slice s (?b (left wr)) (?b (Suc (right wr)))"
    using GetStringFromRunes_slice [OF t, of "left wr" "right wr"] in1 by (simp add: w)
  moreover have "w_offset w = ?b (left wr)"
    using in1 by (simp add: w GetWordFromRunes_def Let_def boundary_def)
  ultimately show ?thesis by (auto simp: slice_def)
qed

end

locale range_segmenter =
  fixes cutter :: "'c \<Rightarrow> RuneStr list \<Rightarrow> nat \<Rightarrow> nat \<Rightarrow> WordRange list" and ok :: "'c \<Rightarrow> bool"
  assumes cut_tiles: "ok c \<Longrightarrow> b < e \<Longrightarrow> e \<le> length rs \<Longrightarrow> tiles b e (cutter c rs b e)"
begin

lemma concat_tiles_ranges:
  "ok c \<Longrightarrow> adjacent i j brs \<Longrightarrow> j \<le> length rs \<Longrightarrow> tiles i j (concat (map (\<lambda>(b, e). cutter c rs b e) brs))"
proof (induction i j brs rule: adjacent.induct)
  case (2 i j b e brs)
  then have "tiles b e (cutter c rs b e)" by (intro cut_tiles) auto
  moreover have "tiles e j (concat (map (\<lambda>(b, e). cutter c rs b e) brs))"
    using 2 by simp
  ultimately have "tiles b j (cutter c rs b e @ concat (map (\<lambda>(b, e). cutter c rs b e) brs))"
    by (rule tiles_append)
  with 2 show ?case by simp
qed simp

lemma Cut_ranges_tiles: "ok c \<Longrightarrow> pf_ok p \<Longrightarrow> tiles (pf_cursor p) (length (pf_sentence p)) (Cut_ranges (cutter c) p)"
  unfolding Cut_ranges_def by (rule concat_tiles_ranges [OF _ pf_ranges_adjacent]) simp_all

text \<open>The words of a sentence put together give the sentence, or nothing when it does not decode.\<close>

lemma concat_Cut_strings:
  assumes c: "ok c"
  shows "concat (Cut_strings (cutter c) syms s) = (if fst (DecodeRunesInString s) then s else [])"
proof (cases "DecodeRunesInString s")
  case (Pair dec rs)
  let ?p = "PreFilter_init syms s"
  have t: "tiles 0 (length rs) (Cut_ranges (cutter c) ?p)"
    using Cut_ranges_tiles [OF c, of ?p] Pair by simp
  show ?thesis
  proof (cases dec)
    case True
    then have r: "runes_tile 0 0 rs (length s)" using Pair DecodeRunesInString_tiles by simp
    have "concat (Cut_strings (cutter c) syms s) = slice s (boundary rs (length s) 0) (boundary rs (length s) (length rs))"
      using concat_tiles [OF r t] Pair by (simp add: Cut_strings_def Cut_words_def)
    with True Pair show ?thesis
      by (simp add: boundary_start [OF r] boundary_end [OF r])
  next
    case False
    then have "rs = []" using Pair DecodeRunesInString_failed by simp
    with t have "Cut_ranges (cutter c) ?p = []"
      by (cases "Cut_ranges (cutter c) ?p") auto
    with False Pair show ?thesis
      by (simp add: Cut_strings_def Cut_words_def GetWordsFromWordRanges_def GetStringsFromWords_def)
  qed
qed

end

sublocale range_segmenter \<subseteq> range_cutter cutter ok
  by unfold_locales (rule tiles_inside, rule cut_tiles)

end
