(* ===== verification/Trie.thy ===== *)
theory Trie imports Segment "HOL-Library.AList" begin

text \<open>
  The prefix tree of \<open>cppjieba/Trie.hpp\<close>. A \<open>TrieNode*\<close> is the node, a null \<open>next\<close> is \<open>None\<close>, the
  hash map \<open>NextMap\<close> is an association list whose keys stay distinct, and a \<open>const DictUnit*\<close> is
  the unit it points to, which nothing changes after it has been put into the tree.

  The locale \<open>dictionary\<close> is the contract that \<open>DictTrie\<close> relies on; it is interpreted on
  \<open>InsertNode\<close> and \<open>Find\<close>. The directed acyclic graph that \<open>Find(begin, end, res)\<close> builds is
  shown to list exactly the dictionary words that start at each position.
\<close>

section \<open>Data\<close>

definition MAX_WORD_LENGTH :: nat where
  "MAX_WORD_LENGTH = 512"

record DictUnit =
  du_word :: "Rune list"
  du_weight :: real
  du_tag :: string

record Dag =
  runestr :: RuneStr
  nexts :: "(nat \<times> DictUnit option) list"
  pInfo :: "DictUnit option"
  dag_weight :: real

datatype TrieNode = TrieNode (nxt: "(Rune \<times> TrieNode) list option") (ptValue: "DictUnit option")

definition new_node :: TrieNode where
  "new_node = TrieNode None None"

text \<open>\<open>ptNode->next->find(c)\<close> under the null test of \<open>next\<close>.\<close>

definition child :: "TrieNode \<Rightarrow> Rune \<Rightarrow> TrieNode option" where
  "child t c = (case nxt t of None \<Rightarrow> None | Some m \<Rightarrow> map_of m c)"

section \<open>Insertion, deletion, lookup\<close>

text \<open>The loop of \<open>InsertNode\<close> below a node, with what is left of the key.\<close>

fun insert_at :: "TrieNode \<Rightarrow> Rune list \<Rightarrow> DictUnit \<Rightarrow> TrieNode" where
  "insert_at t [] v = TrieNode (nxt t) (Some v)"
| "insert_at t (c # cs) v =
     (let m = (case nxt t of None \<Rightarrow> [] | Some m \<Rightarrow> m);
          n = (case map_of m c of None \<Rightarrow> new_node | Some n \<Rightarrow> n)
      in TrieNode (Some (AList.update c (insert_at n cs v) m)) (ptValue t))"

definition InsertNode :: "TrieNode \<Rightarrow> Rune list \<Rightarrow> DictUnit \<Rightarrow> TrieNode" where
  "InsertNode rt key v = (if key = [] then rt else insert_at rt key v)"

text \<open>
  \<open>DeleteNode(key, ptValue)\<close>: its loop runs once, whatever the key: it erases the rt's entry for
  the first rune and breaks.
\<close>

definition DeleteNode :: "TrieNode \<Rightarrow> Rune list \<Rightarrow> TrieNode" where
  "DeleteNode rt key =
     (case key of
        [] \<Rightarrow> rt
      | c # cs \<Rightarrow> (case nxt rt of
          None \<Rightarrow> rt
        | Some m \<Rightarrow> (case map_of m c of
            None \<Rightarrow> rt
          | Some n \<Rightarrow> TrieNode (Some (AList.delete c m)) (ptValue rt))))"

text \<open>\<open>CreateTrie\<close>: the keys and the values are inserted in their order.\<close>

definition CreateTrie :: "Rune list list \<Rightarrow> DictUnit list \<Rightarrow> TrieNode" where
  "CreateTrie keys values =
     (if values = [] \<or> keys = [] then new_node
      else fold (\<lambda>(k, v) t. InsertNode t k v) (zip keys values) new_node)"

fun walk :: "TrieNode \<Rightarrow> Rune list \<Rightarrow> TrieNode option" where
  "walk t [] = Some t"
| "walk t (c # cs) = (case child t c of None \<Rightarrow> None | Some n \<Rightarrow> walk n cs)"

definition Find :: "TrieNode \<Rightarrow> Rune list \<Rightarrow> DictUnit option" where
  "Find rt key =
     (if key = [] then None
      else (case walk rt key of None \<Rightarrow> None | Some n \<Rightarrow> ptValue n))"

text \<open>
  The inner loop of \<open>Find(begin, end, res, max_word_len)\<close> at position \<open>j\<close>, for the words that start
  at \<open>i\<close>: \<open>pt\<close> is \<open>ptNode\<close>, the list holds the runes from \<open>j\<close> on.
\<close>

fun find_nexts :: "nat \<Rightarrow> nat \<Rightarrow> TrieNode option \<Rightarrow> nat \<Rightarrow> RuneStr list \<Rightarrow> (nat \<times> DictUnit option) list" where
  "find_nexts max_word_len i pt j [] = []"
| "find_nexts max_word_len i pt j (r # rs) =
     (if \<not> j - i + 1 \<le> max_word_len then []
      else (case pt of
          None \<Rightarrow> []
        | Some t \<Rightarrow> (case child t (rune r) of
            None \<Rightarrow> []
          | Some n \<Rightarrow>
              (case ptValue n of None \<Rightarrow> [] | Some u \<Rightarrow> [(j, Some u)]) @
              find_nexts max_word_len i (Some n) (Suc j) rs)))"

definition find_dag :: "TrieNode \<Rightarrow> nat \<Rightarrow> RuneStr list \<Rightarrow> nat \<Rightarrow> Dag" where
  "find_dag rt max_word_len xs i =
     (let pt = child rt (rune (xs ! i))
      in \<lparr>runestr = xs ! i,
          nexts = (i, case pt of None \<Rightarrow> None | Some n \<Rightarrow> ptValue n) #
                  find_nexts max_word_len i pt (Suc i) (drop (Suc i) xs),
          pInfo = None, dag_weight = 0\<rparr>)"

text \<open>\<open>Find(begin, end, res, max_word_len)\<close> on an empty \<open>res\<close>; \<open>xs\<close> are the runes \<open>[begin, end)\<close>.\<close>

definition Find_dags :: "TrieNode \<Rightarrow> RuneStr list \<Rightarrow> nat \<Rightarrow> Dag list" where
  "Find_dags rt xs max_word_len = map (find_dag rt max_word_len xs) [0..<length xs]"

section \<open>Finding what was inserted\<close>

lemma child_insert_at [simp]:
  "child (insert_at t (c # cs) v) d =
     (if d = c then Some (insert_at (case child t c of None \<Rightarrow> new_node | Some n \<Rightarrow> n) cs v)
      else child t d)"
  by (cases "nxt t") (auto simp: child_def Let_def update_conv' new_node_def split: option.splits)

lemma child_new_node [simp]: "child new_node c = None"
  by (simp add: child_def new_node_def)

lemma ptValue_new_node [simp]: "ptValue new_node = None"
  by (simp add: new_node_def)

definition value_at :: "TrieNode \<Rightarrow> Rune list \<Rightarrow> DictUnit option" where
  "value_at t key = (case walk t key of None \<Rightarrow> None | Some n \<Rightarrow> ptValue n)"

lemma value_at_Nil [simp]: "value_at t [] = ptValue t"
  by (simp add: value_at_def)

lemma value_at_Cons [simp]:
  "value_at t (c # cs) = (case child t c of None \<Rightarrow> None | Some n \<Rightarrow> value_at n cs)"
  by (simp add: value_at_def split: option.splits)

lemma value_at_new_node [simp]: "value_at new_node key = None"
  by (cases key) simp_all

lemma value_at_insert_at:
  "value_at (insert_at t key v) k = (if k = key then Some v else value_at t k)"
proof (induction t key v arbitrary: k rule: insert_at.induct)
  case (1 t v)
  then show ?case by (cases k) (simp_all add: child_def)
next
  case (2 t c cs v)
  show ?case
  proof (cases k)
    case Nil
    then show ?thesis by (simp add: Let_def)
  next
    case (Cons d ds)
    have "value_at (insert_at n cs v) ds = (if ds = cs then Some v else value_at n ds)"
      if "n = (case child t c of None \<Rightarrow> new_node | Some n \<Rightarrow> n)" for n
      using that "2.IH" [OF refl refl, of ds] by (auto simp: child_def split: option.splits)
    with Cons show ?thesis
      by (auto simp del: insert_at.simps split: option.splits)
  qed
qed

lemma Find_value_at: "Find rt key = (if key = [] then None else value_at rt key)"
  by (simp add: Find_def value_at_def)

locale dictionary =
  fixes empty :: 't and insert :: "'t \<Rightarrow> 'k list \<Rightarrow> 'v \<Rightarrow> 't" and lookup :: "'t \<Rightarrow> 'k list \<Rightarrow> 'v option"
  assumes lookup_empty: "lookup empty k = None"
    and lookup_Nil: "lookup t [] = None"
    and lookup_insert: "k \<noteq> [] \<Longrightarrow> lookup (insert t k v) k' = (if k' = k then Some v else lookup t k')"
    and insert_Nil: "insert t [] v = t"
begin

text \<open>A series of insertions: the last value inserted under a key counts.\<close>

lemma lookup_inserts:
  "lookup (fold (\<lambda>(k, v) t. insert t k v) kvs t) k =
     (if k = [] then None else case map_of (rev kvs) k of None \<Rightarrow> lookup t k | Some v \<Rightarrow> Some v)"
proof (induction kvs arbitrary: t)
  case Nil
  then show ?case by (simp add: lookup_Nil)
next
  case (Cons kv kvs)
  obtain k' v' where kv: "kv = (k', v')" by (cases kv)
  have "lookup (insert t k' v') k = (if k = k' \<and> k' \<noteq> [] then Some v' else lookup t k)"
    by (cases "k' = []") (simp_all add: insert_Nil lookup_insert)
  with Cons.IH [of "insert t k' v'"] kv show ?case
    by (auto simp: map_add_def split: option.splits)
qed

text \<open>Values that carry their key: whatever is found under a key is named by it.\<close>

lemma lookup_inserts_named:
  assumes "\<And>k v. lookup t k = Some v \<Longrightarrow> key_of v = k" and "\<And>k v. (k, v) \<in> set kvs \<Longrightarrow> key_of v = k"
    and "lookup (fold (\<lambda>(k, v) t. insert t k v) kvs t) k = Some v"
  shows "key_of v = k"
  using assms by (auto simp: lookup_inserts split: if_splits option.splits dest: map_of_SomeD)

end

interpretation trie: dictionary new_node InsertNode Find
  by unfold_locales (simp_all add: Find_value_at InsertNode_def value_at_insert_at)

text \<open>Every unit in the tree is found under its own word.\<close>

definition named :: "TrieNode \<Rightarrow> bool" where
  "named t \<longleftrightarrow> (\<forall>key u. Find t key = Some u \<longrightarrow> du_word u = key)"

lemma named_new_node [simp]: "named new_node"
  by (simp add: named_def trie.lookup_empty)

lemma named_InsertNode: "named t \<Longrightarrow> named (InsertNode t (du_word u) u)"
  by (cases "du_word u = []") (auto simp: named_def trie.lookup_insert trie.insert_Nil)

lemma child_DeleteNode:
  "child (DeleteNode rt (c # cs)) d = (if d = c then None else child rt d)"
  by (cases "nxt rt") (auto simp: DeleteNode_def child_def delete_conv' split: option.splits)

lemma Find_DeleteNode:
  "Find (DeleteNode rt (c # cs)) key = (if key \<noteq> [] \<and> hd key = c then None else Find rt key)"
  by (cases key) (simp_all add: Find_value_at child_DeleteNode)

lemma named_DeleteNode: "named t \<Longrightarrow> named (DeleteNode t key)"
proof (cases key)
  case (Cons c cs)
  assume "named t"
  with Cons show ?thesis by (auto simp: named_def Find_DeleteNode)
qed (simp add: DeleteNode_def)

section \<open>The graph of dictionary words\<close>

lemma find_nexts_iff:
  "(j', u) \<in> set (find_nexts m i pt j rs) \<longleftrightarrow>
     (\<exists>k < length rs. j' = j + k \<and> j' - i + 1 \<le> m \<and> u \<noteq> None \<and>
        (\<exists>n. pt = Some n \<and> u = value_at n (map rune (take (Suc k) rs))))"
proof (induction m i pt j rs rule: find_nexts.induct)
  case (1 m i pt j)
  then show ?case by simp
next
  case (2 m i pt j r rs)
  show ?case
  proof (cases "j - i + 1 \<le> m")
    case False
    then show ?thesis by (auto simp: not_le)
  next
    case m: True
    show ?thesis
    proof (cases pt)
      case None
      with m show ?thesis by simp
    next
      case pt: (Some t)
      show ?thesis
      proof (cases "child t (rune r)")
        case None
        with m pt show ?thesis by (auto simp: take_Suc)
      next
        case (Some n)
        have split: "(\<exists>k < length (r # rs). P k) \<longleftrightarrow> P 0 \<or> (\<exists>k < length rs. P (Suc k))" for P
          by (auto simp: less_Suc_eq_0_disj)
        have "(j', u) \<in> set (find_nexts m i pt j (r # rs)) \<longleftrightarrow>
            (j' = j \<and> u = ptValue n \<and> u \<noteq> None) \<or> (j', u) \<in> set (find_nexts m i (Some n) (Suc j) rs)"
          using m pt Some by (cases "ptValue n") auto
        also have "(j', u) \<in> set (find_nexts m i (Some n) (Suc j) rs) \<longleftrightarrow>
            (\<exists>k < length rs. j' = Suc j + k \<and> j' - i + 1 \<le> m \<and> u \<noteq> None \<and>
               u = value_at n (map rune (take (Suc k) rs)))"
          using "2.IH" m pt Some by simp
        finally show ?thesis
          unfolding split using m pt Some by auto
      qed
    qed
  qed
qed

lemma find_nexts_ge: "e \<in> set (find_nexts m i pt j rs) \<Longrightarrow> j \<le> fst e"
  by (cases e) (auto simp: find_nexts_iff)

lemma find_nexts_sorted: "sorted_wrt (<) (map fst (find_nexts m i pt j rs))"
proof (induction m i pt j rs rule: find_nexts.induct)
  case (2 m i pt j r rs)
  have "Suc j \<le> fst e" if "e \<in> set (find_nexts m i (Some n) (Suc j) rs)" for e n
    using that by (rule find_nexts_ge)
  with 2 show ?case by (fastforce split: option.splits)
qed simp

lemma length_Find_dags [simp]: "length (Find_dags rt xs m) = length xs"
  by (simp add: Find_dags_def)

lemma slice_runes:
  "i < length xs \<Longrightarrow> map rune (slice xs i (Suc i + k)) = rune (xs ! i) # map rune (take k (drop (Suc i) xs))"
  by (simp add: slice_def Cons_nth_drop_Suc [symmetric])

text \<open>The successors of a position: the position itself, and the ends of the words that start there.\<close>

lemma nexts_Find_dags:
  assumes "i < length xs"
  shows "(j, u) \<in> set (nexts (Find_dags rt xs m ! i)) \<longleftrightarrow>
     j = i \<and> u = Find rt [rune (xs ! i)] \<or>
     i < j \<and> j < length xs \<and> j - i + 1 \<le> m \<and> u \<noteq> None \<and> u = Find rt (map rune (slice xs i (Suc j)))"
proof -
  have f: "Find rt [rune (xs ! i)] =
      (case child rt (rune (xs ! i)) of None \<Rightarrow> None | Some n \<Rightarrow> ptValue n)"
    by (simp add: Find_value_at split: option.split)
  have "(j, u) \<in> set (find_nexts m i (child rt (rune (xs ! i))) (Suc i) (drop (Suc i) xs)) \<longleftrightarrow>
      i < j \<and> j < length xs \<and> j - i + 1 \<le> m \<and> u \<noteq> None \<and> u = Find rt (map rune (slice xs i (Suc j)))"
    (is "?l \<longleftrightarrow> ?r")
  proof
    assume ?l
    then obtain k n where k: "k < length xs - Suc i" "j = Suc i + k" "j - i + 1 \<le> m" "u \<noteq> None"
      and n: "child rt (rune (xs ! i)) = Some n"
      and u: "u = value_at n (map rune (take (Suc k) (drop (Suc i) xs)))"
      unfolding find_nexts_iff by force
    with assms slice_runes [of i xs "Suc k"] show ?r by (simp add: Find_value_at)
  next
    assume r: ?r
    then obtain k where k: "j = Suc i + k" using less_iff_Suc_add by auto
    with r assms slice_runes [of i xs "Suc k"] show ?l
      by (auto simp: find_nexts_iff Find_value_at split: option.splits)
  qed
  with assms f show ?thesis
    by (simp add: Find_dags_def find_dag_def Let_def)
qed

text \<open>
  After \<open>InsertNode\<close> with a non-empty key, \<open>Find\<close> gives the inserted unit for that key and what it
  gave before for every other key.
\<close>

theorem trie_find_insert:
  assumes "key \<noteq> []"
  shows "Find (InsertNode rt key u) key' = (if key' = key then Some u else Find rt key')"
  using assms by (rule trie.lookup_insert)

theorem trie_find_insert_witness:
  "let u = \<lparr>du_word = [1, 2], du_weight = 0, du_tag = []\<rparr>
   in Find (InsertNode new_node [1, 2] u) [1, 2] = Some u \<and> Find (InsertNode new_node [1, 2] u) [1] = None"
  by (simp add: trie_find_insert trie.lookup_empty Let_def)

text \<open>
  C21: A trie built by \<open>CreateTrie\<close> holds, under each non-empty key, the last value that was given for
  the key, and nothing else.
\<close>

theorem trie_find_created:
  assumes "length keys = length values"
  shows "Find (CreateTrie keys values) key =
     (if key = [] then None else map_of (rev (zip keys values)) key)"
  using assms
  by (auto simp: CreateTrie_def trie.lookup_inserts trie.lookup_empty split: option.splits)

theorem trie_find_created_witness:
  "let u = \<lparr>du_word = [7], du_weight = 0, du_tag = []\<rparr>; v = u\<lparr>du_tag := ''n''\<rparr>
   in Find (CreateTrie [[7], [], [7]] [u, u, v]) [7] = Some v"
  by (simp add: trie_find_created Let_def)

text \<open>
  C22: In the graph that \<open>Find(begin, end, res, max_word_len)\<close> builds, the successors of position \<open>i\<close>
  are \<open>i\<close> itself, with the unit of the single rune if it has one, and exactly those later positions
  \<open>j\<close> for which the runes from \<open>i\<close> to \<open>j\<close> are a word of the trie of at most \<open>max_word_len\<close> runes.
\<close>

theorem trie_dag_exact:
  assumes "i < length xs"
  shows "set (nexts (Find_dags rt xs max_word_len ! i)) =
     {(i, Find rt [rune (xs ! i)])} \<union>
     {(j, Some u) | j u. i < j \<and> j < length xs \<and> j - i + 1 \<le> max_word_len \<and>
        Find rt (map rune (slice xs i (Suc j))) = Some u}"
  by (auto simp: nexts_Find_dags [OF assms])

theorem trie_dag_exact_witness:
  "let r = \<lambda>c n. \<lparr>rune = c, offset = n, len = 1, unicode_offset = n, unicode_length = 1\<rparr>;
       u = \<lparr>du_word = [97, 98], du_weight = 0, du_tag = []\<rparr>
   in (1, Some u) \<in> set (nexts (Find_dags (InsertNode new_node [97, 98] u) [r 97 0, r 98 1] 2 ! 0))"
  unfolding Let_def
  by (subst trie_dag_exact) (auto simp: trie.lookup_insert slice_def)

text \<open>
  \<open>DeleteNode\<close> erases more than its key: after it, no word that starts with the first rune of the
  deleted word is found, and every other word still is.
\<close>

theorem trie_delete_whole_initial:
  "Find (DeleteNode rt (c # cs)) key = (if key \<noteq> [] \<and> hd key = c then None else Find rt key)"
  by (rule Find_DeleteNode)

end
