(* ===== verification/StringUtil.thy ===== *)
theory StringUtil imports Unicode begin

text \<open>
  The string helpers of \<open>cppjieba/limonp/StringUtil.hpp\<close>: trimming, splitting and joining, prefix
  and suffix tests, and the conversions between UTF-8, GBK and 16 or 32 bit code points.

  \<open>Split\<close> and \<open>Join\<close> are shown to be inverse up to the trailing separator that \<open>Split\<close> drops;
  encoding to UTF-8 and decoding is the identity below U+100000, and above it the encoder loses a
  bit. \<open>Join\<close> and the case conversions work on the whole string; \<open>StringFormat\<close> and \<open>GetTime\<close>
  call the C library only and are not modelled.
\<close>

section \<open>Trimming, prefixes and suffixes\<close>

definition Upper :: "string \<Rightarrow> string" where
  "Upper str = map toupper str"

definition Lower :: "string \<Rightarrow> string" where
  "Lower str = map tolower str"

text \<open>\<open>IsSpace\<close> is called on a \<open>char\<close> converted to \<open>unsigned\<close>: a negative one is above \<open>0xff\<close>.\<close>

definition IsSpace :: "char \<Rightarrow> bool" where
  "IsSpace c = (if 128 \<le> (of_char c :: nat) then False else is_space c)"

definition LTrim :: "string \<Rightarrow> string" where
  "LTrim s = dropWhile IsSpace s"

definition RTrim :: "string \<Rightarrow> string" where
  "RTrim s = rev (dropWhile IsSpace (rev s))"

definition Trim :: "string \<Rightarrow> string" where
  "Trim s = LTrim (RTrim s)"

definition LTrim_char :: "string \<Rightarrow> char \<Rightarrow> string" where
  "LTrim_char s x = dropWhile (\<lambda>c. c = x) s"

definition RTrim_char :: "string \<Rightarrow> char \<Rightarrow> string" where
  "RTrim_char s x = rev (dropWhile (\<lambda>c. c = x) (rev s))"

definition Trim_char :: "string \<Rightarrow> char \<Rightarrow> string" where
  "Trim_char s x = LTrim_char (RTrim_char s x) x"

definition StartsWith :: "string \<Rightarrow> string \<Rightarrow> bool" where
  "StartsWith str p = (if length str < length p then False else take (length p) str = p)"

definition EndsWith :: "string \<Rightarrow> string \<Rightarrow> bool" where
  "EndsWith str p = (if length str < length p then False else drop (length str - length p) str = p)"

definition IsInStr :: "string \<Rightarrow> char \<Rightarrow> bool" where
  "IsInStr str ch \<longleftrightarrow> find_str str [ch] \<noteq> None"

definition PathJoin :: "string \<Rightarrow> string \<Rightarrow> string" where
  "PathJoin path1 path2 = (if EndsWith path1 ''/'' then path1 @ path2 else path1 @ ''/'' @ path2)"

lemma StartsWith_prefix [simp]: "StartsWith str p \<longleftrightarrow> prefix p str"
  by (auto simp: StartsWith_def prefix_def dest: prefix_length_le)
     (metis append_take_drop_id)

lemma EndsWith_suffix [simp]: "EndsWith str p \<longleftrightarrow> suffix p str"
  by (auto simp: EndsWith_def suffix_def) (metis append_take_drop_id)

lemma Trim_idem: "Trim (Trim s) = Trim s"
proof -
  have d: "dropWhile P (dropWhile P xs) = dropWhile P xs" for P and xs :: string
    by (induction xs) auto
  have "RTrim (LTrim (RTrim s)) = LTrim (RTrim s)"
  proof (cases "LTrim (RTrim s) = []")
    case False
    then obtain xs x where x: "LTrim (RTrim s) = xs @ [x]"
      by (metis rev_exhaust)
    have "suffix (LTrim (RTrim s)) (RTrim s)"
      by (simp add: LTrim_def suffix_dropWhile)
    then have "last (RTrim s) = x" and "RTrim s \<noteq> []"
      using x by (auto simp: suffix_def)
    then have "hd (dropWhile IsSpace (rev s)) = x" and "dropWhile IsSpace (rev s) \<noteq> []"
      by (auto simp: RTrim_def last_rev)
    then have "\<not> IsSpace x"
      using hd_dropWhile [of IsSpace "rev s"] by auto
    with x show ?thesis by (simp add: RTrim_def)
  qed (simp add: RTrim_def)
  then show ?thesis by (simp add: Trim_def LTrim_def d)
qed

section \<open>Split and Join\<close>

text \<open>The loop from byte \<open>start\<close> on with \<open>n\<close> pieces already in \<open>res\<close>; \<open>npos\<close> is \<open>size_t(-1)\<close>.\<close>

definition npos :: u64 where
  "npos = - 1"

lemma unat_npos: "unat npos = 2 ^ 64 - 1"
  by (simp add: npos_def unsigned_minus_1_eq_mask mask_eq_exp_minus_1)

lemma below_npos: "n < unat npos \<Longrightarrow> \<not> npos \<le> word_of_nat n"
  by (simp add: word_le_nat_alt unat_of_nat unat_npos)

function split_from :: "string \<Rightarrow> string \<Rightarrow> u64 \<Rightarrow> nat \<Rightarrow> nat \<Rightarrow> string list" where
  "split_from src pat maxsplit start n =
     (if start < length src then
        (case find_first_of src pat start of
           None \<Rightarrow> [drop start src]
         | Some e \<Rightarrow>
             if maxsplit \<le> word_of_nat n then [drop start src]
             else slice src start e # split_from src pat maxsplit (Suc e) (Suc n))
      else [])"
  by pat_completeness auto
termination
  by (relation "measure (\<lambda>(src, pat, maxsplit, start, n). length src - start)")
     (auto simp: find_first_of_def)

declare split_from.simps [simp del]

definition Split_max :: "string \<Rightarrow> string \<Rightarrow> u64 \<Rightarrow> string list" where
  "Split_max src pat maxsplit = split_from src pat maxsplit 0 0"

text \<open>The default \<open>maxsplit = string::npos\<close>: no string has that many pieces.\<close>

definition Split :: "string \<Rightarrow> string \<Rightarrow> string list" where
  "Split src pat = Split_max src pat npos"

text \<open>\<open>Join\<close> leaves \<open>res\<close> alone on an empty range; the overload that returns a string starts from
the empty string.\<close>

fun join_more :: "string list \<Rightarrow> string \<Rightarrow> string" where
  "join_more [] connector = []"
| "join_more (x # xs) connector = connector @ x @ join_more xs connector"

definition Join :: "string list \<Rightarrow> string \<Rightarrow> string" where
  "Join xs connector = (case xs of [] \<Rightarrow> [] | x # xs' \<Rightarrow> x @ join_more xs' connector)"

lemma Join_Nil [simp]: "Join [] c = []"
  by (simp add: Join_def)

lemma Join_Cons: "Join (x # xs) c = (if xs = [] then x else x @ c @ Join xs c)"
  by (cases xs) (simp_all add: Join_def)


lemma split_from_pieces:
  "length src - start + n \<le> unat npos \<Longrightarrow> split_from src [c] npos start n = pieces c (drop start src)"
proof (induction src "[c]" npos start n rule: split_from.induct)
  case (1 src start n)
  let ?d = "drop start src"
  show ?case
  proof (cases "start < length src")
    case False
    then show ?thesis by (simp add: split_from.simps)
  next
    case start: True
    show ?thesis
    proof (cases "first_of ?d [c]")
      case None
      then have "c \<notin> set ?d" by (simp add: first_of_None)
      with None start show ?thesis
        by (subst split_from.simps) (simp add: find_first_of_def pieces_last)
    next
      case (Some i)
      then have i: "i < length ?d" "?d ! i = c" "c \<notin> set (take i ?d)"
        by (auto simp: first_of_Some)
      have d: "?d = take i ?d @ c # drop (Suc i) ?d"
        using i(1,2) by (metis id_take_nth_drop)
      have f: "find_first_of src [c] start = Some (start + i)"
        using Some by (simp add: find_first_of_def)
      have n: "\<not> npos \<le> word_of_nat n" using start "1.prems" by (intro below_npos) simp
      have "split_from src [c] npos (Suc (start + i)) (Suc n) = pieces c (drop (Suc (start + i)) src)"
        using start "1.prems" i(1) by (intro "1.hyps" [OF start f n]) simp
      with start f n have "split_from src [c] npos start n =
          slice src start (start + i) # pieces c (drop (Suc (start + i)) src)"
        by (subst split_from.simps) simp
      also have "\<dots> = take i ?d # pieces c (drop (Suc i) ?d)"
        by (simp add: slice_def add.commute)
      also have "\<dots> = pieces c ?d"
        using pieces_piece [OF i(3), of "drop (Suc i) ?d"] d by simp
      finally show ?thesis .
    qed
  qed
qed

lemma Split_pieces: "length src \<le> unat npos \<Longrightarrow> Split src [c] = pieces c src"
  by (simp add: Split_def Split_max_def split_from_pieces)

lemma Join_pieces: "Join (pieces c s) [c] = (if s \<noteq> [] \<and> last s = c then butlast s else s)"
proof (induction s rule: pieces_induct [where c = c])
  case (last s)
  then have "last s \<noteq> c" by (metis last_in_set)
  with last show ?case by (simp add: pieces_last Join_Cons)
next
  case (piece l rest)
  then show ?case
    by (auto simp: pieces_piece Join_Cons butlast_append split: if_splits)
       (metis pieces.simps list.distinct(1))+
qed simp

lemma pieces_Join:
  assumes "ls \<noteq> []" and "\<And>l. l \<in> set ls \<Longrightarrow> c \<notin> set l" and "last ls \<noteq> []"
  shows "pieces c (Join ls [c]) = ls"
  using assms
proof (induction ls)
  case (Cons l ls)
  show ?case
  proof (cases "ls = []")
    case True
    with Cons.prems show ?thesis by (simp add: Join_Cons pieces_last)
  next
    case False
    with Cons have "pieces c (Join ls [c]) = ls" by auto
    with False Cons.prems(2) [of l] show ?thesis by (simp add: Join_Cons pieces_piece)
  qed
qed simp

section \<open>UTF-8 and 32 bit code points\<close>

text \<open>One code point, as \<open>Unicode32ToUtf8\<close> writes it.\<close>

definition utf8_of :: "u32 \<Rightarrow> string" where
  "utf8_of ui =
     (if ui \<le> 0x7f then [char_of_byte (ucast ui)]
      else if ui \<le> 0x7ff then
        [char_of_byte (ucast ((drop_bit 6 ui AND 0x1f) OR 0xc0)),
         char_of_byte (ucast ((ui AND 0x3f) OR 0x80))]
      else if ui \<le> 0xffff then
        [char_of_byte (ucast ((drop_bit 12 ui AND 0x0f) OR 0xe0)),
         char_of_byte (ucast ((drop_bit 6 ui AND 0x3f) OR 0x80)),
         char_of_byte (ucast ((ui AND 0x3f) OR 0x80))]
      else
        [char_of_byte (ucast ((drop_bit 18 ui AND 0x03) OR 0xf0)),
         char_of_byte (ucast ((drop_bit 12 ui AND 0x3f) OR 0x80)),
         char_of_byte (ucast ((drop_bit 6 ui AND 0x3f) OR 0x80)),
         char_of_byte (ucast ((ui AND 0x3f) OR 0x80))])"

definition Unicode32ToUtf8 :: "u32 list \<Rightarrow> string" where
  "Unicode32ToUtf8 us = concat (map utf8_of us)"

text \<open>\<open>Utf8ToUnicode32\<close>: a failed conversion leaves what it has pushed so far in \<open>vec\<close>.\<close>

function utf8_to_u32_from :: "string \<Rightarrow> nat \<Rightarrow> bool \<times> u32 list" where
  "utf8_to_u32_from str i =
     (if i < length str then
        (if byte_of (str ! i) AND 0x80 = 0 then
           apsnd ((#) (lead_bits 0x7f (str ! i))) (utf8_to_u32_from str (i + 1))
         else if byte_of (str ! i) \<le> 0xdf \<and> i + 1 < length str then
           apsnd ((#) (next_bits (lead_bits 0x1f (str ! i)) (str ! (i + 1))))
             (utf8_to_u32_from str (i + 2))
         else if byte_of (str ! i) \<le> 0xef \<and> i + 2 < length str then
           apsnd ((#) (next_bits (next_bits (lead_bits 0x0f (str ! i)) (str ! (i + 1)))
             (str ! (i + 2)))) (utf8_to_u32_from str (i + 3))
         else if byte_of (str ! i) \<le> 0xf7 \<and> i + 3 < length str then
           apsnd ((#) (next_bits (next_bits (next_bits (lead_bits 0x07 (str ! i)) (str ! (i + 1)))
             (str ! (i + 2))) (str ! (i + 3)))) (utf8_to_u32_from str (i + 4))
         else (False, []))
      else (True, []))"
  by pat_completeness auto
termination
  by (relation "measure (\<lambda>(str, i). length str - i)") auto

declare utf8_to_u32_from.simps [simp del]

definition Utf8ToUnicode32 :: "string \<Rightarrow> bool \<times> u32 list" where
  "Utf8ToUnicode32 str = utf8_to_u32_from str 0"

text \<open>The two decoders of the library agree.\<close>

lemma utf8_to_u32_step:
  "i < length s \<Longrightarrow> utf8_to_u32_from s i =
     (let rp = DecodeRuneInString (drop i s) in
      if lite_len rp = 0 then (False, [])
      else apsnd ((#) (lite_rune rp)) (utf8_to_u32_from s (i + lite_len rp)))"
  by (subst utf8_to_u32_from.simps)
     (simp add: DecodeRuneInString_def Let_def less_diff_conv add.commute)

lemma utf8_to_u32_decode_from:
  "(decode_from s i j = None \<longrightarrow> \<not> fst (utf8_to_u32_from s i)) \<and>
   (\<forall>rs. decode_from s i j = Some rs \<longrightarrow> utf8_to_u32_from s i = (True, map rune rs))"
proof (induction s i j rule: decode_from.induct)
  case (1 s i j)
  show ?case
  proof (cases "i < length s")
    case False
    then show ?thesis by (simp add: decode_from.simps [of s i j] utf8_to_u32_from.simps [of s i])
  next
    case True
    show ?thesis
      using "1.IH" [OF True refl]
      by (auto simp: utf8_to_u32_step [OF True] decode_from.simps [of s i j] True Let_def)
  qed
qed

section \<open>Round trips\<close>

lemma unat_drop_bit: "unat (drop_bit n (w :: 'a :: len word)) = unat w div 2 ^ n"
proof -
  have "unat (drop_bit n w) = drop_bit n (take_bit LENGTH('a) (unat w))"
    by (rule unsigned_drop_bit_eq)
  also have "take_bit LENGTH('a) (unat w) = unat w"
    by (simp add: take_bit_nat_eq_self)
  finally show ?thesis by (simp only: drop_bit_eq_div)
qed

lemma unat_ucast_u32_byte: "unat (ucast (w :: u32) :: byte) = unat w mod 256"
  by (simp add: unsigned_ucast_eq take_bit_eq_mod)

lemma unat_or_disjoint:
  fixes h :: "'a :: len word"
  assumes "h AND mask k = 0"
  shows "unat ((w AND mask k) OR h) = unat w mod 2 ^ k + unat h"
proof -
  have "unat (w AND mask k) AND unat h = unat ((w AND mask k) AND h)"
    by (simp only: unsigned_and_eq)
  also have "(w AND mask k) AND h = 0"
    using assms by (simp add: and.assoc and.commute [of "mask k" h])
  finally have "unat (w AND mask k) AND unat h = 0" by simp
  then have "unat (w AND mask k) OR unat h = unat (w AND mask k) + unat h"
    by (rule disjunctive_add_eq_or [symmetric])
  moreover have "unat ((w AND mask k) OR h) = unat (w AND mask k) OR unat h"
    by (rule unsigned_or_eq)
  ultimately show ?thesis by (simp only: unat_and_mask)
qed

lemma unat_tagged_byte:
  assumes "h AND mask k = 0" and "2 ^ k + unat h \<le> 256"
  shows "unat (ucast ((w AND mask k) OR h :: u32) :: byte) = unat w mod 2 ^ k + unat h"
proof -
  have "unat w mod 2 ^ k < 2 ^ k" by simp
  then have "unat w mod 2 ^ k + unat h < 256" using assms(2) by linarith
  then show ?thesis
    by (simp add: unat_ucast_u32_byte unat_or_disjoint [OF assms(1)])
qed

lemma u32_masks:
  "(0x3f :: u32) = mask 6" "(0x1f :: u32) = mask 5" "(0x0f :: u32) = mask 4" "(0x03 :: u32) = mask 2"
  by (simp_all add: mask_eq_exp_minus_1)

lemma unat_utf8_bytes:
  fixes ui w :: u32
  shows "ui \<le> 0x7f \<Longrightarrow> unat (ucast ui :: byte) = unat ui"
    and "unat (ucast ((w AND 0x3f) OR 0x80) :: byte) = unat w mod 64 + 128"
    and "unat (ucast ((w AND 0x1f) OR 0xc0) :: byte) = unat w mod 32 + 192"
    and "unat (ucast ((w AND 0x0f) OR 0xe0) :: byte) = unat w mod 16 + 224"
    and "unat (ucast ((w AND 0x03) OR 0xf0) :: byte) = unat w mod 4 + 240"
proof -
  show "ui \<le> 0x7f \<Longrightarrow> unat (ucast ui :: byte) = unat ui"
    by (simp add: unat_ucast_u32_byte word_le_nat_alt)
qed (unfold u32_masks, (subst unat_tagged_byte; simp add: mask_eq_exp_minus_1)+)

lemma nat_digits:
  fixes v :: nat
  shows "v < 2048 \<Longrightarrow> v div 64 mod 32 * 64 + v mod 64 = v"
    and "v < 65536 \<Longrightarrow> (v div 4096 mod 16 * 64 + v div 64 mod 64) * 64 + v mod 64 = v"
    and "((v div 262144 mod 4 * 64 + v div 4096 mod 64) * 64 + v div 64 mod 64) * 64 + v mod 64
           = v mod 2 ^ 20"
proof -
  have d: "v div 64 div 64 = v div 4096" "v div 4096 div 64 = v div 262144"
    by (simp_all flip: div_mult2_eq)
  show "v < 2048 \<Longrightarrow> v div 64 mod 32 * 64 + v mod 64 = v"
    using mod_mult2_eq [of v 64 32] by simp
  show "v < 65536 \<Longrightarrow> (v div 4096 mod 16 * 64 + v div 64 mod 64) * 64 + v mod 64 = v"
    using mod_mult2_eq [of v 64 1024] mod_mult2_eq [of "v div 64" 64 16] d by simp
  show "((v div 262144 mod 4 * 64 + v div 4096 mod 64) * 64 + v div 64 mod 64) * 64 + v mod 64
          = v mod 2 ^ 20"
    using mod_mult2_eq [of v 64 16384] mod_mult2_eq [of "v div 64" 64 256]
      mod_mult2_eq [of "v div 4096" 64 4] d by simp
qed

lemma DecodeRuneInString_bytes:
  "unat (byte_of a) < 128 \<Longrightarrow>
     DecodeRuneInString (a # s) = \<lparr>lite_rune = lead_bits 0x7f a, lite_len = 1\<rparr>"
  "128 \<le> unat (byte_of a) \<Longrightarrow> unat (byte_of a) \<le> 223 \<Longrightarrow>
     DecodeRuneInString (a # b # s) = \<lparr>lite_rune = next_bits (lead_bits 0x1f a) b, lite_len = 2\<rparr>"
  "223 < unat (byte_of a) \<Longrightarrow> unat (byte_of a) \<le> 239 \<Longrightarrow>
     DecodeRuneInString (a # b # c # s) =
       \<lparr>lite_rune = next_bits (next_bits (lead_bits 0x0f a) b) c, lite_len = 3\<rparr>"
  "239 < unat (byte_of a) \<Longrightarrow> unat (byte_of a) \<le> 247 \<Longrightarrow>
     DecodeRuneInString (a # b # c # d # s) =
       \<lparr>lite_rune = next_bits (next_bits (next_bits (lead_bits 0x07 a) b) c) d, lite_len = 4\<rparr>"
  by (simp_all add: DecodeRuneInString_def byte_high_bit byte_le_iff)

text \<open>Decoding what the encoder wrote: above U+FFFF only twenty bits survive.\<close>

lemma DecodeRuneInString_utf8_of:
  "DecodeRuneInString (utf8_of ui @ rest) =
     \<lparr>lite_rune = (if ui \<le> 0xffff then ui else word_of_nat (unat ui mod 2 ^ 20)),
      lite_len = length (utf8_of ui)\<rparr>"
proof -
  let ?v = "unat ui"
  have small: "x mod 64 < 64" "x mod 32 < 32" "x mod 16 < 16" "x mod 4 < 4" for x :: nat
    by simp_all
  have m: "(x mod 64 + 128) mod 64 = x mod 64" "(x mod 32 + 192) mod 32 = x mod 32"
    "(x mod 16 + 224) mod 16 = x mod 16" "(x mod 4 + 240) mod 8 = x mod 4" for x :: nat
  proof -
    show "(x mod 64 + 128) mod 64 = x mod 64" using mod_mult_self2 [of "x mod 64" 64 2] by simp
    show "(x mod 32 + 192) mod 32 = x mod 32" using mod_mult_self2 [of "x mod 32" 32 6] by simp
    show "(x mod 16 + 224) mod 16 = x mod 16" using mod_mult_self2 [of "x mod 16" 16 14] by simp
    show "(x mod 4 + 240) mod 8 = x mod 4"
      using mod_mult_self2 [of "x mod 4" 8 30] small(4) [of x] by simp
  qed
  consider (1) "ui \<le> 0x7f" | (2) "\<not> ui \<le> 0x7f" "ui \<le> 0x7ff"
    | (3) "\<not> ui \<le> 0x7ff" "ui \<le> 0xffff" | (4) "\<not> ui \<le> 0xffff"
    by blast
  then show ?thesis
  proof cases
    case 1
    then have v: "?v < 128" and "ui \<le> 0xffff" by (simp_all add: word_le_nat_alt)
    moreover have "lead_bits 0x7f (char_of_byte (ucast ui)) = ui"
      using 1 v by (simp add: word_unat_eq_iff unat_lead_bits unat_utf8_bytes)
    ultimately show ?thesis
      using 1 by (simp add: DecodeRuneInString_bytes utf8_of_def unat_utf8_bytes)
  next
    case 2
    then have v: "?v < 2048" and w: "ui \<le> 0xffff" by (simp_all add: word_le_nat_alt)
    let ?a = "char_of_byte (ucast ((drop_bit 6 ui AND 0x1f) OR 0xc0))"
    let ?b = "char_of_byte (ucast ((ui AND 0x3f) OR 0x80))"
    have a: "unat (byte_of ?a) = ?v div 64 mod 32 + 192" and b: "unat (byte_of ?b) = ?v mod 64 + 128"
      by (simp_all add: unat_utf8_bytes unat_drop_bit)
    have la: "unat (lead_bits 0x1f ?a) = ?v div 64 mod 32"
      by (simp only: unat_lead_bits a m)
    have "unat (next_bits (lead_bits 0x1f ?a) ?b) = ?v div 64 mod 32 * 64 + ?v mod 64"
      by (subst unat_next_bits; simp only: la b m; use small(2) [of "?v div 64"] in simp)
    then have "next_bits (lead_bits 0x1f ?a) ?b = ui"
      by (simp only: word_unat_eq_iff nat_digits(1) [OF v])
    moreover have "128 \<le> unat (byte_of ?a)" "unat (byte_of ?a) \<le> 223"
      using a small(2) [of "?v div 64"] by linarith+
    ultimately show ?thesis
      using 2 w by (simp add: DecodeRuneInString_bytes utf8_of_def)
  next
    case 3
    then have v: "?v < 65536" by (simp add: word_le_nat_alt)
    let ?a = "char_of_byte (ucast ((drop_bit 12 ui AND 0x0f) OR 0xe0))"
    let ?b = "char_of_byte (ucast ((drop_bit 6 ui AND 0x3f) OR 0x80))"
    let ?c = "char_of_byte (ucast ((ui AND 0x3f) OR 0x80))"
    have a: "unat (byte_of ?a) = ?v div 4096 mod 16 + 224"
      and b: "unat (byte_of ?b) = ?v div 64 mod 64 + 128" and c: "unat (byte_of ?c) = ?v mod 64 + 128"
      by (simp_all add: unat_utf8_bytes unat_drop_bit)
    have la: "unat (lead_bits 0x0f ?a) = ?v div 4096 mod 16"
      by (simp only: unat_lead_bits a m)
    have lb: "unat (next_bits (lead_bits 0x0f ?a) ?b) = ?v div 4096 mod 16 * 64 + ?v div 64 mod 64"
      by (subst unat_next_bits; simp only: la b m; use small(3) [of "?v div 4096"] in simp)
    have "unat (next_bits (next_bits (lead_bits 0x0f ?a) ?b) ?c) =
        (?v div 4096 mod 16 * 64 + ?v div 64 mod 64) * 64 + ?v mod 64"
      by (subst unat_next_bits; simp only: lb c m;
          use small(3) [of "?v div 4096"] small(1) [of "?v div 64"] in simp)
    then have "next_bits (next_bits (lead_bits 0x0f ?a) ?b) ?c = ui"
      by (simp only: word_unat_eq_iff nat_digits(2) [OF v])
    moreover have "223 < unat (byte_of ?a)" "unat (byte_of ?a) \<le> 239"
      using a small(3) [of "?v div 4096"] by linarith+
    moreover have "\<not> ui \<le> 0x7f" using 3 by (simp add: word_le_nat_alt)
    ultimately show ?thesis
      using 3 by (simp add: DecodeRuneInString_bytes utf8_of_def)
  next
    case 4
    let ?a = "char_of_byte (ucast ((drop_bit 18 ui AND 0x03) OR 0xf0))"
    let ?b = "char_of_byte (ucast ((drop_bit 12 ui AND 0x3f) OR 0x80))"
    let ?c = "char_of_byte (ucast ((drop_bit 6 ui AND 0x3f) OR 0x80))"
    let ?d = "char_of_byte (ucast ((ui AND 0x3f) OR 0x80))"
    have a: "unat (byte_of ?a) = ?v div 262144 mod 4 + 240"
      and b: "unat (byte_of ?b) = ?v div 4096 mod 64 + 128"
      and c: "unat (byte_of ?c) = ?v div 64 mod 64 + 128" and d: "unat (byte_of ?d) = ?v mod 64 + 128"
      by (simp_all add: unat_utf8_bytes unat_drop_bit)
    have la: "unat (lead_bits 0x07 ?a) = ?v div 262144 mod 4"
      by (simp only: unat_lead_bits a m)
    have lb: "unat (next_bits (lead_bits 0x07 ?a) ?b) = ?v div 262144 mod 4 * 64 + ?v div 4096 mod 64"
      by (subst unat_next_bits; simp only: la b m; use small(4) [of "?v div 262144"] in simp)
    have lc: "unat (next_bits (next_bits (lead_bits 0x07 ?a) ?b) ?c) =
        (?v div 262144 mod 4 * 64 + ?v div 4096 mod 64) * 64 + ?v div 64 mod 64"
      by (subst unat_next_bits; simp only: lb c m;
          use small(4) [of "?v div 262144"] small(1) [of "?v div 4096"] in simp)
    have "unat (next_bits (next_bits (next_bits (lead_bits 0x07 ?a) ?b) ?c) ?d) = ?v mod 2 ^ 20"
      unfolding nat_digits(3) [of ?v, symmetric]
      by (subst unat_next_bits; simp only: lc d m;
          use small(4) [of "?v div 262144"] small(1) [of "?v div 4096"] small(1) [of "?v div 64"]
          in simp)
    then have "next_bits (next_bits (next_bits (lead_bits 0x07 ?a) ?b) ?c) ?d = word_of_nat (?v mod 2 ^ 20)"
      by (metis of_nat_unat ucast_id)
    moreover have "239 < unat (byte_of ?a)" "unat (byte_of ?a) \<le> 247"
      using a small(4) [of "?v div 262144"] by linarith+
    moreover have "\<not> ui \<le> 0x7f" "\<not> ui \<le> 0x7ff" using 4 by (simp_all add: word_le_nat_alt)
    ultimately show ?thesis
      using 4 by (simp add: DecodeRuneInString_bytes utf8_of_def)
  qed
qed

lemma utf8_of_nonempty [simp]: "utf8_of ui \<noteq> []"
  by (simp add: utf8_of_def)

lemma decode_from_encoded:
  "\<exists>rs. decode_from (pre @ Unicode32ToUtf8 us) (length pre) j = Some rs \<and>
        map rune rs = map (\<lambda>u. if u \<le> 0xffff then u else word_of_nat (unat u mod 2 ^ 20)) us"
proof (induction us arbitrary: pre j)
  case Nil
  then show ?case by (simp add: Unicode32ToUtf8_def decode_from.simps)
next
  case (Cons u us)
  let ?rest = "Unicode32ToUtf8 us"
  have e: "Unicode32ToUtf8 (u # us) = utf8_of u @ ?rest" by (simp add: Unicode32ToUtf8_def)
  obtain rs where "decode_from ((pre @ utf8_of u) @ ?rest) (length (pre @ utf8_of u)) (Suc j) = Some rs"
    and rs: "map rune rs = map (\<lambda>u. if u \<le> 0xffff then u else word_of_nat (unat u mod 2 ^ 20)) us"
    using Cons.IH [of "pre @ utf8_of u" "Suc j"] by blast
  then have d: "decode_from (pre @ utf8_of u @ ?rest) (length pre + length (utf8_of u)) (Suc j) = Some rs"
    by simp
  have "0 < length (utf8_of u)" by simp
  then show ?case
    unfolding e using d rs
    by (subst decode_from.simps) (simp add: DecodeRuneInString_utf8_of Let_def)
qed

text \<open>
  C33: Encoding code points below U+100000 to UTF-8 with \<open>Unicode32ToUtf8\<close> and decoding the result
  with \<open>DecodeRunesInString\<close> gives the code points back.
\<close>

theorem utf8_roundtrip:
  assumes "\<forall>u \<in> set us. u < 0x100000"
  shows "DecodeRunesInString_Unicode (Unicode32ToUtf8 us) = (True, us)"
proof -
  obtain rs where d: "decode_from (Unicode32ToUtf8 us) 0 0 = Some rs"
    and rs: "map rune rs = map (\<lambda>u. if u \<le> 0xffff then u else word_of_nat (unat u mod 2 ^ 20)) us"
    using decode_from_encoded [of "[]" us 0] by auto
  have "(if u \<le> 0xffff then u else word_of_nat (unat u mod 2 ^ 20)) = u" if "u \<in> set us" for u
  proof -
    have "unat u < 2 ^ 20"
      using assms that by (auto simp: word_less_nat_alt)
    then show ?thesis by (simp add: word_unat_eq_iff unat_of_nat)
  qed
  then have "map rune rs = us"
    unfolding rs by (simp add: map_idI)
  with d show ?thesis
    by (simp add: DecodeRunesInString_Unicode_def DecodeRunesInString_def)
qed

theorem utf8_roundtrip_witness:
  "DecodeRunesInString_Unicode (Unicode32ToUtf8 [0x61, 0xe9, 0x4e2d, 0x1f600]) =
     (True, [0x61, 0xe9, 0x4e2d, 0x1f600])"
  by (rule utf8_roundtrip) simp

text \<open>
  On the last plane of Unicode, U+100000 to U+10FFFF, the encoder masks the top bits of the code
  point with \<open>0x03\<close> where three bits are needed: decoding what it wrote gives the code point less
  \<open>0x100000\<close>, so these characters do not survive.
\<close>

theorem utf8_last_plane_lost:
  assumes "0x100000 \<le> u" and "u \<le> 0x10ffff"
  shows "DecodeRunesInString_Unicode (Unicode32ToUtf8 [u]) = (True, [u - 0x100000])"
proof -
  obtain rs where d: "decode_from (Unicode32ToUtf8 [u]) 0 0 = Some rs"
    and rs: "map rune rs = map (\<lambda>u. if u \<le> 0xffff then u else word_of_nat (unat u mod 2 ^ 20)) [u]"
    using decode_from_encoded [of "[]" "[u]" 0] by auto
  have u: "2 ^ 20 \<le> unat u" "unat u < 2 ^ 21"
    using assms by (auto simp: word_le_nat_alt)
  have "unat u mod 2 ^ 20 = unat u - 2 ^ 20"
    using u by (simp add: mod_if)
  moreover have "unat (u - 0x100000) = unat u - 2 ^ 20"
    using unat_sub [OF assms(1)] by simp
  ultimately have "word_of_nat (unat u mod 2 ^ 20) = u - 0x100000"
    by (metis of_nat_unat ucast_id)
  moreover have "\<not> u \<le> 0xffff" using u by (simp add: word_le_nat_alt)
  ultimately show ?thesis
    using d rs by (simp add: DecodeRunesInString_Unicode_def DecodeRunesInString_def)
qed

theorem utf8_last_plane_lost_witness:
  "DecodeRunesInString_Unicode (Unicode32ToUtf8 [0x10ffff]) = (True, [0xffff])"
  using utf8_last_plane_lost [of "0x10ffff"] by simp

section \<open>16 bit code points and GBK\<close>

text \<open>
  \<open>Utf8ToUnicode\<close> composes a 16 bit value from two bytes; a lead byte above \<open>0xef\<close> fails. As in
  \<open>Utf8ToUnicode32\<close>, a failure leaves the values pushed so far.
\<close>

definition TwocharToUint16 :: "byte \<Rightarrow> byte \<Rightarrow> u16" where
  "TwocharToUint16 high low = push_bit 8 (ucast high AND 0xff) OR (ucast low AND 0xff)"

function utf8_to_u16_from :: "string \<Rightarrow> nat \<Rightarrow> bool \<times> u16 list" where
  "utf8_to_u16_from str i =
     (if i < length str then
        (let b0 = byte_of (str ! i) in
         if b0 AND 0x80 = 0 then apsnd ((#) (ucast b0)) (utf8_to_u16_from str (i + 1))
         else if b0 \<le> 0xdf \<and> i + 1 < length str then
           (let b1 = byte_of (str ! (i + 1));
                ch1 = drop_bit 2 b0 AND 0x07;
                ch2 = (b1 AND 0x3f) OR push_bit 6 (b0 AND 0x03)
            in apsnd ((#) (TwocharToUint16 ch1 ch2)) (utf8_to_u16_from str (i + 2)))
         else if b0 \<le> 0xef \<and> i + 2 < length str then
           (let b1 = byte_of (str ! (i + 1)); b2 = byte_of (str ! (i + 2));
                ch1 = push_bit 4 b0 OR (drop_bit 2 b1 AND 0x0f);
                ch2 = (push_bit 6 b1 AND 0xc0) OR (b2 AND 0x3f)
            in apsnd ((#) (TwocharToUint16 ch1 ch2)) (utf8_to_u16_from str (i + 3)))
         else (False, []))
      else (True, []))"
  by pat_completeness auto
termination
  by (relation "measure (\<lambda>(str, i). length str - i)") auto

declare utf8_to_u16_from.simps [simp del]

definition Utf8ToUnicode :: "string \<Rightarrow> bool \<times> u16 list" where
  "Utf8ToUnicode str = utf8_to_u16_from str 0"

definition UnicodeToUtf8 :: "u16 list \<Rightarrow> string" where
  "UnicodeToUtf8 us = concat (map (\<lambda>ui.
     if ui \<le> 0x7f then [char_of_byte (ucast ui)]
     else if ui \<le> 0x7ff then
       [char_of_byte (ucast ((drop_bit 6 ui AND 0x1f) OR 0xc0)),
        char_of_byte (ucast ((ui AND 0x3f) OR 0x80))]
     else
       [char_of_byte (ucast ((drop_bit 12 ui AND 0x0f) OR 0xe0)),
        char_of_byte (ucast ((drop_bit 6 ui AND 0x3f) OR 0x80)),
        char_of_byte (ucast ((ui AND 0x3f) OR 0x80))]) us)"

text \<open>\<open>GBKTrans\<close> from a string: a byte below \<open>0x80\<close> is one value, another byte takes the next one
with it.\<close>

fun GBKTrans_decode :: "string \<Rightarrow> bool \<times> u16 list" where
  "GBKTrans_decode [] = (True, [])"
| "GBKTrans_decode (c # cs) =
     (if byte_of c AND 0x80 = 0 then apsnd ((#) (ucast (byte_of c))) (GBKTrans_decode cs)
      else (case cs of [] \<Rightarrow> (False, [])
            | d # ds \<Rightarrow> apsnd ((#) (TwocharToUint16 (byte_of c) (byte_of d))) (GBKTrans_decode ds)))"

text \<open>\<open>GBKTrans\<close> back to a string: two bytes when the first has its high bit set, else one.\<close>

definition GBKTrans_encode :: "u16 list \<Rightarrow> string" where
  "GBKTrans_encode us = concat (map (\<lambda>u.
     let first = (ucast (drop_bit 8 u AND 0x00ff) :: byte); second = (ucast (u AND 0x00ff) :: byte)
     in if first AND 0x80 \<noteq> 0 then [char_of_byte first, char_of_byte second]
        else [char_of_byte second]) us)"

lemma gbk_bytes:
  "(ucast (drop_bit 8 (TwocharToUint16 h l) AND 0x00ff) :: byte) = h"
  "(ucast (TwocharToUint16 h l AND 0x00ff) :: byte) = l"
proof -
  have m: "(0xff :: u16) = mask 8" by (simp add: mask_eq_exp_minus_1)
  show "(ucast (drop_bit 8 (TwocharToUint16 h l) AND 0x00ff) :: byte) = h"
    unfolding TwocharToUint16_def m
    by (rule bit_word_eqI) (auto simp: bit_simps dest: bit_imp_le_length)
  show "(ucast (TwocharToUint16 h l AND 0x00ff) :: byte) = l"
    unfolding TwocharToUint16_def m
    by (rule bit_word_eqI) (auto simp: bit_simps dest: bit_imp_le_length)
qed

lemma gbk_ascii:
  "(ucast (drop_bit 8 (ucast (b :: byte) :: u16) AND 0x00ff) :: byte) = 0"
  "(ucast ((ucast (b :: byte) :: u16) AND 0x00ff) :: byte) = b"
proof -
  have m: "(0xff :: u16) = mask 8" by (simp add: mask_eq_exp_minus_1)
  show "(ucast (drop_bit 8 (ucast b :: u16) AND 0x00ff) :: byte) = 0"
    unfolding m by (rule bit_word_eqI) (auto simp: bit_simps dest: bit_imp_le_length)
  show "(ucast ((ucast b :: u16) AND 0x00ff) :: byte) = b"
    unfolding m by (rule bit_word_eqI) (auto simp: bit_simps dest: bit_imp_le_length)
qed

lemma GBKTrans_encode_Cons:
  "GBKTrans_encode (u # us) =
     (let first = (ucast (drop_bit 8 u AND 0x00ff) :: byte); second = (ucast (u AND 0x00ff) :: byte)
      in if first AND 0x80 \<noteq> 0 then [char_of_byte first, char_of_byte second]
         else [char_of_byte second]) @ GBKTrans_encode us"
  by (simp add: GBKTrans_encode_def)

text \<open>
  Whatever bytes \<open>GBKTrans\<close> accepts, transforming the 16 bit values back gives exactly these
  bytes.
\<close>

theorem gbk_roundtrip:
  "GBKTrans_decode s = (True, us) \<Longrightarrow> GBKTrans_encode us = s"
proof (induction s arbitrary: us rule: GBKTrans_decode.induct)
  case 1
  then show ?case by (simp add: GBKTrans_encode_def)
next
  case (2 c cs)
  show ?case
  proof (cases "byte_of c AND 0x80 = 0")
    case True
    with "2.prems" obtain vs where "GBKTrans_decode cs = (True, vs)" and "us = ucast (byte_of c) # vs"
      by (cases "GBKTrans_decode cs") auto
    with "2.IH"(1) [OF True] True show ?thesis
      by (simp add: GBKTrans_encode_Cons gbk_ascii)
  next
    case False
    with "2.prems" obtain d ds vs where cs: "cs = d # ds" and "GBKTrans_decode ds = (True, vs)"
      and "us = TwocharToUint16 (byte_of c) (byte_of d) # vs"
      by (cases cs; cases "GBKTrans_decode (tl cs)") auto
    with "2.IH"(2) [OF False cs] False show ?thesis
      by (simp add: GBKTrans_encode_Cons gbk_bytes)
  qed
qed

theorem gbk_roundtrip_witness:
  "GBKTrans_encode [0x61, 0xd6d0, 0x62] = [CHR ''a'', CHR 0xD6, CHR 0xD0, CHR ''b'']"
  by (rule gbk_roundtrip) code_simp

text \<open>
  \<open>Split\<close> on a single separator loses nothing but one separator at the end of the string: joining
  the pieces with the separator gives the string back, without its last character when that is the
  separator.
\<close>

theorem split_then_join:
  assumes "length src \<le> unat npos"
  shows "Join (Split src [c]) [c] = (if src \<noteq> [] \<and> last src = c then butlast src else src)"
  using assms by (simp add: Split_pieces Join_pieces)

theorem split_then_join_witness:
  "Join (Split ''a,,b,'' '','') '','' = ''a,,b''"
  using split_then_join [of "''a,,b,''" "CHR '',''"] by (simp add: unat_npos)

text \<open>
  \<open>Join\<close> and then \<open>Split\<close> gives the fields back, when no field holds the separator and the last
  one is not empty.
\<close>

theorem join_then_split:
  assumes "ls \<noteq> []" and "\<forall>l \<in> set ls. c \<notin> set l" and "last ls \<noteq> []"
    and "length (Join ls [c]) \<le> unat npos"
  shows "Split (Join ls [c]) [c] = ls"
  using assms pieces_Join [of ls c] by (simp add: Split_pieces)

theorem join_then_split_witness:
  "Split (Join [''word'', [], ''n''] '' '') '' '' = [''word'', [], ''n'']"
  by (rule join_then_split) (simp_all add: unat_npos Join_Cons)

end
