(* ===== verification/DictTrie.thy ===== *)
theory DictTrie imports Trie StringUtil begin

text \<open>
  The dictionary of \<open>cppjieba/DictTrie.hpp\<close>: loading the dictionary files, the weights, the user
  words, and the prefix tree over all of them.

  \<^item> A failed \<open>XCHECK\<close> or \<open>assert\<close> ends the process: the operation gives \<open>Inl\<close>.
  \<^item> \<open>static_node_infos\<close> and \<open>active_node_infos\<close> are the two owners of the units, \<open>trie\<close> is the tree.
  \<^item> \<open>DictUnit node_info;\<close> leaves the weight indeterminate, for which the model has 0; such a unit has
    no word, so it never gets into the tree, and its weight is never read.
\<close>

section \<open>State\<close>

datatype UserWordWeightOption = WordWeightMin | WordWeightMedian | WordWeightMax

record DictTrie =
  static_node_infos :: "DictUnit list"
  active_node_infos :: "DictUnit list"
  trie :: TrieNode
  freq_sum :: real
  min_weight :: real
  max_weight :: real
  median_weight :: real
  user_word_default_weight :: real
  user_dict_single_chinese_word :: "Rune set"

definition DICT_COLUMN_NUM :: nat where
  "DICT_COLUMN_NUM = 3"

definition UNKNOWN_TAG :: string where
  "UNKNOWN_TAG = []"

definition new_unit :: DictUnit where
  "new_unit = \<lparr>du_word = [], du_weight = 0, du_tag = []\<rparr>"

text \<open>\<open>MakeNodeInfo\<close>: the result, and \<open>node_info\<close> afterwards. A word that does not decode leaves the
old weight and tag in place, and no word.\<close>

definition MakeNodeInfo :: "DictUnit \<Rightarrow> string \<Rightarrow> real \<Rightarrow> string \<Rightarrow> bool \<times> DictUnit" where
  "MakeNodeInfo node_info w weight tag =
     (let (ok, runes) = DecodeRunesInString_Unicode w in
      if \<not> ok then (False, node_info\<lparr>du_word := runes\<rparr>)
      else (True, node_info\<lparr>du_word := runes, du_weight := weight, du_tag := tag\<rparr>))"

section \<open>Loading\<close>

text \<open>The loop of \<open>LoadDict\<close>: one \<open>node_info\<close> serves all lines, and the result of \<open>MakeNodeInfo\<close> is
not looked at.\<close>

fun load_dict_lines :: "fpenv \<Rightarrow> DictUnit \<Rightarrow> string list \<Rightarrow> abort + DictUnit list" where
  "load_dict_lines E node_info [] = Inr []"
| "load_dict_lines E node_info (line # lines) =
     (let buf = Split line '' '' in
      if length buf \<noteq> DICT_COLUMN_NUM then Inl XCheckFailed
      else let node_info' = snd (MakeNodeInfo node_info (buf ! 0) (atof E (buf ! 1)) (buf ! 2)) in
           (case load_dict_lines E node_info' lines of
              Inl e \<Rightarrow> Inl e
            | Inr units \<Rightarrow> Inr (node_info' # units)))"

definition LoadDict :: "fpenv \<Rightarrow> filesystem \<Rightarrow> string \<Rightarrow> abort + DictUnit list" where
  "LoadDict E fs filePath =
     (case fs filePath of
        None \<Rightarrow> Inl XCheckFailed
      | Some content \<Rightarrow> load_dict_lines E new_unit (read_lines content))"

definition CalcFreqSum :: "fpenv \<Rightarrow> DictUnit list \<Rightarrow> real" where
  "CalcFreqSum E node_infos = foldl (\<lambda>sum u. fadd E sum (du_weight u)) 0 node_infos"

definition CalculateWeight :: "fpenv \<Rightarrow> DictUnit list \<Rightarrow> real \<Rightarrow> abort + DictUnit list" where
  "CalculateWeight E node_infos fsum =
     (if \<not> 0 < fsum then Inl AssertFailed
      else if list_ex (\<lambda>u. \<not> 0 < du_weight u) node_infos then Inl AssertFailed
      else Inr (map (\<lambda>u. u\<lparr>du_weight := flog E (fdiv E (du_weight u) fsum)\<rparr>) node_infos))"

text \<open>\<open>SetStaticWordWeights\<close>: only the weights of the sorted copy are read, so sorting the weights
is enough.\<close>

definition SetStaticWordWeights :: "UserWordWeightOption \<Rightarrow> DictTrie \<Rightarrow> abort + DictTrie" where
  "SetStaticWordWeights opt d =
     (if static_node_infos d = [] then Inl XCheckFailed
      else let x = sort (map du_weight (static_node_infos d));
               mn = x ! 0; mx = x ! (length x - 1); md = x ! (length x div 2)
           in Inr (d\<lparr>min_weight := mn, max_weight := mx, median_weight := md,
                     user_word_default_weight :=
                       (case opt of WordWeightMin \<Rightarrow> mn | WordWeightMedian \<Rightarrow> md
                        | WordWeightMax \<Rightarrow> mx)\<rparr>))"

text \<open>\<open>InserUserDictNode\<close>: a line of another number of columns adds an empty unit.\<close>

definition user_unit :: "fpenv \<Rightarrow> DictTrie \<Rightarrow> string \<Rightarrow> abort + DictUnit" where
  "user_unit E d line =
     (let buf = Split line '' '' in
      if length buf = 1 then
        Inr (snd (MakeNodeInfo new_unit (buf ! 0) (user_word_default_weight d) UNKNOWN_TAG))
      else if length buf = 2 then
        Inr (snd (MakeNodeInfo new_unit (buf ! 0) (user_word_default_weight d) (buf ! 1)))
      else if length buf = 3 then
        (if \<not> 0 < freq_sum d then Inl AssertFailed
         else Inr (snd (MakeNodeInfo new_unit (buf ! 0)
                (flog E (fdiv E (fmul E 1 (of_int (atoi (buf ! 1)))) (freq_sum d))) (buf ! 2))))
      else Inr new_unit)"

definition InserUserDictNode :: "fpenv \<Rightarrow> DictTrie \<Rightarrow> string \<Rightarrow> abort + DictTrie" where
  "InserUserDictNode E d line =
     (case user_unit E d line of
        Inl e \<Rightarrow> Inl e
      | Inr u \<Rightarrow> Inr (d\<lparr>static_node_infos := static_node_infos d @ [u],
                     user_dict_single_chinese_word :=
                       (if length (du_word u) = 1
                        then insert (du_word u ! 0) (user_dict_single_chinese_word d)
                        else user_dict_single_chinese_word d)\<rparr>))"

text \<open>\<open>LoadUserDict(buf)\<close> for a vector of lines.\<close>

fun LoadUserDict_lines :: "fpenv \<Rightarrow> DictTrie \<Rightarrow> string list \<Rightarrow> abort + DictTrie" where
  "LoadUserDict_lines E d [] = Inr d"
| "LoadUserDict_lines E d (line # lines) =
     (case InserUserDictNode E d line of Inl e \<Rightarrow> Inl e | Inr d' \<Rightarrow> LoadUserDict_lines E d' lines)"

text \<open>\<open>LoadUserDict(filePaths)\<close>: the paths are separated by \<open>|\<close> or \<open>;\<close>, and empty lines skipped.\<close>

fun load_user_files :: "fpenv \<Rightarrow> filesystem \<Rightarrow> DictTrie \<Rightarrow> string list \<Rightarrow> abort + DictTrie" where
  "load_user_files E fs d [] = Inr d"
| "load_user_files E fs d (file # files) =
     (case fs file of
        None \<Rightarrow> Inl XCheckFailed
      | Some content \<Rightarrow>
          (case LoadUserDict_lines E d (filter (\<lambda>l. length l \<noteq> 0) (read_lines content)) of
             Inl e \<Rightarrow> Inl e
           | Inr d' \<Rightarrow> load_user_files E fs d' files))"

definition LoadUserDict :: "fpenv \<Rightarrow> filesystem \<Rightarrow> DictTrie \<Rightarrow> string \<Rightarrow> abort + DictTrie" where
  "LoadUserDict E fs d filePaths = load_user_files E fs d (Split filePaths ''|;'')"

text \<open>\<open>DictTrie::CreateTrie\<close> over the static units.\<close>

definition create_trie :: "DictTrie \<Rightarrow> abort + DictTrie" where
  "create_trie d =
     (if static_node_infos d = [] then Inl AssertFailed
      else Inr (d\<lparr>trie := CreateTrie (map du_word (static_node_infos d)) (static_node_infos d)\<rparr>))"

text \<open>\<open>Init\<close>, which the constructor calls.\<close>

definition DictTrie_Init ::
  "fpenv \<Rightarrow> filesystem \<Rightarrow> string \<Rightarrow> string \<Rightarrow> UserWordWeightOption \<Rightarrow> abort + DictTrie" where
  "DictTrie_Init E fs dict_path user_dict_paths opt =
     (case LoadDict E fs dict_path of
        Inl e \<Rightarrow> Inl e
      | Inr units \<Rightarrow>
          (let sum = CalcFreqSum E units in
           case CalculateWeight E units sum of
             Inl e \<Rightarrow> Inl e
           | Inr units' \<Rightarrow>
               (case SetStaticWordWeights opt
                  \<lparr>static_node_infos = units', active_node_infos = [], trie = new_node,
                   freq_sum = sum, min_weight = 0, max_weight = 0, median_weight = 0,
                   user_word_default_weight = 0, user_dict_single_chinese_word = {}\<rparr> of
                  Inl e \<Rightarrow> Inl e
                | Inr d \<Rightarrow>
                    (case (if length user_dict_paths \<noteq> 0 then LoadUserDict E fs d user_dict_paths
                           else Inr d) of
                       Inl e \<Rightarrow> Inl e
                     | Inr d' \<Rightarrow> create_trie d'))))"

section \<open>User words and lookup\<close>

definition InsertUserWord :: "DictTrie \<Rightarrow> string \<Rightarrow> string \<Rightarrow> bool \<times> DictTrie" where
  "InsertUserWord d w tag =
     (let (ok, node_info) = MakeNodeInfo new_unit w (user_word_default_weight d) tag in
      if \<not> ok then (False, d)
      else (True, d\<lparr>active_node_infos := active_node_infos d @ [node_info],
                    trie := InsertNode (trie d) (du_word node_info) node_info\<rparr>))"

definition InsertUserWord_freq :: "fpenv \<Rightarrow> DictTrie \<Rightarrow> string \<Rightarrow> int \<Rightarrow> string \<Rightarrow> bool \<times> DictTrie" where
  "InsertUserWord_freq E d w freq tag =
     (let weight = (if freq \<noteq> 0 then flog E (fdiv E (fmul E 1 (of_int freq)) (freq_sum d))
                    else user_word_default_weight d);
          (ok, node_info) = MakeNodeInfo new_unit w weight tag in
      if \<not> ok then (False, d)
      else (True, d\<lparr>active_node_infos := active_node_infos d @ [node_info],
                    trie := InsertNode (trie d) (du_word node_info) node_info\<rparr>))"

definition DeleteUserWord :: "DictTrie \<Rightarrow> string \<Rightarrow> string \<Rightarrow> bool \<times> DictTrie" where
  "DeleteUserWord d w tag =
     (let (ok, node_info) = MakeNodeInfo new_unit w (user_word_default_weight d) tag in
      if \<not> ok then (False, d)
      else (True, d\<lparr>trie := DeleteNode (trie d) (du_word node_info)\<rparr>))"

text \<open>\<open>Find(begin, end)\<close> on an array of runes, and \<open>Find(word)\<close>.\<close>

definition Find_runes :: "DictTrie \<Rightarrow> RuneStr list \<Rightarrow> DictUnit option" where
  "Find_runes d rs = Find (trie d) (map rune rs)"

definition Find_word :: "DictTrie \<Rightarrow> string \<Rightarrow> bool" where
  "Find_word d w =
     (let (ok, runes) = DecodeRunesInString w in Find_runes d runes \<noteq> None)"

definition IsUserDictSingleChineseWord :: "DictTrie \<Rightarrow> Rune \<Rightarrow> bool" where
  "IsUserDictSingleChineseWord d r \<longleftrightarrow> r \<in> user_dict_single_chinese_word d"

section \<open>The invariant\<close>

text \<open>Every unit that the tree gives for a key has the key as its word.\<close>

definition dict_ok :: "DictTrie \<Rightarrow> bool" where
  "dict_ok d \<longleftrightarrow> named (trie d)"

lemma named_CreateTrie: "named (CreateTrie (map du_word us) us)"
proof -
  have z: "(k, v) \<in> set (zip (map du_word us) us) \<Longrightarrow> du_word v = k" for k v
    by (auto simp: zip_map1 in_set_zip)
  show ?thesis
    unfolding named_def CreateTrie_def
    using trie.lookup_inserts_named [where t = new_node and key_of = du_word, OF _ z]
    by (auto simp: trie.lookup_empty split: if_splits)
qed

lemma create_trie_ok: "create_trie d = Inr d' \<Longrightarrow> dict_ok d'"
  by (auto simp: create_trie_def dict_ok_def named_CreateTrie split: if_splits)

lemma dict_ok_InsertUserWord: "dict_ok d \<Longrightarrow> dict_ok (snd (InsertUserWord d w tag))"
  by (auto simp: InsertUserWord_def dict_ok_def named_InsertNode split: prod.splits)

lemma dict_ok_InsertUserWord_freq: "dict_ok d \<Longrightarrow> dict_ok (snd (InsertUserWord_freq E d w freq tag))"
  by (auto simp: InsertUserWord_freq_def Let_def dict_ok_def named_InsertNode split: prod.splits)

lemma dict_ok_DeleteUserWord: "dict_ok d \<Longrightarrow> dict_ok (snd (DeleteUserWord d w tag))"
  by (auto simp: DeleteUserWord_def dict_ok_def named_DeleteNode split: prod.splits)

lemma InserUserDictNode_frame:
  "InserUserDictNode E d line = Inr d' \<Longrightarrow>
     trie d' = trie d \<and> freq_sum d' = freq_sum d \<and> min_weight d' = min_weight d \<and>
     max_weight d' = max_weight d \<and> median_weight d' = median_weight d \<and>
     user_word_default_weight d' = user_word_default_weight d \<and>
     active_node_infos d' = active_node_infos d \<and>
     (\<exists>u. static_node_infos d' = static_node_infos d @ [u])"
  by (auto simp: InserUserDictNode_def split: sum.splits)

lemma LoadUserDict_lines_frame:
  "LoadUserDict_lines E d lines = Inr d' \<Longrightarrow>
     trie d' = trie d \<and> min_weight d' = min_weight d \<and> max_weight d' = max_weight d \<and>
     user_word_default_weight d' = user_word_default_weight d \<and>
     (\<exists>us. static_node_infos d' = static_node_infos d @ us)"
  by (induction E d lines rule: LoadUserDict_lines.induct)
     (fastforce dest: InserUserDictNode_frame split: sum.splits)+

lemma load_user_files_frame:
  "load_user_files E fs d files = Inr d' \<Longrightarrow>
     trie d' = trie d \<and> min_weight d' = min_weight d \<and> max_weight d' = max_weight d \<and>
     user_word_default_weight d' = user_word_default_weight d \<and>
     (\<exists>us. static_node_infos d' = static_node_infos d @ us)"
  by (induction E fs d files rule: load_user_files.induct)
     (fastforce dest: LoadUserDict_lines_frame split: sum.splits option.splits)+

lemma LoadUserDict_frame:
  "LoadUserDict E fs d paths = Inr d' \<Longrightarrow>
     trie d' = trie d \<and> min_weight d' = min_weight d \<and> max_weight d' = max_weight d \<and>
     user_word_default_weight d' = user_word_default_weight d \<and>
     (\<exists>us. static_node_infos d' = static_node_infos d @ us)"
  unfolding LoadUserDict_def by (rule load_user_files_frame)

lemma DictTrie_Init_cases:
  assumes "DictTrie_Init E fs p u opt = Inr d"
  obtains units units' d1 d2 where
    "LoadDict E fs p = Inr units" and "CalculateWeight E units (CalcFreqSum E units) = Inr units'"
    and "SetStaticWordWeights opt
            \<lparr>static_node_infos = units', active_node_infos = [], trie = new_node,
             freq_sum = CalcFreqSum E units, min_weight = 0, max_weight = 0, median_weight = 0,
             user_word_default_weight = 0, user_dict_single_chinese_word = {}\<rparr> = Inr d1"
    and "(if length u \<noteq> 0 then LoadUserDict E fs d1 u else Inr d1) = Inr d2"
    and "create_trie d2 = Inr d"
  using assms unfolding DictTrie_Init_def Let_def
  by (auto split: sum.splits)

section \<open>Properties\<close>

text \<open>A small file system for the concrete runs: a dictionary and a user dictionary.\<close>

definition sample_fs :: filesystem where
  "sample_fs = [''dict'' \<mapsto> ''ab 3 n'' @ [NL] @ ''a 1 v'' @ [NL] @ ''b 2 n'', ''user'' \<mapsto> ''abc x'']"

text \<open>
  C23: A dictionary that the constructor has built finds, for every non-empty key, the last unit with
  that word among the units it has loaded, user words included; every unit it finds is named by
  its key.
\<close>

theorem dict_init_finds:
  assumes "DictTrie_Init E fs dict_path user_paths opt = Inr d"
  shows "dict_ok d \<and> static_node_infos d \<noteq> [] \<and>
     Find (trie d) key = (if key = [] then None
       else map_of (rev (map (\<lambda>u. (du_word u, u)) (static_node_infos d))) key)"
  using assms
proof (cases rule: DictTrie_Init_cases)
  case (1 units units' d1 d2)
  then have d: "d = d2\<lparr>trie := CreateTrie (map du_word (static_node_infos d2)) (static_node_infos d2)\<rparr>"
    and ne: "static_node_infos d2 \<noteq> []"
    by (auto simp: create_trie_def split: if_splits)
  have "zip (map du_word us) us = map (\<lambda>u. (du_word u, u)) us" for us :: "DictUnit list"
    by (simp add: zip_map1 zip_same_conv_map)
  with ne show ?thesis
    using create_trie_ok [OF 1(5)]
    by (auto simp: d CreateTrie_def trie.lookup_inserts trie.lookup_empty split: option.splits)
qed

theorem dict_init_finds_witness:
  "\<exists>d. DictTrie_Init sample_env sample_fs ''dict'' ''user'' WordWeightMedian = Inr d \<and> dict_ok d"
proof -
  have "\<not> isl (DictTrie_Init sample_env sample_fs ''dict'' ''user'' WordWeightMedian)"
    by code_simp
  then obtain d where d: "DictTrie_Init sample_env sample_fs ''dict'' ''user'' WordWeightMedian = Inr d"
    by (cases "DictTrie_Init sample_env sample_fs ''dict'' ''user'' WordWeightMedian") auto
  from dict_init_finds [OF d] d show ?thesis by blast
qed

lemma sorted_nth_bounds:
  assumes "sorted xs" and "x \<in> set xs"
  shows "xs ! 0 \<le> x" and "x \<le> xs ! (length xs - 1)"
proof -
  obtain i where "i < length xs" and "x = xs ! i"
    using assms(2) by (metis in_set_conv_nth)
  with assms(1) show "xs ! 0 \<le> x" and "x \<le> xs ! (length xs - 1)"
    by (auto simp: sorted_iff_nth_mono)
qed

text \<open>
  The weights of the dictionary: after \<open>SetStaticWordWeights\<close> every unit lies between the minimal
  and the maximal weight, so does the median, and the weight given to user words is one of the
  three by the option.
\<close>

theorem dict_weights:
  assumes "SetStaticWordWeights opt d = Inr d'"
  shows "(\<forall>u \<in> set (static_node_infos d). min_weight d' \<le> du_weight u \<and> du_weight u \<le> max_weight d') \<and>
     min_weight d' \<le> median_weight d' \<and> median_weight d' \<le> max_weight d' \<and>
     user_word_default_weight d' = (case opt of WordWeightMin \<Rightarrow> min_weight d'
       | WordWeightMedian \<Rightarrow> median_weight d' | WordWeightMax \<Rightarrow> max_weight d') \<and>
     min_weight d' \<in> du_weight ` set (static_node_infos d)"
proof -
  let ?x = "sort (map du_weight (static_node_infos d))"
  from assms have ne: "static_node_infos d \<noteq> []"
    and m: "min_weight d' = ?x ! 0" "max_weight d' = ?x ! (length ?x - 1)"
      "median_weight d' = ?x ! (length ?x div 2)"
    and u: "user_word_default_weight d' = (case opt of WordWeightMin \<Rightarrow> min_weight d'
       | WordWeightMedian \<Rightarrow> median_weight d' | WordWeightMax \<Rightarrow> max_weight d')"
    by (auto simp: SetStaticWordWeights_def Let_def split: if_splits UserWordWeightOption.splits)
  have b: "?x ! 0 \<le> w" "w \<le> ?x ! (length ?x - 1)" if "w \<in> set ?x" for w
    using that sorted_nth_bounds [of ?x w] by simp_all
  have "length ?x div 2 < length ?x" and "0 < length ?x" using ne by (auto intro: div_less_dividend)
  then have "?x ! (length ?x div 2) \<in> set ?x" and "?x ! 0 \<in> set ?x"
    by (metis nth_mem)+
  with b u m show ?thesis by auto
qed

theorem dict_weights_witness:
  "let d = \<lparr>static_node_infos = [\<lparr>du_word = [1], du_weight = 5, du_tag = []\<rparr>, \<lparr>du_word = [2], du_weight = 3, du_tag = []\<rparr>],
      active_node_infos = [], trie = new_node, freq_sum = 8, min_weight = 0, max_weight = 0,
      median_weight = 0, user_word_default_weight = 0, user_dict_single_chinese_word = {}\<rparr>
   in \<exists>d'. SetStaticWordWeights WordWeightMin d = Inr d' \<and> min_weight d' \<le> max_weight d'"
  (is "let d = ?d in ?P d")
proof -
  have "\<not> isl (SetStaticWordWeights WordWeightMin ?d)"
    by (simp add: SetStaticWordWeights_def Let_def)
  then obtain d' where d': "SetStaticWordWeights WordWeightMin ?d = Inr d'"
    by (cases "SetStaticWordWeights WordWeightMin ?d") auto
  from dict_weights [OF d'] have "min_weight d' \<le> max_weight d'" by linarith
  with d' show ?thesis unfolding Let_def by blast
qed

lemma Find_word_runes:
  "DecodeRunesInString w = (True, rs) \<Longrightarrow> Find_word d w \<longleftrightarrow> Find (trie d) (map rune rs) \<noteq> None"
  by (simp add: Find_word_def Find_runes_def)

lemma Find_word_no_decode: "\<not> fst (DecodeRunesInString w) \<Longrightarrow> \<not> Find_word d w"
  using DecodeRunesInString_failed [of w]
  by (cases "DecodeRunesInString w") (auto simp: Find_word_def Find_runes_def Find_def)

text \<open>
  \<open>InsertUserWord\<close> accepts exactly the words that decode; after it a non-empty word is found, and
  every word that decodes to other runes is found exactly when it was before.
\<close>

theorem insert_user_word_found:
  "fst (InsertUserWord d w tag) = fst (DecodeRunesInString w) \<and>
   Find_word (snd (InsertUserWord d w tag)) w' =
     (if fst (DecodeRunesInString w) \<and> w \<noteq> [] \<and> fst (DecodeRunesInString w') \<and>
         map rune (snd (DecodeRunesInString w')) = map rune (snd (DecodeRunesInString w))
      then True else Find_word d w')"
proof (cases "DecodeRunesInString w")
  case (Pair ok rs)
  obtain ok' rs' where w': "DecodeRunesInString w' = (ok', rs')" by (cases "DecodeRunesInString w'")
  show ?thesis
  proof (cases ok)
    case False
    with Pair show ?thesis
      by (simp add: InsertUserWord_def MakeNodeInfo_def DecodeRunesInString_Unicode_def)
  next
    case True
    define u where "u = \<lparr>du_word = map rune rs, du_weight = user_word_default_weight d, du_tag = tag\<rparr>"
    from Pair True have i: "InsertUserWord d w tag =
        (True, d\<lparr>active_node_infos := active_node_infos d @ [u], trie := InsertNode (trie d) (map rune rs) u\<rparr>)"
      by (simp add: InsertUserWord_def MakeNodeInfo_def DecodeRunesInString_Unicode_def u_def new_unit_def)
    have e: "rs = [] \<longleftrightarrow> w = []"
      using Pair True DecodeRunesInString_tiles [of w rs] runes_tile_nonempty by auto
    show ?thesis
    proof (cases ok')
      case False
      with w' True Pair i show ?thesis
        using Find_word_no_decode [of w'] by simp
    next
      case ok': True
      with w' have "Find_word d'' w' \<longleftrightarrow> Find (trie d'') (map rune rs') \<noteq> None" for d''
        by (simp add: Find_word_runes)
      with True ok' w' Pair i e show ?thesis
        by (cases "rs = []") (simp_all add: trie.lookup_insert trie.insert_Nil)
    qed
  qed
qed

text \<open>
  \<open>LoadUserDict\<close> on a dictionary that is already built adds units to the static list but does not
  touch the tree: no word it loads is found afterwards that was not found before. (Worse, the tree
  points into the vector that grows; the values of the model are those of a vector with room to grow.)
\<close>

theorem late_user_dict_not_found:
  assumes "LoadUserDict E fs d paths = Inr d'"
  shows "Find_word d' w = Find_word d w \<and>
    (\<exists>us. static_node_infos d' = static_node_infos d @ us)"
  using LoadUserDict_frame [OF assms] by (simp add: Find_word_def Find_runes_def)

theorem late_user_dict_not_found_witness:
  "let d = \<lparr>static_node_infos = [], active_node_infos = [], trie = new_node, freq_sum = 1,
      min_weight = 0, max_weight = 0, median_weight = 0, user_word_default_weight = 0,
      user_dict_single_chinese_word = {}\<rparr>
   in \<exists>d'. LoadUserDict sample_env sample_fs d ''user'' = Inr d' \<and>
        length (static_node_infos d') = 1 \<and> \<not> Find_word d' ''abc''"
  (is "let d = ?d in ?P d")
proof -
  have c: "\<not> isl (LoadUserDict sample_env sample_fs ?d ''user'')"
    "length (static_node_infos (projr (LoadUserDict sample_env sample_fs ?d ''user''))) = 1"
    "\<not> Find_word ?d ''abc''"
    by code_simp+
  then obtain d' where d': "LoadUserDict sample_env sample_fs ?d ''user'' = Inr d'"
    by (cases "LoadUserDict sample_env sample_fs ?d ''user''") auto
  with c late_user_dict_not_found [OF d', of "''abc''"] show ?thesis
    unfolding Let_def by (intro exI [of _ d']) simp
qed

end
