(* ===== verification/MPSegment.thy ===== *)
theory MPSegment imports DictTrie begin

text \<open>
  Maximum probability segmentation, \<open>cppjieba/MPSegment.hpp\<close>: the graph of dictionary words, the
  dynamic program \<open>CalcDP\<close> over it from right to left, and \<open>CutByDag\<close>, which follows its choices.

  The result tiles the range it was given (the interpretation \<open>mp\<close> of \<open>range_segmenter\<close>), and no
  other way to cut the range into words has a larger weight, for every monotone rounding of the
  machine's additions.
\<close>

section \<open>Dynamic programming\<close>

text \<open>\<open>val\<close> for one successor \<open>nextPos\<close> with the unit \<open>p\<close>.\<close>

definition dag_val :: "fpenv \<Rightarrow> real \<Rightarrow> Dag list \<Rightarrow> nat \<Rightarrow> DictUnit option \<Rightarrow> real" where
  "dag_val E minw dags nextPos p =
     (let v = (if nextPos + 1 < length dags then fadd E 0 (dag_weight (dags ! (nextPos + 1))) else 0)
      in (case p of Some u \<Rightarrow> fadd E v (du_weight u) | None \<Rightarrow> fadd E v minw))"

text \<open>The loop over the successors of one position, with the best choice so far.\<close>

fun relax :: "fpenv \<Rightarrow> real \<Rightarrow> Dag list \<Rightarrow> (nat \<times> DictUnit option) list \<Rightarrow> DictUnit option \<times> real \<Rightarrow>
    DictUnit option \<times> real" where
  "relax E minw dags [] best = best"
| "relax E minw dags ((nextPos, p) # ns) best =
     relax E minw dags ns
       (if snd best < dag_val E minw dags nextPos p then (p, dag_val E minw dags nextPos p) else best)"

definition dp_step :: "fpenv \<Rightarrow> real \<Rightarrow> nat \<Rightarrow> Dag list \<Rightarrow> Dag list" where
  "dp_step E minw i dags =
     (let (p, w) = relax E minw dags (nexts (dags ! i)) (None, MIN_DOUBLE)
      in dags[i := (dags ! i)\<lparr>pInfo := p, dag_weight := w\<rparr>])"

definition CalcDP :: "fpenv \<Rightarrow> real \<Rightarrow> Dag list \<Rightarrow> Dag list" where
  "CalcDP E minw dags = fold (dp_step E minw) (rev [0..<length dags]) dags"

text \<open>
  \<open>CutByDag\<close> from position \<open>i\<close> on, relative to \<open>begin\<close>. The code asserts that a chosen word is not
  empty; the model gives up there, and the tiling below shows that this does not happen.
\<close>

function cut_by_dag :: "Dag list \<Rightarrow> nat \<Rightarrow> WordRange list" where
  "cut_by_dag dags i =
     (if i < length dags then
        (case pInfo (dags ! i) of
           Some p \<Rightarrow>
             (if length (du_word p) \<ge> 1 then
                \<lparr>left = i, right = i + length (du_word p) - 1\<rparr> #
                cut_by_dag dags (i + length (du_word p))
              else [])
         | None \<Rightarrow> \<lparr>left = i, right = i\<rparr> # cut_by_dag dags (Suc i))
      else [])"
  by pat_completeness auto
termination
  by (relation "measure (\<lambda>(dags, i). length dags - i)") auto

declare cut_by_dag.simps [simp del]

definition CutByDag :: "nat \<Rightarrow> Dag list \<Rightarrow> WordRange list" where
  "CutByDag b dags =
     map (\<lambda>w. \<lparr>left = b + left w, right = b + right w\<rparr>) (cut_by_dag dags 0)"

text \<open>\<open>Cut(begin, end, words, max_word_len)\<close>.\<close>

definition MPSegment_Cut_max :: "fpenv \<Rightarrow> DictTrie \<Rightarrow> nat \<Rightarrow> RuneStr list \<Rightarrow> nat \<Rightarrow> nat \<Rightarrow> WordRange list" where
  "MPSegment_Cut_max E d max_word_len rs b e =
     CutByDag b (CalcDP E (min_weight d) (Find_dags (trie d) (slice rs b e) max_word_len))"

definition MPSegment_Cut :: "fpenv \<Rightarrow> DictTrie \<Rightarrow> RuneStr list \<Rightarrow> nat \<Rightarrow> nat \<Rightarrow> WordRange list" where
  "MPSegment_Cut E d = MPSegment_Cut_max E d MAX_WORD_LENGTH"

text \<open>\<open>Cut(sentence, words, max_word_len)\<close>, which \<open>Jieba::CutSmall\<close> calls.\<close>

definition MPSegment_Cut_sentence :: "fpenv \<Rightarrow> DictTrie \<Rightarrow> Rune set \<Rightarrow> string \<Rightarrow> nat \<Rightarrow> string list" where
  "MPSegment_Cut_sentence E d syms sentence max_word_len =
     Cut_strings (MPSegment_Cut_max E d max_word_len) syms sentence"

section \<open>What the dynamic program computes\<close>

lemma length_dp_step [simp]: "length (dp_step E minw i dags) = length dags"
  by (simp add: dp_step_def split: prod.splits)

lemma nexts_dp_step [simp]: "nexts (dp_step E minw i dags ! j) = nexts (dags ! j)"
  by (cases "i < length dags") (auto simp: dp_step_def nth_list_update list_update_beyond split: prod.splits)

lemma relax_cong:
  assumes "\<And>j p. (j, p) \<in> set ns \<Longrightarrow> dag_val E minw dags j p = dag_val E minw dags' j p"
  shows "relax E minw dags ns best = relax E minw dags' ns best"
  using assms by (induction E minw dags ns best rule: relax.induct) auto

text \<open>The graphs that the program works on: successors are not before their position.\<close>

definition forward_dags :: "Dag list \<Rightarrow> bool" where
  "forward_dags dags \<longleftrightarrow>
     (\<forall>i < length dags. nexts (dags ! i) \<noteq> [] \<and>
        (\<forall>(j, p) \<in> set (nexts (dags ! i)). i \<le> j \<and> j < length dags))"

text \<open>Every position from \<open>k\<close> on holds the best choice over its successors.\<close>

definition solved :: "fpenv \<Rightarrow> real \<Rightarrow> nat \<Rightarrow> Dag list \<Rightarrow> bool" where
  "solved E minw k dags \<longleftrightarrow>
     (\<forall>i. k \<le> i \<longrightarrow> i < length dags \<longrightarrow>
        (pInfo (dags ! i), dag_weight (dags ! i)) =
          relax E minw dags (nexts (dags ! i)) (None, MIN_DOUBLE))"

lemma dp_step_solved:
  assumes f: "forward_dags dags" and k: "Suc k \<le> length dags" and s: "solved E minw (Suc k) dags"
  shows "solved E minw k (dp_step E minw k dags)"
proof -
  let ?d = "dp_step E minw k dags"
  have w: "dag_weight (?d ! j) = dag_weight (dags ! j)" if "j \<noteq> k" for j
    using that by (auto simp: dp_step_def nth_list_update split: prod.splits)
  have r: "relax E minw ?d (nexts (dags ! i)) best = relax E minw dags (nexts (dags ! i)) best"
    if "k \<le> i" "i < length dags" for i best
  proof (rule relax_cong)
    fix j p assume "(j, p) \<in> set (nexts (dags ! i))"
    with f that have "i \<le> j" by (auto simp: forward_dags_def)
    with that show "dag_val E minw ?d j p = dag_val E minw dags j p"
      by (simp add: dag_val_def w)
  qed
  show ?thesis
    unfolding solved_def
  proof (intro allI impI)
    fix i assume i: "k \<le> i" "i < length ?d"
    show "(pInfo (?d ! i), dag_weight (?d ! i)) = relax E minw ?d (nexts (?d ! i)) (None, MIN_DOUBLE)"
    proof (cases "i = k")
      case True
      with i r [of k] show ?thesis
        by (auto simp: dp_step_def split: prod.splits)
    next
      case False
      then have "?d ! i = dags ! i"
        by (auto simp: dp_step_def split: prod.splits)
      with s i False r [of i] show ?thesis by (simp add: solved_def)
    qed
  qed
qed

lemma forward_dp_step: "forward_dags dags \<Longrightarrow> forward_dags (dp_step E minw k dags)"
  by (simp add: forward_dags_def)

lemma dp_steps_solved:
  assumes "forward_dags dags"
  shows "k \<le> length dags \<Longrightarrow>
    (let d = fold (dp_step E minw) (rev [k..<length dags]) dags
     in length d = length dags \<and> (\<forall>i. nexts (d ! i) = nexts (dags ! i)) \<and> solved E minw k d)"
proof (induction "length dags - k" arbitrary: k)
  case 0
  then show ?case by (simp add: solved_def)
next
  case (Suc n)
  let ?d = "fold (dp_step E minw) (rev [Suc k..<length dags]) dags"
  have "length ?d = length dags \<and> (\<forall>i. nexts (?d ! i) = nexts (dags ! i)) \<and> solved E minw (Suc k) ?d"
    using Suc.hyps(1) [of "Suc k"] Suc.hyps(2) unfolding Let_def by simp
  moreover from this have "forward_dags ?d"
    using assms by (simp add: forward_dags_def)
  ultimately show ?case
    using dp_step_solved [of ?d k E minw] Suc.hyps(2) by (simp add: upt_conv_Cons Let_def)
qed

lemma CalcDP_solved:
  assumes "forward_dags dags"
  shows "length (CalcDP E minw dags) = length dags"
    and "nexts (CalcDP E minw dags ! i) = nexts (dags ! i)"
    and "solved E minw 0 (CalcDP E minw dags)"
  using dp_steps_solved [OF assms, of 0 E minw] by (simp_all add: CalcDP_def Let_def)

lemma relax_upper: "snd best \<le> snd (relax E minw dags ns best)"
  by (induction E minw dags ns best rule: relax.induct) (auto intro: order_trans less_imp_le)

lemma relax_ge: "(j, p) \<in> set ns \<Longrightarrow> dag_val E minw dags j p \<le> snd (relax E minw dags ns best)"
proof (induction E minw dags ns best rule: relax.induct)
  case (2 E minw dags nextPos p' ns best)
  let ?b = "if snd best < dag_val E minw dags nextPos p' then (p', dag_val E minw dags nextPos p') else best"
  show ?case
  proof (cases "(j, p) \<in> set ns")
    case True
    with "2.IH" show ?thesis by simp
  next
    case False
    with "2.prems" have jp: "j = nextPos" "p = p'" by auto
    have "dag_val E minw dags j p \<le> snd ?b" by (simp add: jp)
    also have "\<dots> \<le> snd (relax E minw dags ns ?b)" by (rule relax_upper)
    finally show ?thesis by simp
  qed
qed simp

lemma relax_attained:
  "relax E minw dags ns best = best \<or>
   (\<exists>(j, p) \<in> set ns. relax E minw dags ns best = (p, dag_val E minw dags j p))"
proof (induction E minw dags ns best rule: relax.induct)
  case (2 E minw dags nextPos p ns best)
  then show ?case by (cases "snd best < dag_val E minw dags nextPos p") fastforce+
qed simp

section \<open>The graphs of a dictionary\<close>

lemma forward_Find_dags: "forward_dags (Find_dags t xs m)"
proof -
  have "nexts (Find_dags t xs m ! i) \<noteq> []" if "i < length xs" for i
    using that by (simp add: Find_dags_def find_dag_def Let_def)
  then show ?thesis
    by (auto simp: forward_dags_def nexts_Find_dags)
qed

text \<open>A unit on an edge has as many runes as the edge is long; without a unit it is one rune.\<close>

definition spelled :: "Dag list \<Rightarrow> bool" where
  "spelled dags \<longleftrightarrow> (\<forall>i < length dags. \<forall>(j, p) \<in> set (nexts (dags ! i)).
     (case p of None \<Rightarrow> 1 | Some u \<Rightarrow> length (du_word u)) = Suc j - i)"

lemma spelled_Find_dags:
  assumes "named t"
  shows "spelled (Find_dags t xs m)"
proof -
  have "(case p of None \<Rightarrow> 1 | Some u \<Rightarrow> length (du_word u)) = Suc j - i"
    if "i < length xs" "(j, p) \<in> set (nexts (Find_dags t xs m ! i))" for i j p
  proof (cases p)
    case None
    with that show ?thesis by (auto simp: nexts_Find_dags)
  next
    case (Some u)
    with that have "j = i \<and> Find t [rune (xs ! i)] = Some u \<or>
        i < j \<and> j < length xs \<and> Find t (map rune (slice xs i (Suc j))) = Some u"
      by (auto simp: nexts_Find_dags)
    with assms that Some show ?thesis
      by (auto simp: named_def)
  qed
  then show ?thesis by (fastforce simp: spelled_def)
qed

lemma forward_dagsD:
  "forward_dags dags \<Longrightarrow> i < length dags \<Longrightarrow> (j, p) \<in> set (nexts (dags ! i)) \<Longrightarrow> i \<le> j"
  "forward_dags dags \<Longrightarrow> i < length dags \<Longrightarrow> (j, p) \<in> set (nexts (dags ! i)) \<Longrightarrow> j < length dags"
  by (auto simp: forward_dags_def)

lemma spelledD:
  "spelled dags \<Longrightarrow> i < length dags \<Longrightarrow> (j, p) \<in> set (nexts (dags ! i)) \<Longrightarrow>
     (case p of None \<Rightarrow> 1 | Some u \<Rightarrow> length (du_word u)) = Suc j - i"
  by (fastforce simp: spelled_def)

text \<open>Every choice of the program is an edge, or none at all.\<close>

lemma CalcDP_choice:
  assumes f: "forward_dags dags" and i: "i < length dags"
  shows "pInfo (CalcDP E minw dags ! i) = None \<or>
    (\<exists>j. (j, pInfo (CalcDP E minw dags ! i)) \<in> set (nexts (dags ! i)))"
proof -
  let ?d = "CalcDP E minw dags"
  have "(pInfo (?d ! i), dag_weight (?d ! i)) = relax E minw ?d (nexts (dags ! i)) (None, MIN_DOUBLE)"
    using CalcDP_solved [OF f, of E minw] i by (simp add: solved_def)
  with relax_attained [of E minw ?d "nexts (dags ! i)" "(None, MIN_DOUBLE)"] show ?thesis
    by auto
qed

lemma cut_by_dag_tiles:
  assumes f: "forward_dags dags" and s: "spelled dags"
  shows "i \<le> length dags \<Longrightarrow> tiles i (length dags) (cut_by_dag (CalcDP E minw dags) i)"
proof (induction "length dags - i" arbitrary: i rule: less_induct)
  case less
  let ?d = "CalcDP E minw dags"
  note len = CalcDP_solved(1) [OF f, of E minw]
  show ?case
  proof (cases "i < length dags")
    case False
    with less.prems len show ?thesis by (simp add: cut_by_dag.simps)
  next
    case i: True
    show ?thesis
    proof (cases "pInfo (?d ! i)")
      case None
      have "tiles (Suc i) (length dags) (cut_by_dag ?d (Suc i))"
        by (rule less.hyps) (use i in auto)
      with None i len show ?thesis by (subst cut_by_dag.simps) simp
    next
      case (Some u)
      with CalcDP_choice [OF f i, of E minw] obtain j where j: "(j, Some u) \<in> set (nexts (dags ! i))"
        by auto
      note b = forward_dagsD [OF f i j]
      have l: "length (du_word u) = Suc j - i" using spelledD [OF s i j] by simp
      with b have n: "i + length (du_word u) = Suc j" by simp
      have "tiles (Suc j) (length dags) (cut_by_dag ?d (Suc j))"
        by (rule less.hyps) (use b in auto)
      with Some b l n i len show ?thesis by (subst cut_by_dag.simps) simp
    qed
  qed
qed

lemma MPSegment_Cut_max_tiles:
  assumes "dict_ok d" and "b < e" and "e \<le> length rs"
  shows "tiles b e (MPSegment_Cut_max E d m rs b e)"
proof -
  let ?g = "Find_dags (trie d) (slice rs b e) m"
  have "tiles 0 (length ?g) (cut_by_dag (CalcDP E (min_weight d) ?g) 0)"
    using assms by (intro cut_by_dag_tiles forward_Find_dags spelled_Find_dags) (simp_all add: dict_ok_def)
  from tiles_shift [OF this, of b] assms show ?thesis
    by (simp add: MPSegment_Cut_max_def CutByDag_def)
qed

interpretation mp: range_segmenter "\<lambda>(E, d, m). MPSegment_Cut_max E d m" "\<lambda>(E, d, m). dict_ok d"
  by unfold_locales (auto intro: MPSegment_Cut_max_tiles)

section \<open>Optimality\<close>

text \<open>
  A way through the graph from position \<open>i\<close> to the end: each step \<open>(j, p)\<close> takes the runes up to
  \<open>j\<close> as one word with the unit \<open>p\<close>. Its weight adds up as \<open>CalcDP\<close> adds, from the right.
\<close>

fun route :: "Dag list \<Rightarrow> nat \<Rightarrow> (nat \<times> DictUnit option) list \<Rightarrow> bool" where
  "route dags i [] \<longleftrightarrow> i = length dags"
| "route dags i ((j, p) # st) \<longleftrightarrow>
     i < length dags \<and> (j, p) \<in> set (nexts (dags ! i)) \<and> route dags (Suc j) st"

fun route_weight :: "fpenv \<Rightarrow> real \<Rightarrow> (nat \<times> DictUnit option) list \<Rightarrow> real" where
  "route_weight E minw [] = 0"
| "route_weight E minw ((j, p) # st) =
     fadd E (if st = [] then 0 else fadd E 0 (route_weight E minw st))
       (case p of Some u \<Rightarrow> du_weight u | None \<Rightarrow> minw)"

fun route_ranges :: "nat \<Rightarrow> (nat \<times> DictUnit option) list \<Rightarrow> WordRange list" where
  "route_ranges i [] = []"
| "route_ranges i ((j, p) # st) = \<lparr>left = i, right = j\<rparr> # route_ranges (Suc j) st"

lemma route_empty: "route dags i st \<Longrightarrow> st = [] \<longleftrightarrow> i = length dags"
  by (cases st) auto

lemma dag_val_alt: "dag_val E minw dags j p =
    fadd E (if j + 1 < length dags then fadd E 0 (dag_weight (dags ! (j + 1))) else 0)
      (case p of Some u \<Rightarrow> du_weight u | None \<Rightarrow> minw)"
  by (simp add: dag_val_def Let_def split: option.split)

lemma route_weight_le:
  assumes "mono (rnd E)" and f: "forward_dags dags"
  shows "route dags i st \<Longrightarrow> st \<noteq> [] \<Longrightarrow>
    route_weight E minw st \<le> dag_weight (CalcDP E minw dags ! i)"
proof (induction st arbitrary: i)
  case (Cons s st)
  let ?d = "CalcDP E minw dags"
  obtain j p where s: "s = (j, p)" by (cases s)
  from Cons.prems s have i: "i < length dags" and e: "(j, p) \<in> set (nexts (dags ! i))"
    and r: "route dags (Suc j) st" by auto
  note len = CalcDP_solved(1) [OF f, of E minw]
  have w: "dag_weight (?d ! i) = snd (relax E minw ?d (nexts (dags ! i)) (None, MIN_DOUBLE))"
    using CalcDP_solved [OF f, of E minw] i by (simp add: solved_def) (metis snd_conv)
  have "route_weight E minw (s # st) \<le> dag_val E minw ?d j p"
  proof (cases "st = []")
    case True
    with r have "Suc j = length dags" by simp
    with True len show ?thesis by (simp add: s dag_val_alt)
  next
    case False
    with r route_empty [OF r] forward_dagsD(2) [OF f i e] have "Suc j < length dags" by auto
    with False Cons.IH [OF r False] len show ?thesis
      by (auto simp: s dag_val_alt intro!: fadd_mono [OF assms(1)])
  qed
  also have "\<dots> \<le> dag_weight (?d ! i)"
    unfolding w by (rule relax_ge [OF e])
  finally show ?case .
qed simp

lemma chosen_route:
  assumes f: "forward_dags dags" and s: "spelled dags"
    and m: "\<And>i. i < length dags \<Longrightarrow> MIN_DOUBLE < dag_weight (CalcDP E minw dags ! i)"
  shows "i \<le> length dags \<Longrightarrow> \<exists>st. route dags i st \<and>
      cut_by_dag (CalcDP E minw dags) i = route_ranges i st \<and>
      (st \<noteq> [] \<longrightarrow> route_weight E minw st = dag_weight (CalcDP E minw dags ! i))"
proof (induction "length dags - i" arbitrary: i rule: less_induct)
  case less
  let ?d = "CalcDP E minw dags"
  note len = CalcDP_solved(1) [OF f, of E minw]
  show ?case
  proof (cases "i < length dags")
    case False
    with less.prems len show ?thesis by (intro exI [of _ "[]"]) (simp add: cut_by_dag.simps)
  next
    case i: True
    have "(pInfo (?d ! i), dag_weight (?d ! i)) = relax E minw ?d (nexts (dags ! i)) (None, MIN_DOUBLE)"
      using CalcDP_solved [OF f, of E minw] i by (simp add: solved_def)
    with relax_attained [of E minw ?d "nexts (dags ! i)" "(None, MIN_DOUBLE)"] m [OF i]
    obtain j where j: "(j, pInfo (?d ! i)) \<in> set (nexts (dags ! i))"
      and w: "dag_weight (?d ! i) = dag_val E minw ?d j (pInfo (?d ! i))"
      by auto
    note b = forward_dagsD [OF f i j]
    have lt: "length dags - Suc j < length dags - i" and le: "Suc j \<le> length dags"
      using b i by linarith+
    obtain st where st: "route dags (Suc j) st" "cut_by_dag ?d (Suc j) = route_ranges (Suc j) st"
      "st \<noteq> [] \<longrightarrow> route_weight E minw st = dag_weight (?d ! Suc j)"
      using less.hyps [OF lt le] by blast
    have c: "cut_by_dag ?d i = \<lparr>left = i, right = j\<rparr> # cut_by_dag ?d (Suc j)"
    proof (cases "pInfo (?d ! i)")
      case None
      with spelledD [OF s i j] b have "j = i" by simp
      with None i len cut_by_dag.simps [of ?d i] show ?thesis by simp
    next
      case (Some u)
      with spelledD [OF s i j] b have "i + length (du_word u) = Suc j" by simp
      moreover from this b(1) have "Suc 0 \<le> length (du_word u)" by linarith
      ultimately show ?thesis using Some i len cut_by_dag.simps [of ?d i] by simp
    qed
    have "route_weight E minw ((j, pInfo (?d ! i)) # st) = dag_weight (?d ! i)"
      using st(3) route_empty [OF st(1)] b len w by (auto simp: dag_val_alt)
    with c st i j show ?thesis
      by (intro exI [of _ "(j, pInfo (?d ! i)) # st"]) simp
  qed
qed

text \<open>
  C17: Maximum probability segmentation finds an optimal way to cut a range of runes into dictionary
  words and single runes: the ranges it gives are a route through the word graph, and no other
  route has a larger weight. The machine's rounding only has to be monotone; the bound says that
  no partial sum has fallen to the initial value \<open>MIN_DOUBLE\<close>.
\<close>

theorem mp_segmentation_optimal:
  fixes E d m rs b e
  defines "G \<equiv> Find_dags (trie d) (slice rs b e) m"
  assumes "mono (rnd E)" and "dict_ok d" and "b < e" and "e \<le> length rs"
    and "\<forall>i < e - b. MIN_DOUBLE < dag_weight (CalcDP E (min_weight d) G ! i)"
  shows "\<exists>st. route G 0 st \<and>
     MPSegment_Cut_max E d m rs b e =
       map (\<lambda>w. \<lparr>left = b + left w, right = b + right w\<rparr>) (route_ranges 0 st) \<and>
     (\<forall>st'. route G 0 st' \<longrightarrow>
        route_weight E (min_weight d) st' \<le> route_weight E (min_weight d) st)"
proof -
  have f: "forward_dags G" and s: "spelled G" and l: "length G = e - b"
    using assms(3,4,5) by (auto simp: G_def forward_Find_dags spelled_Find_dags dict_ok_def)
  obtain st where st: "route G 0 st" "cut_by_dag (CalcDP E (min_weight d) G) 0 = route_ranges 0 st"
    "st \<noteq> [] \<longrightarrow> route_weight E (min_weight d) st = dag_weight (CalcDP E (min_weight d) G ! 0)"
    using chosen_route [OF f s, of E "min_weight d" 0] assms(6) l by auto
  have "route_weight E (min_weight d) st' \<le> route_weight E (min_weight d) st" if "route G 0 st'" for st'
    using route_weight_le [OF assms(2) f that, of "min_weight d"] st route_empty [OF that]
      route_empty [OF st(1)] l assms(4) by auto
  with st(1,2) show ?thesis
    by (intro exI [of _ st]) (simp add: MPSegment_Cut_max_def CutByDag_def G_def)
qed

text \<open>A small dictionary for the concrete runs: \<open>ab\<close>, \<open>a\<close>, \<open>b\<close> and \<open>abc\<close>.\<close>

definition sample_units :: "DictUnit list" where
  "sample_units =
     [\<lparr>du_word = [0x61, 0x62], du_weight = -1, du_tag = ''n''\<rparr>, \<lparr>du_word = [0x61], du_weight = -3, du_tag = ''v''\<rparr>,
      \<lparr>du_word = [0x62], du_weight = -2, du_tag = ''n''\<rparr>, \<lparr>du_word = [0x61, 0x62, 0x63], du_weight = -2, du_tag = []\<rparr>]"

definition sample_dict :: DictTrie where
  "sample_dict =
     \<lparr>static_node_infos = sample_units, active_node_infos = [],
      trie = CreateTrie (map du_word sample_units) sample_units, freq_sum = 8, min_weight = -3,
      max_weight = -1, median_weight = -2, user_word_default_weight = -2,
      user_dict_single_chinese_word = {}\<rparr>"

lemma sample_dict_ok [simp]: "dict_ok sample_dict"
  by (simp add: dict_ok_def sample_dict_def named_CreateTrie)

theorem mp_segmentation_optimal_witness:
  "\<exists>st. MPSegment_Cut_max sample_env sample_dict 512 (snd (DecodeRunesInString ''ab'')) 0 2 =
       map (\<lambda>w. \<lparr>left = 0 + left w, right = 0 + right w\<rparr>) (route_ranges 0 st)"
proof -
  let ?r = "snd (DecodeRunesInString ''ab'')"
  let ?ws = "map dag_weight
    (CalcDP sample_env (min_weight sample_dict) (Find_dags (trie sample_dict) (slice ?r 0 2) 512))"
  have "length ?ws = 2 \<and> list_all (\<lambda>w. MIN_DOUBLE < w) ?ws" by code_simp
  moreover have "length ?r = 2" by code_simp
  ultimately show ?thesis
    using mp_segmentation_optimal [of sample_env sample_dict 0 2 ?r 512]
    by (auto simp: list_all_length)
qed

text \<open>
  Put together, the words of \<open>MPSegment::Cut\<close> give the sentence back byte for byte, whatever the
  maximal word length, and there are none when the sentence is not valid UTF-8.
\<close>

theorem mp_cut_concat:
  assumes "dict_ok d"
  shows "concat (MPSegment_Cut_sentence E d syms s m) = (if fst (DecodeRunesInString s) then s else [])"
  using mp.concat_Cut_strings [of "(E, d, m)" syms s] assms
  by (simp add: MPSegment_Cut_sentence_def)

theorem mp_cut_concat_witness:
  "concat (MPSegment_Cut_sentence sample_env sample_dict default_symbols ''ab b'' 512) = ''ab b''"
proof -
  have "fst (DecodeRunesInString ''ab b'')" by code_simp
  with mp_cut_concat [OF sample_dict_ok] show ?thesis by simp
qed

end
