(* ===== verification/HMM.thy ===== *)
theory HMM imports DictTrie Segment begin

text \<open>
  The hidden Markov model for words that are not in the dictionary: \<open>cppjieba/HMMModel.hpp\<close> (the
  model file) and \<open>cppjieba/HMMSegment.hpp\<close> (runs of letters and digits, the Viterbi algorithm over
  the four states, and the cut after each rune whose state is \<open>E\<close> or \<open>S\<close>).

  \<^item> States are the numbers of the code's enum, and the tables of the Viterbi algorithm are the code's
    two flat vectors, where the entry of column \<open>x\<close> and state \<open>y\<close> is at \<open>x + y * X\<close>.
  \<^item> \<open>hmm\<close> interprets \<open>range_segmenter\<close>: the words tile the range, for every model and every rounding.
  \<^item> The state sequence is optimal for monotone rounding and log-probabilities that are not positive.
\<close>

section \<open>The model\<close>

definition HMM_B :: nat where "HMM_B = 0"
definition HMM_E :: nat where "HMM_E = 1"
definition HMM_M :: nat where "HMM_M = 2"
definition HMM_S :: nat where "HMM_S = 3"
definition STATUS_SUM :: nat where "STATUS_SUM = 4"

type_synonym EmitProbMap = "Rune \<rightharpoonup> real"

record HMMModel =
  startProb :: "real list"
  transProb :: "real list list"
  emitProbB :: EmitProbMap
  emitProbE :: EmitProbMap
  emitProbM :: EmitProbMap
  emitProbS :: EmitProbMap

definition emitProbVec :: "HMMModel \<Rightarrow> EmitProbMap list" where
  "emitProbVec m = [emitProbB m, emitProbE m, emitProbM m, emitProbS m]"

definition GetEmitProb :: "EmitProbMap \<Rightarrow> Rune \<Rightarrow> real \<Rightarrow> real" where
  "GetEmitProb ptMp key defVal = (case ptMp key of None \<Rightarrow> defVal | Some p \<Rightarrow> p)"

text \<open>\<open>GetLine\<close>: the next line that is neither empty nor a comment, and the unread rest.\<close>

function GetLine :: "string \<Rightarrow> (string \<times> string) option" where
  "GetLine ifile =
     (case getline ifile of
        None \<Rightarrow> None
      | Some (l, rest) \<Rightarrow>
          (let line = Trim l in
           if line = [] then GetLine rest
           else if StartsWith line ''#'' then GetLine rest
           else Some (line, rest)))"
  by pat_completeness auto
termination
  by (relation "measure length") (auto dest: getline_shorter)

declare GetLine.simps [simp del]

text \<open>\<open>LoadEmitProb\<close>: the result, and the map afterwards. An entry that fails leaves the entries
before it in the map.\<close>

fun load_emit_entries :: "fpenv \<Rightarrow> string list \<Rightarrow> EmitProbMap \<Rightarrow> bool \<times> EmitProbMap" where
  "load_emit_entries F [] mp = (True, mp)"
| "load_emit_entries F (entry # tmp) mp =
     (let tmp2 = Split entry '':'' in
      if length tmp2 \<noteq> 2 then (False, mp)
      else let (ok, unicode) = DecodeRunesInString_Unicode (tmp2 ! 0) in
           if \<not> ok \<or> length unicode \<noteq> 1 then (False, mp)
           else load_emit_entries F tmp (mp(unicode ! 0 \<mapsto> atof F (tmp2 ! 1))))"

definition LoadEmitProb :: "fpenv \<Rightarrow> string \<Rightarrow> EmitProbMap \<Rightarrow> bool \<times> EmitProbMap" where
  "LoadEmitProb F line mp =
     (if line = [] then (False, mp) else load_emit_entries F (Split line '','') mp)"

text \<open>One line of \<open>STATUS_SUM\<close> probabilities, and the lines of an \<open>n\<close>-row matrix.\<close>

definition load_prob_row :: "fpenv \<Rightarrow> string \<Rightarrow> abort + real list \<times> string" where
  "load_prob_row F ifile =
     (case GetLine ifile of
        None \<Rightarrow> Inl XCheckFailed
      | Some (line, rest) \<Rightarrow>
          (let tmp = Split line '' '' in
           if length tmp \<noteq> STATUS_SUM then Inl XCheckFailed
           else Inr (map (atof F) tmp, rest)))"

primrec load_prob_rows :: "fpenv \<Rightarrow> nat \<Rightarrow> string \<Rightarrow> abort + real list list \<times> string" where
  "load_prob_rows F 0 ifile = Inr ([], ifile)"
| "load_prob_rows F (Suc n) ifile =
     (case load_prob_row F ifile of
        Inl e \<Rightarrow> Inl e
      | Inr (row, rest) \<Rightarrow>
          (case load_prob_rows F n rest of
             Inl e \<Rightarrow> Inl e
           | Inr (rows, rest') \<Rightarrow> Inr (row # rows, rest')))"

definition load_emit_line :: "fpenv \<Rightarrow> string \<Rightarrow> abort + EmitProbMap \<times> string" where
  "load_emit_line F ifile =
     (case GetLine ifile of
        None \<Rightarrow> Inl XCheckFailed
      | Some (line, rest) \<Rightarrow>
          (case LoadEmitProb F line Map.empty of
             (False, _) \<Rightarrow> Inl XCheckFailed
           | (True, mp) \<Rightarrow> Inr (mp, rest)))"

text \<open>\<open>LoadModel\<close>, which the constructor calls on fresh members.\<close>

definition LoadModel :: "fpenv \<Rightarrow> filesystem \<Rightarrow> string \<Rightarrow> abort + HMMModel" where
  "LoadModel F fs filePath =
     (case fs filePath of
        None \<Rightarrow> Inl XCheckFailed
      | Some f0 \<Rightarrow>
          (case load_prob_row F f0 of Inl e \<Rightarrow> Inl e | Inr (st, f1) \<Rightarrow>
          (case load_prob_rows F STATUS_SUM f1 of Inl e \<Rightarrow> Inl e | Inr (tr, f2) \<Rightarrow>
          (case load_emit_line F f2 of Inl e \<Rightarrow> Inl e | Inr (b, f3) \<Rightarrow>
          (case load_emit_line F f3 of Inl e \<Rightarrow> Inl e | Inr (en, f4) \<Rightarrow>
          (case load_emit_line F f4 of Inl e \<Rightarrow> Inl e | Inr (mi, f5) \<Rightarrow>
          (case load_emit_line F f5 of Inl e \<Rightarrow> Inl e | Inr (si, f6) \<Rightarrow>
             Inr \<lparr>startProb = st, transProb = tr, emitProbB = b, emitProbE = en,
                  emitProbM = mi, emitProbS = si\<rparr>)))))))"

text \<open>The dimensions of a loaded model.\<close>

definition hmm_ok :: "HMMModel \<Rightarrow> bool" where
  "hmm_ok m \<longleftrightarrow> length (startProb m) = STATUS_SUM \<and> length (transProb m) = STATUS_SUM \<and>
     (\<forall>row \<in> set (transProb m). length row = STATUS_SUM)"

section \<open>The Viterbi algorithm\<close>

text \<open>\<open>weight\<close> and \<open>path\<close>; the runes are those of the range, and \<open>X\<close> is their number.\<close>

type_synonym tables = "real list \<times> int list"

definition viterbi_start :: "fpenv \<Rightarrow> HMMModel \<Rightarrow> nat \<Rightarrow> Rune \<Rightarrow> nat \<Rightarrow> tables \<Rightarrow> tables" where
  "viterbi_start F m X r y = (\<lambda>(weight, path).
     (weight[0 + y * X := fadd F (startProb m ! y) (GetEmitProb (emitProbVec m ! y) r MIN_DOUBLE)],
      path[0 + y * X := -1]))"

definition viterbi_pre :: "fpenv \<Rightarrow> HMMModel \<Rightarrow> nat \<Rightarrow> nat \<Rightarrow> nat \<Rightarrow> real \<Rightarrow> nat \<Rightarrow> tables \<Rightarrow> tables" where
  "viterbi_pre F m X x y emitProb preY = (\<lambda>(weight, path).
     (let now = x + y * X;
          old = x - 1 + preY * X;
          tmp = fadd F (fadd F (weight ! old) (transProb m ! preY ! y)) emitProb
      in if weight ! now < tmp then (weight[now := tmp], path[now := int preY])
         else (weight, path)))"

definition viterbi_cell :: "fpenv \<Rightarrow> HMMModel \<Rightarrow> nat \<Rightarrow> nat \<Rightarrow> Rune \<Rightarrow> nat \<Rightarrow> tables \<Rightarrow> tables" where
  "viterbi_cell F m X x r y = (\<lambda>(weight, path).
     (let now = x + y * X;
          emitProb = GetEmitProb (emitProbVec m ! y) r MIN_DOUBLE
      in fold (viterbi_pre F m X x y emitProb) [0..<STATUS_SUM]
           (weight[now := MIN_DOUBLE], path[now := int HMM_E])))"

definition viterbi_tables :: "fpenv \<Rightarrow> HMMModel \<Rightarrow> Rune list \<Rightarrow> tables" where
  "viterbi_tables F m rs =
     (let X = length rs
      in fold (\<lambda>x. fold (viterbi_cell F m X x (rs ! x)) [0..<STATUS_SUM]) [1..<X]
           (fold (viterbi_start F m X (rs ! 0)) [0..<STATUS_SUM]
             (replicate (X * STATUS_SUM) 0, replicate (X * STATUS_SUM) 0)))"

text \<open>The loop from the last column back: \<open>x\<close> columns are left. \<open>stat\<close> is a \<open>size_t\<close>, to which the
\<open>int\<close> of the path is converted.\<close>

primrec viterbi_back :: "int list \<Rightarrow> nat \<Rightarrow> nat \<Rightarrow> nat \<Rightarrow> nat list \<Rightarrow> nat list" where
  "viterbi_back path X 0 stat status = status"
| "viterbi_back path X (Suc x) stat status =
     viterbi_back path X x (nat (path ! (x + stat * X) mod 2 ^ 64)) (status[x := stat])"

definition Viterbi :: "fpenv \<Rightarrow> HMMModel \<Rightarrow> Rune list \<Rightarrow> nat list" where
  "Viterbi F m rs =
     (let X = length rs;
          (weight, path) = viterbi_tables F m rs;
          endE = weight ! (X - 1 + HMM_E * X);
          endS = weight ! (X - 1 + HMM_S * X);
          stat = (if endE \<ge> endS then HMM_E else HMM_S)
      in viterbi_back path X X stat (replicate X 0))"

section \<open>Cutting\<close>

text \<open>The loop of \<open>InternalCut\<close> at rune \<open>i\<close>, where the current word began at \<open>l\<close>.\<close>

fun status_cuts :: "nat \<Rightarrow> nat \<Rightarrow> nat list \<Rightarrow> WordRange list" where
  "status_cuts l i [] = []"
| "status_cuts l i (s # status) =
     (if s mod 2 \<noteq> 0 then \<lparr>left = l, right = i + 1 - 1\<rparr> # status_cuts (i + 1) (i + 1) status
      else status_cuts l (i + 1) status)"

definition InternalCut :: "fpenv \<Rightarrow> HMMModel \<Rightarrow> RuneStr list \<Rightarrow> nat \<Rightarrow> nat \<Rightarrow> WordRange list" where
  "InternalCut F m rs b e = status_cuts b b (Viterbi F m (map rune (slice rs b e)))"

definition is_letter :: "Rune \<Rightarrow> bool" where
  "is_letter x \<longleftrightarrow> (0x61 \<le> x \<and> x \<le> 0x7A) \<or> (0x41 \<le> x \<and> x \<le> 0x5A)"

definition is_number :: "Rune \<Rightarrow> bool" where
  "is_number x \<longleftrightarrow> 0x30 \<le> x \<and> x \<le> 0x39"

text \<open>\<open>while (begin != end) { if (P x) begin++; else break; }\<close>\<close>

function skip_while :: "(Rune \<Rightarrow> bool) \<Rightarrow> RuneStr list \<Rightarrow> nat \<Rightarrow> nat \<Rightarrow> nat" where
  "skip_while P rs b e = (if b < e \<and> P (rune (rs ! b)) then skip_while P rs (Suc b) e else b)"
  by pat_completeness auto
termination
  by (relation "measure (\<lambda>(P, rs, b, e). e - b)") auto

declare skip_while.simps [simp del]

definition SequentialLetterRule :: "RuneStr list \<Rightarrow> nat \<Rightarrow> nat \<Rightarrow> nat" where
  "SequentialLetterRule rs b e =
     (if is_letter (rune (rs ! b)) then skip_while (\<lambda>x. is_letter x \<or> is_number x) rs (b + 1) e else b)"

definition NumbersRule :: "RuneStr list \<Rightarrow> nat \<Rightarrow> nat \<Rightarrow> nat" where
  "NumbersRule rs b e =
     (if is_number (rune (rs ! b)) then skip_while (\<lambda>x. is_number x \<or> x = 0x2E) rs (b + 1) e else b)"

text \<open>The \<open>do ... while (false)\<close> block: where the word that begins at the ASCII rune \<open>l\<close> ends.\<close>

definition ascii_end :: "RuneStr list \<Rightarrow> nat \<Rightarrow> nat \<Rightarrow> nat" where
  "ascii_end rs l e =
     (if SequentialLetterRule rs l e \<noteq> l then SequentialLetterRule rs l e
      else if NumbersRule rs l e \<noteq> l then NumbersRule rs l e
      else l + 1)"

lemma skip_while_bounds: "b \<le> e \<Longrightarrow> b \<le> skip_while P rs b e \<and> skip_while P rs b e \<le> e"
proof (induction P rs b e rule: skip_while.induct)
  case (1 P rs b e)
  then show ?case by (cases "b < e \<and> P (rune (rs ! b))") (auto simp: skip_while.simps [of P rs b e])
qed

lemma ascii_end_bounds: "l < e \<Longrightarrow> l < ascii_end rs l e \<and> ascii_end rs l e \<le> e"
  using skip_while_bounds [of "l + 1" e]
  by (fastforce simp: ascii_end_def SequentialLetterRule_def NumbersRule_def Suc_le_eq)

text \<open>\<open>Cut(begin, end, res)\<close>, at \<open>right = r\<close> with the pending runes from \<open>l\<close> on.\<close>

function hmm_cut_from :: "fpenv \<Rightarrow> HMMModel \<Rightarrow> RuneStr list \<Rightarrow> nat \<Rightarrow> nat \<Rightarrow> nat \<Rightarrow> WordRange list" where
  "hmm_cut_from F m rs l r e =
     (if r < e then
        (if rune (rs ! r) < 0x80 then
           (let pending = (if l \<noteq> r then InternalCut F m rs l r else []);
                r' = ascii_end rs r e
            in pending @ \<lparr>left = r, right = r' - 1\<rparr> # hmm_cut_from F m rs r' r' e)
         else hmm_cut_from F m rs l (r + 1) e)
      else if l \<noteq> r then InternalCut F m rs l r else [])"
  by pat_completeness auto
termination
proof (relation "measure (\<lambda>(F, m, rs, l, r, e). e - r)", goal_cases)
  case (2 F m rs l r e pending r')
  then show ?case using ascii_end_bounds [of r e rs] by auto
qed auto

declare hmm_cut_from.simps [simp del]

definition HMMSegment_Cut :: "fpenv \<Rightarrow> HMMModel \<Rightarrow> RuneStr list \<Rightarrow> nat \<Rightarrow> nat \<Rightarrow> WordRange list" where
  "HMMSegment_Cut F m rs b e = hmm_cut_from F m rs b b e"

definition HMMSegment_Cut_sentence :: "fpenv \<Rightarrow> HMMModel \<Rightarrow> Rune set \<Rightarrow> string \<Rightarrow> string list" where
  "HMMSegment_Cut_sentence F m syms sentence = Cut_strings (HMMSegment_Cut F m) syms sentence"

section \<open>The tables\<close>

text \<open>The recurrence that the tables hold: weight and predecessor of state \<open>y\<close> in column \<open>x\<close>.\<close>

definition vit_step :: "fpenv \<Rightarrow> HMMModel \<Rightarrow> real \<Rightarrow> nat \<Rightarrow> (nat \<Rightarrow> real) \<Rightarrow> nat \<Rightarrow> real" where
  "vit_step F m e y ws preY = fadd F (fadd F (ws preY) (transProb m ! preY ! y)) e"

definition vit_max :: "fpenv \<Rightarrow> HMMModel \<Rightarrow> real \<Rightarrow> nat \<Rightarrow> (nat \<Rightarrow> real) \<Rightarrow> nat \<Rightarrow> real \<times> int \<Rightarrow> real \<times> int" where
  "vit_max F m e y ws preY = (\<lambda>(w, p).
     if w < vit_step F m e y ws preY then (vit_step F m e y ws preY, int preY) else (w, p))"

definition emit :: "HMMModel \<Rightarrow> nat \<Rightarrow> Rune \<Rightarrow> real" where
  "emit m y r = GetEmitProb (emitProbVec m ! y) r MIN_DOUBLE"

primrec vit :: "fpenv \<Rightarrow> HMMModel \<Rightarrow> Rune list \<Rightarrow> nat \<Rightarrow> nat \<Rightarrow> real \<times> int" where
  "vit F m rs 0 y = (fadd F (startProb m ! y) (emit m y (rs ! 0)), -1)"
| "vit F m rs (Suc x) y =
     fold (vit_max F m (emit m y (rs ! Suc x)) y (\<lambda>preY. fst (vit F m rs x preY))) [0..<STATUS_SUM]
       (MIN_DOUBLE, int HMM_E)"

lemma flat_index:
  fixes x x' y y' X :: nat
  assumes "x < X" and "x' < X"
  shows "x + y * X = x' + y' * X \<longleftrightarrow> x = x' \<and> y = y'"
proof
  assume e: "x + y * X = x' + y' * X"
  then have "(x + y * X) mod X = (x' + y' * X) mod X" by simp
  with assms have "x = x'" by simp
  with e assms show "x = x' \<and> y = y'" by simp
qed simp

lemma flat_index_bound: "x < X \<Longrightarrow> y < n \<Longrightarrow> x + y * X < X * (n :: nat)"
proof -
  assume "x < X" and "y < n"
  then have "x + y * X < Suc y * X" by simp
  also have "\<dots> \<le> n * X" using \<open>y < n\<close> by (intro mult_le_mono1) simp
  finally show ?thesis by (simp add: mult.commute)
qed

text \<open>The entries of the columns before \<open>x\<close>, and of the first \<open>n\<close> states of column \<open>x\<close>.\<close>

definition filled :: "fpenv \<Rightarrow> HMMModel \<Rightarrow> Rune list \<Rightarrow> nat \<Rightarrow> nat \<Rightarrow> tables \<Rightarrow> bool" where
  "filled F m rs x n t \<longleftrightarrow>
     length (fst t) = length rs * STATUS_SUM \<and> length (snd t) = length rs * STATUS_SUM \<and>
     (\<forall>x' y. y < STATUS_SUM \<longrightarrow> x' < length rs \<longrightarrow> x' < x \<or> x' = x \<and> y < n \<longrightarrow>
        (fst t ! (x' + y * length rs), snd t ! (x' + y * length rs)) = vit F m rs x' y)"

lemma filled_update:
  assumes "filled F m rs x n (weight, path)" and "x < length rs" and "n < STATUS_SUM"
    and "vit F m rs x n = (w, p)"
  shows "filled F m rs x (Suc n) (weight[x + n * length rs := w], path[x + n * length rs := p])"
  using assms flat_index_bound [of x "length rs" n STATUS_SUM]
  by (auto simp: filled_def nth_list_update flat_index less_Suc_eq)

lemma filled_next_column:
  "filled F m rs x STATUS_SUM t \<Longrightarrow> filled F m rs (Suc x) 0 t"
  by (auto simp: filled_def less_Suc_eq)

lemma fold_viterbi_pre:
  assumes "now < length weight" and "now < length path"
    and "\<And>y'. y' \<in> set ys \<Longrightarrow> x - 1 + y' * X \<noteq> now \<and> weight ! (x - 1 + y' * X) = ws y'"
    and "now = x + y * X"
  shows "fold (viterbi_pre F m X x y e) ys (weight[now := w], path[now := p]) =
    (let (w', p') = fold (vit_max F m e y ws) ys (w, p) in (weight[now := w'], path[now := p']))"
  using assms
proof (induction ys arbitrary: w p)
  case (Cons preY ys)
  have "weight[now := w] ! (x - 1 + preY * X) = ws preY" and "weight[now := w] ! now = w"
    using Cons.prems(1) Cons.prems(3) [of preY] by (auto simp: nth_list_update)
  then have s: "viterbi_pre F m X x y e preY (weight[now := w], path[now := p]) =
      (let (w', p') = vit_max F m e y ws preY (w, p) in (weight[now := w'], path[now := p']))"
    unfolding viterbi_pre_def vit_max_def vit_step_def Let_def \<open>now = _\<close> [symmetric] by simp
  show ?case
    unfolding fold_simps comp_def s
    using Cons by (cases "vit_max F m e y ws preY (w, p)") simp
qed simp

lemma viterbi_cell_filled:
  assumes f: "filled F m rs x n t" and x: "0 < x" "x < length rs" and n: "n < STATUS_SUM"
  shows "filled F m rs x (Suc n) (viterbi_cell F m (length rs) x (rs ! x) n t)"
proof -
  obtain weight path where t: "t = (weight, path)" by (cases t)
  obtain x0 where x0: "x = Suc x0" using x by (cases x) auto
  let ?now = "x + n * length rs"
  have len: "?now < length weight" "?now < length path"
    using f flat_index_bound [OF x(2) n] by (auto simp: filled_def t)
  have old: "x - 1 + y' * length rs \<noteq> ?now \<and> weight ! (x - 1 + y' * length rs) = fst (vit F m rs x0 y')"
    if "y' \<in> set [0..<STATUS_SUM]" for y'
  proof -
    from f that x x0 have "(weight ! (x0 + y' * length rs), path ! (x0 + y' * length rs)) = vit F m rs x0 y'"
      by (simp add: filled_def t)
    with x x0 flat_index [of x0 "length rs" x y' n] show ?thesis by (metis Suc_n_not_le_n diff_Suc_1 fst_conv
          le_refl less_imp_diff_less)
  qed
  obtain w p where wp: "vit F m rs x n = (w, p)" by (cases "vit F m rs x n")
  then have b: "fold (vit_max F m (emit m n (rs ! x)) n (\<lambda>preY. fst (vit F m rs x0 preY))) [0..<STATUS_SUM]
      (MIN_DOUBLE, int HMM_E) = (w, p)" by (simp add: x0)
  have "viterbi_cell F m (length rs) x (rs ! x) n t = (weight[?now := w], path[?now := p])"
    unfolding viterbi_cell_def t prod.case Let_def emit_def [symmetric]
    by (subst fold_viterbi_pre [where ws = "\<lambda>preY. fst (vit F m rs x0 preY)"]) (use len old b in simp_all)
  with filled_update [OF f [unfolded t] x(2) n wp] show ?thesis by simp
qed

lemma viterbi_column_filled:
  assumes "filled F m rs x 0 t" and "0 < x" "x < length rs"
  shows "filled F m rs (Suc x) 0 (fold (viterbi_cell F m (length rs) x (rs ! x)) [0..<STATUS_SUM] t)"
proof -
  have "n \<le> STATUS_SUM \<Longrightarrow>
    filled F m rs x n (fold (viterbi_cell F m (length rs) x (rs ! x)) [0..<n] t)" for n
    using assms by (induction n) (auto intro: viterbi_cell_filled)
  then show ?thesis by (intro filled_next_column) simp
qed

lemma viterbi_start_filled:
  assumes "rs \<noteq> []"
  shows "filled F m rs 1 0 (fold (viterbi_start F m (length rs) (rs ! 0)) [0..<STATUS_SUM]
    (replicate (length rs * STATUS_SUM) 0, replicate (length rs * STATUS_SUM) 0))"
proof -
  have "n \<le> STATUS_SUM \<Longrightarrow> filled F m rs 0 n (fold (viterbi_start F m (length rs) (rs ! 0)) [0..<n]
    (replicate (length rs * STATUS_SUM) 0, replicate (length rs * STATUS_SUM) 0))" for n
  proof (induction n)
    case (Suc n)
    let ?t = "fold (viterbi_start F m (length rs) (rs ! 0)) [0..<n]
      (replicate (length rs * STATUS_SUM) 0, replicate (length rs * STATUS_SUM) 0)"
    obtain weight path where t: "?t = (weight, path)" by (cases ?t)
    with Suc have "filled F m rs 0 n (weight, path)" by simp
    from filled_update [OF this _ _ vit.simps(1)] Suc.prems assms
    have "filled F m rs 0 (Suc n) (viterbi_start F m (length rs) (rs ! 0) n (weight, path))"
      by (simp add: viterbi_start_def emit_def)
    moreover have "fold (viterbi_start F m (length rs) (rs ! 0)) [0..<Suc n]
        (replicate (length rs * STATUS_SUM) 0, replicate (length rs * STATUS_SUM) 0) =
      viterbi_start F m (length rs) (rs ! 0) n (weight, path)"
      using t by simp
    ultimately show ?case by simp
  qed (simp add: filled_def)
  then show ?thesis using filled_next_column [of F m rs 0] by simp
qed

lemma viterbi_tables_filled:
  assumes "rs \<noteq> []"
  shows "filled F m rs (length rs) 0 (viterbi_tables F m rs)"
proof -
  let ?t = "fold (viterbi_start F m (length rs) (rs ! 0)) [0..<STATUS_SUM]
    (replicate (length rs * STATUS_SUM) 0, replicate (length rs * STATUS_SUM) 0)"
  have "1 \<le> x \<Longrightarrow> x \<le> length rs \<Longrightarrow> filled F m rs x 0
    (fold (\<lambda>x. fold (viterbi_cell F m (length rs) x (rs ! x)) [0..<STATUS_SUM]) [1..<x] ?t)" for x
  proof (induction x)
    case (Suc x)
    then show ?case
      using viterbi_start_filled [OF assms, of F m] by (cases "x = 0") (auto intro: viterbi_column_filled)
  qed simp
  from this [of "length rs"] show ?thesis
    using assms by (simp add: viterbi_tables_def Let_def Suc_le_eq)
qed

section \<open>Backtracking\<close>

lemma vit_max_fold_cases:
  "fold (vit_max F m e y ws) ys (w, p) = (w, p) \<or>
   (\<exists>preY \<in> set ys. fold (vit_max F m e y ws) ys (w, p) = (vit_step F m e y ws preY, int preY))"
proof (induction ys arbitrary: w p)
  case (Cons z ys)
  show ?case
    using Cons [of "vit_step F m e y ws z" "int z"] Cons [of w p]
    by (cases "w < vit_step F m e y ws z") (auto simp: vit_max_def)
qed simp

lemma vit_max_fold_ge:
  "w \<le> fst (fold (vit_max F m e y ws) ys (w, p)) \<and>
   (\<forall>preY \<in> set ys. vit_step F m e y ws preY \<le> fst (fold (vit_max F m e y ws) ys (w, p)))"
proof (induction ys arbitrary: w p)
  case (Cons z ys)
  show ?case
  proof (cases "w < vit_step F m e y ws z")
    case True
    then show ?thesis using Cons [of "vit_step F m e y ws z" "int z"] by (auto simp: vit_max_def)
  next
    case False
    then show ?thesis using Cons [of w p] by (auto simp: vit_max_def)
  qed
qed simp

lemma vit_pred: "\<exists>p < STATUS_SUM. snd (vit F m rs (Suc x) y) = int p"
  using vit_max_fold_cases [of F m "emit m y (rs ! Suc x)" y "\<lambda>preY. fst (vit F m rs x preY)" "[0..<STATUS_SUM]"
      MIN_DOUBLE "int HMM_E"]
  by (auto simp: STATUS_SUM_def HMM_E_def)

text \<open>What the loop writes: \<open>stat\<close> in the last column left, and then the predecessors.\<close>

lemma viterbi_back_spec:
  assumes "filled F m rs (length rs) 0 (weight, path)"
  shows "x \<le> length rs \<Longrightarrow> stat < STATUS_SUM \<Longrightarrow> length status = length rs \<Longrightarrow>
    st = viterbi_back path (length rs) x stat status \<Longrightarrow>
    length st = length rs \<and> (\<forall>j. x \<le> j \<longrightarrow> st ! j = status ! j) \<and> (0 < x \<longrightarrow> st ! (x - 1) = stat) \<and>
    (\<forall>j < x. st ! j < STATUS_SUM) \<and>
    (\<forall>j. Suc j < x \<longrightarrow> int (st ! j) = snd (vit F m rs (Suc j) (st ! Suc j)))"
proof (induction x arbitrary: stat status)
  case (Suc x)
  let ?n = "nat (path ! (x + stat * length rs) mod 2 ^ 64)"
  have e: "st = viterbi_back path (length rs) x ?n (status[x := stat])" using Suc.prems(4) by simp
  show ?case
  proof (cases x)
    case 0
    with e Suc.prems have "st = status[0 := stat]" and "0 < length status" by auto
    with 0 Suc.prems show ?thesis by auto
  next
    case (Suc x')
    have "path ! (x + stat * length rs) = snd (vit F m rs x stat)"
      using assms Suc.prems(1,2) by (auto simp: filled_def prod_eq_iff)
    moreover obtain p where p: "p < STATUS_SUM" "snd (vit F m rs x stat) = int p"
      using vit_pred [of F m rs x' stat] Suc by auto
    ultimately have n: "?n = p" by (simp add: STATUS_SUM_def)
    have I: "length st = length rs \<and> (\<forall>j. x \<le> j \<longrightarrow> st ! j = status[x := stat] ! j) \<and>
        (0 < x \<longrightarrow> st ! (x - 1) = p) \<and> (\<forall>j < x. st ! j < STATUS_SUM) \<and>
        (\<forall>j. Suc j < x \<longrightarrow> int (st ! j) = snd (vit F m rs (Suc j) (st ! Suc j)))"
      by (rule Suc.IH) (use Suc.prems e n p in auto)
    then have sx: "st ! x = stat" using Suc.prems by simp
    then have "int (st ! j) = snd (vit F m rs (Suc j) (st ! Suc j))" if "Suc j < Suc x" for j
      using that I p Suc by (cases "Suc j = x") auto
    with I sx Suc.prems show ?thesis by (auto simp: less_Suc_eq)
  qed
qed simp

text \<open>The weight of a state sequence: its states \<open>0 .. x\<close>, added up in the order of the code.\<close>

primrec states_weight :: "fpenv \<Rightarrow> HMMModel \<Rightarrow> Rune list \<Rightarrow> nat list \<Rightarrow> nat \<Rightarrow> real" where
  "states_weight F m rs ys 0 = fadd F (startProb m ! (ys ! 0)) (emit m (ys ! 0) (rs ! 0))"
| "states_weight F m rs ys (Suc x) =
     fadd F (fadd F (states_weight F m rs ys x) (transProb m ! (ys ! x) ! (ys ! Suc x)))
       (emit m (ys ! Suc x) (rs ! Suc x))"

text \<open>State sequences that the cut can use: they end in \<open>E\<close> or \<open>S\<close>.\<close>

definition states_for :: "Rune list \<Rightarrow> nat list \<Rightarrow> bool" where
  "states_for rs ys \<longleftrightarrow> length ys = length rs \<and> (\<forall>y \<in> set ys. y < STATUS_SUM) \<and>
     (ys \<noteq> [] \<longrightarrow> last ys = HMM_E \<or> last ys = HMM_S)"

lemma states_weight_le:
  assumes "mono (rnd F)" and "\<forall>y \<in> set ys. y < STATUS_SUM"
  shows "x < length ys \<Longrightarrow> states_weight F m rs ys x \<le> fst (vit F m rs x (ys ! x))"
proof (induction x)
  case (Suc x)
  let ?ws = "\<lambda>preY. fst (vit F m rs x preY)" and ?e = "emit m (ys ! Suc x) (rs ! Suc x)"
  have "states_weight F m rs ys (Suc x) \<le> vit_step F m ?e (ys ! Suc x) ?ws (ys ! x)"
    using Suc by (simp add: vit_step_def fadd_mono [OF assms(1)])
  also have "\<dots> \<le> fst (vit F m rs (Suc x) (ys ! Suc x))"
    using vit_max_fold_ge [of MIN_DOUBLE F m ?e "ys ! Suc x" ?ws "[0..<STATUS_SUM]" "int HMM_E"]
      assms(2) Suc.prems by auto
  finally show ?case .
qed simp

text \<open>Log-probabilities: nothing is positive, so a step never raises a weight.\<close>

definition log_probs :: "HMMModel \<Rightarrow> bool" where
  "log_probs m \<longleftrightarrow> (\<forall>i < STATUS_SUM. \<forall>j < STATUS_SUM. transProb m ! i ! j \<le> 0) \<and>
     (\<forall>mp \<in> set (emitProbVec m). \<forall>p \<in> ran mp. p \<le> 0)"

text \<open>A rounding that keeps the order, and the numbers that it has produced.\<close>

definition rounding :: "fpenv \<Rightarrow> bool" where
  "rounding F \<longleftrightarrow> mono (rnd F) \<and> (\<forall>a. rnd F (rnd F a) = rnd F a) \<and> rnd F MIN_DOUBLE = MIN_DOUBLE"

lemma emit_le: "log_probs m \<Longrightarrow> y < STATUS_SUM \<Longrightarrow> emit m y r \<le> 0"
proof -
  assume m: "log_probs m" and "y < STATUS_SUM"
  then have "emitProbVec m ! y \<in> set (emitProbVec m)"
    by (simp add: emitProbVec_def STATUS_SUM_def del: list.set)
  with m have "p \<le> 0" if "(emitProbVec m ! y) r = Some p" for p
    using that ranI [of "emitProbVec m ! y" r p] unfolding log_probs_def by blast
  then show ?thesis
    by (auto simp: emit_def GetEmitProb_def MIN_DOUBLE_def split: option.splits)
qed

lemma fadd_nonpos: "mono (rnd F) \<Longrightarrow> rnd F w = w \<Longrightarrow> a \<le> w \<Longrightarrow> b \<le> 0 \<Longrightarrow> fadd F a b \<le> w"
  using monoD [of "rnd F" "a + b" w] by (simp add: fadd_def)

lemma vit_rounded: "rounding F \<Longrightarrow> rnd F (fst (vit F m rs x y)) = fst (vit F m rs x y)"
proof (cases x)
  case (Suc x')
  assume "rounding F"
  with Suc vit_max_fold_cases [of F m "emit m y (rs ! x)" y "\<lambda>preY. fst (vit F m rs x' preY)" "[0..<STATUS_SUM]"
      MIN_DOUBLE "int HMM_E"] show ?thesis
    by (auto simp: rounding_def vit_step_def fadd_def)
qed (simp add: rounding_def fadd_def)

lemma chosen_weight:
  assumes F: "rounding F" and m: "log_probs m" and b: "\<forall>y \<in> set ys. y < STATUS_SUM"
    and p: "\<And>j. Suc j < length ys \<Longrightarrow> int (ys ! j) = snd (vit F m rs (Suc j) (ys ! Suc j))"
  shows "x < length ys \<Longrightarrow> MIN_DOUBLE < fst (vit F m rs x (ys ! x)) \<Longrightarrow>
    states_weight F m rs ys x = fst (vit F m rs x (ys ! x))"
proof (induction x)
  case (Suc x)
  let ?ws = "\<lambda>preY. fst (vit F m rs x preY)" and ?e = "emit m (ys ! Suc x) (rs ! Suc x)"
  from Suc.prems(2) vit_max_fold_cases [of F m ?e "ys ! Suc x" ?ws "[0..<STATUS_SUM]" MIN_DOUBLE "int HMM_E"]
  obtain preY where "vit F m rs (Suc x) (ys ! Suc x) = (vit_step F m ?e (ys ! Suc x) ?ws preY, int preY)"
    by auto
  with p [OF Suc.prems(1)]
  have w: "fst (vit F m rs (Suc x) (ys ! Suc x)) = vit_step F m ?e (ys ! Suc x) ?ws (ys ! x)" by simp
  have "ys ! x < STATUS_SUM" "ys ! Suc x < STATUS_SUM" using b Suc.prems(1) by auto
  then have "vit_step F m ?e (ys ! Suc x) ?ws (ys ! x) \<le> ?ws (ys ! x)"
    unfolding vit_step_def using F m emit_le [OF m]
    by (intro fadd_nonpos vit_rounded) (auto simp: rounding_def log_probs_def)
  with w Suc.prems have "MIN_DOUBLE < ?ws (ys ! x)" by simp
  with Suc w show ?case by (simp add: vit_step_def)
qed simp

lemma Viterbi_spec:
  assumes "rs \<noteq> []"
  shows "length (Viterbi F m rs) = length rs"
    and "\<forall>y \<in> set (Viterbi F m rs). y < STATUS_SUM"
    and "last (Viterbi F m rs) = HMM_E \<or> last (Viterbi F m rs) = HMM_S"
    and "Suc j < length rs \<Longrightarrow>
      int (Viterbi F m rs ! j) = snd (vit F m rs (Suc j) (Viterbi F m rs ! Suc j))"
    and "fst (vit F m rs (length rs - 1) y) \<le> fst (vit F m rs (length rs - 1) (last (Viterbi F m rs)))
      \<or> y \<noteq> HMM_E \<and> y \<noteq> HMM_S"
proof -
  obtain weight path where t: "viterbi_tables F m rs = (weight, path)" by (cases "viterbi_tables F m rs")
  let ?X = "length rs"
  define stat where "stat = (if weight ! (?X - 1 + HMM_E * ?X) \<ge> weight ! (?X - 1 + HMM_S * ?X) then HMM_E else HMM_S)"
  have f: "filled F m rs ?X 0 (weight, path)" using viterbi_tables_filled [OF assms] t by metis
  have v: "Viterbi F m rs = viterbi_back path ?X ?X stat (replicate ?X 0)"
    by (simp add: Viterbi_def t Let_def stat_def)
  have w: "weight ! (?X - 1 + y * ?X) = fst (vit F m rs (?X - 1) y)" if "y < STATUS_SUM" for y
    using f that assms by (auto simp: filled_def prod_eq_iff)
  have "stat < STATUS_SUM" by (simp add: stat_def HMM_E_def HMM_S_def STATUS_SUM_def)
  note b = viterbi_back_spec [OF f order_refl this _ v]
  then show l: "length (Viterbi F m rs) = ?X" and "\<forall>y \<in> set (Viterbi F m rs). y < STATUS_SUM"
    by (auto simp: all_set_conv_all_nth)
  have "last (Viterbi F m rs) = stat"
    using b l assms by (subst last_conv_nth) auto
  then show "last (Viterbi F m rs) = HMM_E \<or> last (Viterbi F m rs) = HMM_S"
    and "fst (vit F m rs (?X - 1) y) \<le> fst (vit F m rs (?X - 1) (last (Viterbi F m rs))) \<or>
      y \<noteq> HMM_E \<and> y \<noteq> HMM_S"
    using w [of HMM_E] w [of HMM_S]
    by (auto simp: stat_def HMM_E_def HMM_S_def STATUS_SUM_def)
  show "Suc j < ?X \<Longrightarrow> int (Viterbi F m rs ! j) = snd (vit F m rs (Suc j) (Viterbi F m rs ! Suc j))"
    using b by auto
qed

section \<open>The words tile the range\<close>

lemma status_cuts_tiles:
  "status \<noteq> [] \<Longrightarrow> last status mod 2 \<noteq> 0 \<Longrightarrow> l \<le> i \<Longrightarrow> tiles l (i + length status) (status_cuts l i status)"
proof (induction l i status rule: status_cuts.induct)
  case (2 l i s status)
  then show ?case by (cases "status = []") auto
qed simp

lemma InternalCut_tiles:
  assumes "b < e" and "e \<le> length rs"
  shows "tiles b e (InternalCut F m rs b e)"
proof -
  let ?rs = "map rune (slice rs b e)"
  have l: "length ?rs = e - b" using assms by simp
  then have n: "?rs \<noteq> []" using assms(1) by (metis list.size(3) less_irrefl zero_less_diff)
  have "last (Viterbi F m ?rs) mod 2 \<noteq> 0"
    using Viterbi_spec(3) [OF n, of F m] by (auto simp: HMM_E_def HMM_S_def)
  moreover have "Viterbi F m ?rs \<noteq> []" and "length (Viterbi F m ?rs) = e - b"
    using Viterbi_spec(1) [OF n, of F m] l n by auto
  ultimately show ?thesis
    using status_cuts_tiles [of "Viterbi F m ?rs" b b] assms by (simp add: InternalCut_def)
qed

lemma hmm_cut_from_tiles:
  "l \<le> r \<Longrightarrow> r \<le> e \<Longrightarrow> e \<le> length rs \<Longrightarrow> tiles l e (hmm_cut_from F m rs l r e)"
proof (induction F m rs l r e rule: hmm_cut_from.induct)
  case (1 F m rs l r e)
  let ?p = "if l \<noteq> r then InternalCut F m rs l r else []"
  have p: "tiles l r ?p" using "1.prems" by (auto intro: InternalCut_tiles)
  show ?case
  proof (cases "r < e")
    case False
    with "1.prems" have "r = e" by simp
    with p show ?thesis by (subst hmm_cut_from.simps) simp
  next
    case r: True
    show ?thesis
    proof (cases "rune (rs ! r) < 0x80")
      case False
      with r "1.prems" "1.IH"(2) show ?thesis by (simp add: hmm_cut_from.simps [of F m rs l r e])
    next
      case True
      note b = ascii_end_bounds [OF r, of rs]
      have "tiles (ascii_end rs r e) e (hmm_cut_from F m rs (ascii_end rs r e) (ascii_end rs r e) e)"
        using "1.IH"(1) [OF r True refl refl] b "1.prems" by simp
      moreover have "r \<le> ascii_end rs r e - 1" and "ascii_end rs r e - 1 < e" using b by linarith+
      ultimately have "tiles r e (\<lparr>left = r, right = ascii_end rs r e - 1\<rparr> #
          hmm_cut_from F m rs (ascii_end rs r e) (ascii_end rs r e) e)" using b by simp
      from tiles_append [OF p this] r True show ?thesis
        by (simp add: hmm_cut_from.simps [of F m rs l r e] Let_def)
    qed
  qed
qed

text \<open>The configuration of the segmenter is the machine's arithmetic and the model, and every one will do.\<close>

interpretation hmm: range_segmenter "\<lambda>(F, m). HMMSegment_Cut F m" "\<lambda>_. True"
  by unfold_locales (auto simp: HMMSegment_Cut_def intro!: hmm_cut_from_tiles)

text \<open>
  C18: The Viterbi algorithm gives one state per rune, ends in a state that closes a word, and no other such
  state sequence has a larger weight. The hypotheses: a rounding that keeps order and the numbers it
  has produced, log-probabilities in the model, and some sequence whose weight has not fallen to \<open>MIN_DOUBLE\<close>.
\<close>

theorem viterbi_optimal:
  assumes "rounding F" and "log_probs m" and "rs \<noteq> []"
    and "\<exists>ys. states_for rs ys \<and> MIN_DOUBLE < states_weight F m rs ys (length rs - 1)"
  shows "states_for rs (Viterbi F m rs) \<and>
    (\<forall>ys. states_for rs ys \<longrightarrow>
       states_weight F m rs ys (length rs - 1) \<le> states_weight F m rs (Viterbi F m rs) (length rs - 1))"
proof -
  let ?st = "Viterbi F m rs" and ?n = "length rs - 1"
  note v = Viterbi_spec [OF assms(3)]
  have mono: "mono (rnd F)" using assms(1) by (simp add: rounding_def)
  have st: "states_for rs ?st" using v(1-3) by (simp add: states_for_def)
  have le: "states_weight F m rs ys ?n \<le> fst (vit F m rs ?n (?st ! ?n))" if "states_for rs ys" for ys
  proof -
    have "ys \<noteq> []" and "?st \<noteq> []"
      using that v(1) [of F m] assms(3) by (auto simp: states_for_def)
    then have "ys \<noteq> []" and "last ys = ys ! ?n" and "last ?st = ?st ! ?n"
      using that v(1) [of F m] by (auto simp: states_for_def last_conv_nth)
    with states_weight_le [OF mono, of ys ?n m rs] v(5) [of F m "ys ! ?n"] that assms(3)
    show ?thesis by (auto simp: states_for_def)
  qed
  have "states_weight F m rs ?st ?n = fst (vit F m rs ?n (?st ! ?n))"
  proof (rule chosen_weight [OF assms(1,2) v(2) v(4)])
    show "MIN_DOUBLE < fst (vit F m rs ?n (?st ! ?n))"
      using assms(4) le less_le_trans by blast
  qed (use v(1) [of F m] assms(3) in auto)
  with st le show ?thesis by simp
qed

definition sample_hmm_text :: string where
  "sample_hmm_text = concat (map (\<lambda>l. l @ [NL])
     [''# start'', ''-1 -9 -9 -2'', ''-9 -1 -2 -9'', ''-1 -9 -9 -1'', ''-9 -1 -2 -9'', ''-1 -9 -9 -1'',
      ''a:-1,b:-2'', ''b:-1'', ''a:-3'', ''b:-2,c:-1''])"

definition sample_hmm :: HMMModel where
  "sample_hmm = \<lparr>startProb = [-1, -9, -9, -2],
     transProb = [[-9, -1, -2, -9], [-1, -9, -9, -1], [-9, -1, -2, -9], [-1, -9, -9, -1]],
     emitProbB = [0x61 \<mapsto> -1, 0x62 \<mapsto> -2], emitProbE = [0x62 \<mapsto> -1], emitProbM = [0x61 \<mapsto> -3],
     emitProbS = [0x62 \<mapsto> -2, 0x63 \<mapsto> -1]\<rparr>"

lemma log_probs_sample: "log_probs sample_hmm"
  by (auto simp: log_probs_def sample_hmm_def emitProbVec_def STATUS_SUM_def ran_def numeral_eq_Suc less_Suc_eq
      split: if_splits)

lemma rounding_sample: "rounding sample_env"
  by (simp add: rounding_def) (simp add: sample_env_def)

theorem viterbi_optimal_witness:
  "states_weight sample_env sample_hmm [0x61, 0x62, 0x63] [0, 1, 3] 2 \<le>
   states_weight sample_env sample_hmm [0x61, 0x62, 0x63] (Viterbi sample_env sample_hmm [0x61, 0x62, 0x63]) 2"
proof -
  let ?rs = "[0x61, 0x62, 0x63] :: Rune list"
  have s: "states_for ?rs [0, 1, 3]" by code_simp
  moreover have l: "length ?rs - 1 = 2" by simp
  moreover have "MIN_DOUBLE < states_weight sample_env sample_hmm ?rs [0, 1, 3] 2" by code_simp
  ultimately have "\<exists>ys. states_for ?rs ys \<and>
      MIN_DOUBLE < states_weight sample_env sample_hmm ?rs ys (length ?rs - 1)"
    unfolding l by blast
  from viterbi_optimal [OF rounding_sample log_probs_sample _ this, unfolded l] s show ?thesis by blast
qed

text \<open>
  The words of \<open>HMMSegment::Cut\<close> put together give the sentence back, byte for byte, for every model,
  every rounding and every set of separators; a sentence that is not UTF-8 gives no words.
\<close>

theorem hmm_cut_concat:
  "concat (HMMSegment_Cut_sentence F m syms s) = (if fst (DecodeRunesInString s) then s else [])"
  using hmm.concat_Cut_strings [of "(F, m)" syms s] by (simp add: HMMSegment_Cut_sentence_def)

section \<open>ASCII words\<close>

lemma skip_while_all: "b \<le> k \<Longrightarrow> k < skip_while P rs b e \<Longrightarrow> P (rune (rs ! k))"
proof (induction P rs b e rule: skip_while.induct)
  case (1 P rs b e)
  then show ?case
    by (cases "b < e \<and> P (rune (rs ! b))"; cases "k = b") (auto simp: skip_while.simps [of P rs b e])
qed

lemma ascii_classes: "is_letter x \<Longrightarrow> x < 0x80" "is_number x \<Longrightarrow> x < 0x80" "x = 0x2E \<Longrightarrow> x < 0x80"
  by (auto simp: is_letter_def is_number_def elim!: order_le_less_trans)

lemma ascii_end_ascii:
  assumes "rune (rs ! l) < 0x80" and "l \<le> k" and "k < ascii_end rs l e"
  shows "rune (rs ! k) < 0x80"
proof (cases "k = l")
  case False
  with assms(2) have k: "Suc l \<le> k" by simp
  have s: "rune (rs ! k) < 0x80" if "k < skip_while P rs (Suc l) e" "\<And>x. P x \<Longrightarrow> x < 0x80" for P
    using skip_while_all [OF k that(1)] that(2) by blast
  have "k < skip_while (\<lambda>x. is_letter x \<or> is_number x) rs (Suc l) e \<or>
      k < skip_while (\<lambda>x. is_number x \<or> x = 0x2E) rs (Suc l) e"
    using assms(3) k by (auto simp: ascii_end_def SequentialLetterRule_def NumbersRule_def split: if_splits)
  then show ?thesis using s ascii_classes by blast
qed (use assms in simp)

lemma status_cuts_inside: "w \<in> set (status_cuts l i status) \<Longrightarrow> l \<le> i \<Longrightarrow> l \<le> left w \<and> right w < i + length status"
proof (induction l i status rule: status_cuts.induct)
  case (2 l i s status)
  then show ?case by (auto split: if_splits)
qed simp

definition unmixed :: "RuneStr list \<Rightarrow> WordRange \<Rightarrow> bool" where
  "unmixed rs w \<longleftrightarrow> (\<forall>k. left w \<le> k \<longrightarrow> k \<le> right w \<longrightarrow> rune (rs ! k) < 0x80) \<or>
     (\<forall>k. left w \<le> k \<longrightarrow> k \<le> right w \<longrightarrow> \<not> rune (rs ! k) < 0x80)"

lemma InternalCut_unmixed:
  assumes "l < r" and "r \<le> length rs" and "\<And>k. l \<le> k \<Longrightarrow> k < r \<Longrightarrow> \<not> rune (rs ! k) < 0x80"
    and "w \<in> set (InternalCut F m rs l r)"
  shows "unmixed rs w"
proof -
  have "inside l r (InternalCut F m rs l r)"
    using InternalCut_tiles [OF assms(1,2)] tiles_inside by blast
  with assms(3,4) show ?thesis by (auto simp: inside_def unmixed_def)
qed

lemma hmm_cut_from_unmixed:
  "l \<le> r \<Longrightarrow> r \<le> e \<Longrightarrow> e \<le> length rs \<Longrightarrow> (\<And>k. l \<le> k \<Longrightarrow> k < r \<Longrightarrow> \<not> rune (rs ! k) < 0x80) \<Longrightarrow>
   w \<in> set (hmm_cut_from F m rs l r e) \<Longrightarrow> unmixed rs w"
proof (induction F m rs l r e rule: hmm_cut_from.induct)
  case (1 F m rs l r e)
  have p: "unmixed rs w" if "l \<noteq> r" "w \<in> set (InternalCut F m rs l r)"
    using InternalCut_unmixed [of l r rs w F m] that "1.prems" by auto
  show ?case
  proof (cases "r < e")
    case False
    with p "1.prems"(5) show ?thesis by (auto simp: hmm_cut_from.simps [of F m rs l r e] split: if_splits)
  next
    case r: True
    show ?thesis
    proof (cases "rune (rs ! r) < 0x80")
      case False
      have "unmixed rs w" if "w \<in> set (hmm_cut_from F m rs l (r + 1) e)"
        by (rule "1.IH"(2) [OF r False]) (use that "1.prems" r False in \<open>auto simp: less_Suc_eq\<close>)
      with r False "1.prems"(5) show ?thesis by (simp add: hmm_cut_from.simps [of F m rs l r e])
    next
      case True
      note b = ascii_end_bounds [OF r, of rs]
      have "unmixed rs w" if "w \<in> set (hmm_cut_from F m rs (ascii_end rs r e) (ascii_end rs r e) e)"
        by (rule "1.IH"(1) [OF r True refl refl]) (use that b "1.prems" in auto)
      moreover have "unmixed rs \<lparr>left = r, right = ascii_end rs r e - 1\<rparr>"
        using b ascii_end_ascii [OF True, of _ e] by (auto simp: unmixed_def)
      ultimately show ?thesis
        using r True "1.prems"(5) p
        by (auto simp: hmm_cut_from.simps [of F m rs l r e] Let_def split: if_splits)
    qed
  qed
qed

text \<open>
  No word of the hidden Markov segmenter mixes ASCII and other runes: the words that the letter and
  number rules take are ASCII, and the words that the Viterbi algorithm finds are not.
\<close>

theorem hmm_words_unmixed:
  assumes "b \<le> e" and "e \<le> length rs" and "w \<in> set (HMMSegment_Cut F m rs b e)"
  shows "(\<forall>k. left w \<le> k \<longrightarrow> k \<le> right w \<longrightarrow> rune (rs ! k) < 0x80) \<or>
     (\<forall>k. left w \<le> k \<longrightarrow> k \<le> right w \<longrightarrow> \<not> rune (rs ! k) < 0x80)"
  using hmm_cut_from_unmixed [of b b e rs w F m] assms by (simp add: HMMSegment_Cut_def unmixed_def)

theorem hmm_words_unmixed_witness:
  "\<exists>w. w \<in> set (HMMSegment_Cut sample_env sample_hmm (snd (DecodeRunesInString ''ab1.5'')) 0 5) \<and>
     ((\<forall>k. left w \<le> k \<longrightarrow> k \<le> right w \<longrightarrow> rune (snd (DecodeRunesInString ''ab1.5'') ! k) < 0x80) \<or>
      (\<forall>k. left w \<le> k \<longrightarrow> k \<le> right w \<longrightarrow> \<not> rune (snd (DecodeRunesInString ''ab1.5'') ! k) < 0x80))"
proof -
  let ?r = "snd (DecodeRunesInString ''ab1.5'')"
  have "hd (HMMSegment_Cut sample_env sample_hmm ?r 0 5) \<in> set (HMMSegment_Cut sample_env sample_hmm ?r 0 5)"
    and "length ?r = 5" by code_simp+
  with hmm_words_unmixed [of 0 5 ?r _ sample_env sample_hmm] show ?thesis by auto
qed

section \<open>Loading a model\<close>

lemma load_prob_row_length: "load_prob_row F f = Inr (row, rest) \<Longrightarrow> length row = STATUS_SUM"
  by (auto simp: load_prob_row_def Let_def split: option.splits if_splits)

lemma load_prob_rows_length:
  "load_prob_rows F n f = Inr (rows, rest) \<Longrightarrow> length rows = n \<and> (\<forall>row \<in> set rows. length row = STATUS_SUM)"
proof (induction n arbitrary: f rows)
  case (Suc n)
  then show ?case
    by (auto dest: load_prob_row_length split: sum.splits prod.splits)
qed simp

text \<open>An entry \<open>rune:probability\<close> of an emission line, and whether it is one.\<close>

definition emit_entry_ok :: "string \<Rightarrow> bool" where
  "emit_entry_ok entry \<longleftrightarrow> length (Split entry '':'') = 2 \<and>
     fst (DecodeRunesInString_Unicode (Split entry '':'' ! 0)) \<and>
     length (snd (DecodeRunesInString_Unicode (Split entry '':'' ! 0))) = 1"

definition emit_entry :: "fpenv \<Rightarrow> string \<Rightarrow> Rune \<times> real" where
  "emit_entry F entry =
     (snd (DecodeRunesInString_Unicode (Split entry '':'' ! 0)) ! 0, atof F (Split entry '':'' ! 1))"

lemma load_emit_entries_eq:
  "load_emit_entries F es mp = (True, mp') \<longleftrightarrow>
     list_all emit_entry_ok es \<and> mp' = mp ++ map_of (rev (map (emit_entry F) es))"
proof (induction F es mp rule: load_emit_entries.induct)
  case (2 F entry tmp mp)
  obtain ok u where u: "DecodeRunesInString_Unicode (Split entry '':'' ! 0) = (ok, u)" by fastforce
  show ?case
  proof (cases "emit_entry_ok entry")
    case True
    with u have c: "length (Split entry '':'') = 2" "ok" "length u = 1" by (auto simp: emit_entry_ok_def)
    then have "load_emit_entries F (entry # tmp) mp =
        load_emit_entries F tmp (mp(u ! 0 \<mapsto> atof F (Split entry '':'' ! 1)))"
      using u by simp
    moreover have "(load_emit_entries F tmp (mp(u ! 0 \<mapsto> atof F (Split entry '':'' ! 1))) = (True, mp')) \<longleftrightarrow>
        list_all emit_entry_ok tmp \<and>
        mp' = mp(u ! 0 \<mapsto> atof F (Split entry '':'' ! 1)) ++ map_of (rev (map (emit_entry F) tmp))"
      by (rule "2.IH" [OF refl _ u [symmetric]]) (use c in auto)
    moreover have "emit_entry F entry = (u ! 0, atof F (Split entry '':'' ! 1))"
      by (simp add: emit_entry_def u)
    moreover have "mp ++ map_of (rev (map (emit_entry F) (entry # tmp))) =
        mp(u ! 0 \<mapsto> atof F (Split entry '':'' ! 1)) ++ map_of (rev (map (emit_entry F) tmp))"
      using \<open>emit_entry F entry = _\<close> by (auto simp: fun_eq_iff map_add_def split: option.splits)
    ultimately show ?thesis using True by (simp only: list.pred_inject simp_thms)
  next
    case False
    then have "fst (load_emit_entries F (entry # tmp) mp) = False"
      using u by (auto simp: emit_entry_ok_def Let_def)
    with False show ?thesis by (cases "load_emit_entries F (entry # tmp) mp") auto
  qed
qed auto

text \<open>
  Loading a model gives a model of the full dimensions: four start probabilities, four rows of four
  transition probabilities. A file that cannot be opened, or one with a line of another length, does
  not get that far.
\<close>

theorem hmm_load_dimensions:
  assumes "LoadModel F fs path = Inr m"
  shows "fs path \<noteq> None \<and> hmm_ok m"
  using assms unfolding LoadModel_def
  by (auto simp: hmm_ok_def dest!: load_prob_row_length load_prob_rows_length
      split: option.splits sum.splits prod.splits)

theorem hmm_load_dimensions_witness:
  "\<exists>m. LoadModel sample_env [''hmm'' \<mapsto> sample_hmm_text] ''hmm'' = Inr m \<and> hmm_ok m"
proof -
  have "\<not> isl (LoadModel sample_env [''hmm'' \<mapsto> sample_hmm_text] ''hmm'')"
    by code_simp
  then show ?thesis
    using hmm_load_dimensions [of sample_env "[''hmm'' \<mapsto> sample_hmm_text]" "''hmm''"]
    by (cases "LoadModel sample_env [''hmm'' \<mapsto> sample_hmm_text] ''hmm''") auto
qed

text \<open>
  An emission line is accepted when each of its comma-separated entries is one rune, a colon and a
  probability, and then the map holds for every rune the last entry of the line for it.
\<close>

theorem hmm_load_emission:
  "LoadEmitProb F line mp = (True, mp') \<longleftrightarrow>
     line \<noteq> [] \<and> list_all emit_entry_ok (Split line '','') \<and>
     mp' = mp ++ map_of (rev (map (emit_entry F) (Split line '','')))"
  by (simp add: LoadEmitProb_def load_emit_entries_eq)

end
