(* ===== verification/MixSegment.thy ===== *)
theory MixSegment imports MPSegment HMM begin

text \<open>
  \<open>cppjieba/MixSegment.hpp\<close> and \<open>cppjieba/PosTagger.hpp\<close>: dictionary words first, and the hidden Markov
  model for the runs of single runes between them; the part-of-speech tags of the words.

  \<open>mix\<close> interprets \<open>range_segmenter\<close>: mixed segmentation tiles its range too.
\<close>

section \<open>Mixed segmentation\<close>

text \<open>A word of the dictionary cut that stays as it is: longer than a rune, or a user word of one rune.\<close>

definition mp_word_stays :: "DictTrie \<Rightarrow> RuneStr list \<Rightarrow> WordRange \<Rightarrow> bool" where
  "mp_word_stays d rs w \<longleftrightarrow> left w \<noteq> right w \<or>
     (left w = right w \<and> IsUserDictSingleChineseWord d (rune (rs ! left w)))"

text \<open>The loop over the words of the dictionary cut. The words that the inner loop collects are the
longest run that does not stay; the hidden Markov model gets its runes.\<close>

function mix_words :: "fpenv \<Rightarrow> DictTrie \<Rightarrow> HMMModel \<Rightarrow> RuneStr list \<Rightarrow> WordRange list \<Rightarrow> WordRange list" where
  "mix_words E d m rs [] = []"
| "mix_words E d m rs (w # ws) =
     (if mp_word_stays d rs w then w # mix_words E d m rs ws
      else (let run = w # takeWhile (\<lambda>v. \<not> mp_word_stays d rs v) ws;
                rest = dropWhile (\<lambda>v. \<not> mp_word_stays d rs v) ws
            in HMMSegment_Cut E m rs (left w) (left (last run) + 1) @ mix_words E d m rs rest))"
  by pat_completeness auto
termination
  by (relation "measure (\<lambda>(E, d, m, rs, ws). length ws)") (auto simp: less_Suc_eq_le length_dropWhile_le)

definition MixSegment_Cut ::
  "fpenv \<Rightarrow> DictTrie \<Rightarrow> HMMModel \<Rightarrow> bool \<Rightarrow> RuneStr list \<Rightarrow> nat \<Rightarrow> nat \<Rightarrow> WordRange list" where
  "MixSegment_Cut E d m hmm rs b e =
     (if \<not> hmm then MPSegment_Cut E d rs b e
      else mix_words E d m rs (MPSegment_Cut E d rs b e))"

text \<open>\<open>Cut(sentence, words, hmm)\<close>, for vectors of words and of strings.\<close>

definition MixSegment_Cut_words ::
  "fpenv \<Rightarrow> DictTrie \<Rightarrow> HMMModel \<Rightarrow> Rune set \<Rightarrow> string \<Rightarrow> bool \<Rightarrow> Word list" where
  "MixSegment_Cut_words E d m syms sentence hmm = Cut_words (MixSegment_Cut E d m hmm) syms sentence"

definition MixSegment_Cut_sentence ::
  "fpenv \<Rightarrow> DictTrie \<Rightarrow> HMMModel \<Rightarrow> Rune set \<Rightarrow> string \<Rightarrow> bool \<Rightarrow> string list" where
  "MixSegment_Cut_sentence E d m syms sentence hmm = Cut_strings (MixSegment_Cut E d m hmm) syms sentence"

section \<open>Part-of-speech tags\<close>

definition POS_M :: string where "POS_M = ''m''"
definition POS_ENG :: string where "POS_ENG = ''eng''"
definition POS_X :: string where "POS_X = ''x''"

text \<open>The loop of \<open>SpecialRule\<close> for a word of \<open>n\<close> runes: it stops once half of the runes are ASCII.\<close>

fun special_count :: "nat \<Rightarrow> RuneStr list \<Rightarrow> nat \<Rightarrow> nat \<Rightarrow> nat \<times> nat" where
  "special_count n [] m eng = (m, eng)"
| "special_count n (r # rs) m eng =
     (if eng < n div 2 then
        (if rune r < 0x80 then
           special_count n rs (if 0x30 \<le> rune r \<and> rune r \<le> 0x39 then m + 1 else m) (eng + 1)
         else special_count n rs m eng)
      else (m, eng))"

definition SpecialRule :: "RuneStr list \<Rightarrow> string" where
  "SpecialRule unicode =
     (let (m, eng) = special_count (length unicode) unicode 0 0
      in if eng = 0 then POS_X else if m = eng then POS_M else POS_ENG)"

definition LookupTag :: "DictTrie \<Rightarrow> string \<Rightarrow> string" where
  "LookupTag d str =
     (let (ok, runes) = DecodeRunesInString str in
      if \<not> ok then POS_X
      else (case Find_runes d runes of
              None \<Rightarrow> SpecialRule runes
            | Some u \<Rightarrow> if du_tag u = [] then SpecialRule runes else du_tag u))"

text \<open>\<open>Tag\<close>: the result, and the pairs that were appended to \<open>res\<close>, which the caller passes empty.\<close>

definition Tag ::
  "fpenv \<Rightarrow> DictTrie \<Rightarrow> HMMModel \<Rightarrow> Rune set \<Rightarrow> string \<Rightarrow> bool \<times> (string \<times> string) list" where
  "Tag E d m syms src =
     (let res = map (\<lambda>w. (w, LookupTag d w)) (MixSegment_Cut_sentence E d m syms src True)
      in (res \<noteq> [], res))"

section \<open>Mixed segmentation tiles\<close>

lemma tiles_split: "tiles i j (xs @ ys) \<Longrightarrow> \<exists>k. tiles i k xs \<and> tiles k j ys"
proof (induction xs arbitrary: i)
  case (Cons x xs)
  then obtain k where k: "tiles (Suc (right x)) k xs" "tiles k j ys" by auto
  then have "right x < k" using tiles_le by fastforce
  with Cons.prems k show ?case by auto
qed simp

lemma tiles_end: "tiles i j (xs @ [x]) \<Longrightarrow> j = Suc (right x)"
  by (induction xs arbitrary: i) auto

lemma mix_words_tiles:
  "tiles b e ws \<Longrightarrow> e \<le> length rs \<Longrightarrow> tiles b e (mix_words E d m rs ws)"
proof (induction E d m rs ws arbitrary: b rule: mix_words.induct)
  case (2 E d m rs w ws)
  show ?case
  proof (cases "mp_word_stays d rs w")
    case True
    with "2.IH"(1) "2.prems" show ?thesis by simp
  next
    case False
    let ?run = "w # takeWhile (\<lambda>v. \<not> mp_word_stays d rs v) ws"
    let ?rest = "dropWhile (\<lambda>v. \<not> mp_word_stays d rs v) ws"
    have "w # ws = ?run @ ?rest" by simp
    with "2.prems"(1) tiles_split obtain k where k: "tiles b k ?run" "tiles k e ?rest" by metis
    have "last ?run \<in> set ?run" by (rule last_in_set) simp
    with False have "\<not> mp_word_stays d rs (last ?run)"
      by (auto dest: set_takeWhileD simp del: last.simps last_in_set)
    then have "left (last ?run) = right (last ?run)" by (auto simp: mp_word_stays_def)
    moreover have "k = Suc (right (last ?run))"
      using k(1) tiles_end [of b k "butlast ?run" "last ?run"] by (simp del: last.simps butlast.simps)
    ultimately have e: "left (last ?run) + 1 = k" by simp
    have b: "left w = b" "b < k" using k(1) tiles_le [of "Suc (right w)" k] by auto
    have "tiles b k (HMMSegment_Cut E m rs b k)"
      using hmm.cut_tiles [where c = "(E, m)" and b = b and e = k and rs = rs] b tiles_le [OF k(2)] "2.prems"(2) by simp
    moreover have "tiles k e (mix_words E d m rs ?rest)"
      by (rule "2.IH"(2) [OF False refl refl k(2) "2.prems"(2)])
    ultimately show ?thesis
      using False e b by (simp del: last.simps add: tiles_append)
  qed
qed simp

interpretation mix: range_segmenter
  "\<lambda>(E, d, m, hmm). MixSegment_Cut E d m hmm" "\<lambda>(E, d, m, hmm). dict_ok d"
proof (unfold_locales, clarify)
  fix E d m hmm b e and rs :: "RuneStr list"
  assume "dict_ok d" and "b < e" and e: "e \<le> length rs"
  then have "tiles b e (MPSegment_Cut E d rs b e)"
    unfolding MPSegment_Cut_def by (intro MPSegment_Cut_max_tiles)
  with e show "tiles b e (MixSegment_Cut E d m hmm rs b e)"
    by (simp add: MixSegment_Cut_def mix_words_tiles)
qed



text \<open>The tags of a sentence are those of its words, each looked up by itself.\<close>

lemma map_fst_Tag [simp]: "map fst (snd (Tag E d m syms src)) = MixSegment_Cut_sentence E d m syms src True"
  by (simp add: Tag_def Let_def comp_def)

lemma special_count_le: "m \<le> eng \<Longrightarrow> special_count n rs m eng = (m', eng') \<Longrightarrow> m' \<le> eng' \<and> eng' \<le> max eng (n div 2)"
  by (induction n rs m eng rule: special_count.induct) (fastforce split: if_splits)+

text \<open>
  A word that the dictionary has with a tag gets that tag. The special rule for the others looks at no
  more than half of the runes, so a single ASCII rune, letter or digit, gets the tag for an unknown
  word and not the one for a number or for English.
\<close>

theorem lookup_tag:
  "LookupTag d str =
     (case DecodeRunesInString str of (ok, rs) \<Rightarrow>
        if ok \<and> Find_runes d rs \<noteq> None \<and> du_tag (the (Find_runes d rs)) \<noteq> [] then du_tag (the (Find_runes d rs))
        else if ok \<and> 2 \<le> length rs then SpecialRule rs else POS_X)"
proof -
  have "SpecialRule rs = POS_X" if "length rs < 2" for rs
    using that by (cases rs) (auto simp: SpecialRule_def)
  then show ?thesis
    by (auto simp: LookupTag_def Let_def not_le split: prod.splits option.splits)
qed

end
