(* ===== verification/QuerySegment.thy ===== *)
theory QuerySegment imports MixSegment begin

text \<open>
  \<open>cppjieba/QuerySegment.hpp\<close>: the segmentation of \<open>Jieba::CutForSearch\<close>, which the search engine uses
  for documents and queries. Before each long word of the mixed segmentation it puts the dictionary
  words of two and three runes inside it.

  \<open>query\<close> interprets \<open>range_cutter\<close>; the words of the mixed segmentation stay, in their order.
\<close>

section \<open>The cut\<close>

text \<open>The loop for the inner words of \<open>k\<close> runes of \<open>w\<close>.\<close>

definition inner_words :: "DictTrie \<Rightarrow> RuneStr list \<Rightarrow> nat \<Rightarrow> WordRange \<Rightarrow> WordRange list" where
  "inner_words d rs k w =
     filter (\<lambda>wr. Find_runes d (slice rs (left wr) (right wr + 1)) \<noteq> None)
       (map (\<lambda>i. \<lparr>left = left w + i, right = left w + i + (k - 1)\<rparr>) [0..<Length w - (k - 1)])"

definition query_word :: "DictTrie \<Rightarrow> RuneStr list \<Rightarrow> WordRange \<Rightarrow> WordRange list" where
  "query_word d rs w =
     (if 2 < Length w then inner_words d rs 2 w else []) @
     (if 3 < Length w then inner_words d rs 3 w else []) @ [w]"

definition QuerySegment_Cut ::
  "fpenv \<Rightarrow> DictTrie \<Rightarrow> HMMModel \<Rightarrow> bool \<Rightarrow> RuneStr list \<Rightarrow> nat \<Rightarrow> nat \<Rightarrow> WordRange list" where
  "QuerySegment_Cut E d m hmm rs b e =
     concat (map (query_word d rs) (MixSegment_Cut E d m hmm rs b e))"

definition QuerySegment_Cut_words ::
  "fpenv \<Rightarrow> DictTrie \<Rightarrow> HMMModel \<Rightarrow> Rune set \<Rightarrow> string \<Rightarrow> bool \<Rightarrow> Word list" where
  "QuerySegment_Cut_words E d m syms sentence hmm = Cut_words (QuerySegment_Cut E d m hmm) syms sentence"

definition QuerySegment_Cut_sentence ::
  "fpenv \<Rightarrow> DictTrie \<Rightarrow> HMMModel \<Rightarrow> Rune set \<Rightarrow> string \<Rightarrow> bool \<Rightarrow> string list" where
  "QuerySegment_Cut_sentence E d m syms sentence hmm = Cut_strings (QuerySegment_Cut E d m hmm) syms sentence"

section \<open>Which words come out\<close>

lemma inner_words_iff:
  "0 < k \<Longrightarrow> v \<in> set (inner_words d rs k w) \<longleftrightarrow>
     left w \<le> left v \<and> right v = left v + (k - 1) \<and> right v < left w + Length w \<and>
     Find_runes d (slice rs (left v) (Suc (right v))) \<noteq> None"
proof
  assume k: "0 < k"
    and r: "left w \<le> left v \<and> right v = left v + (k - 1) \<and> right v < left w + Length w \<and>
      Find_runes d (slice rs (left v) (Suc (right v))) \<noteq> None"
  then have "v = \<lparr>left = left w + (left v - left w), right = left w + (left v - left w) + (k - 1)\<rparr>"
    by (cases v) simp
  moreover have "left v - left w \<in> set [0..<Length w - (k - 1)]"
    using r unfolding set_upt atLeastLessThan_iff by linarith
  ultimately have "v \<in> set (map (\<lambda>i. \<lparr>left = left w + i, right = left w + i + (k - 1)\<rparr>) [0..<Length w - (k - 1)])"
    unfolding set_map by (rule image_eqI)
  moreover have "Find_runes d (slice rs (left v) (right v + 1)) \<noteq> None"
    using r unfolding Suc_eq_plus1 by blast
  ultimately show "v \<in> set (inner_words d rs k w)" unfolding inner_words_def set_filter by blast
qed (auto simp: inner_words_def)

lemma query_word_inside:
  assumes "b \<le> left w" and "left w \<le> right w" and "right w < e"
  shows "inside b e (query_word d rs w)"
  using assms by (auto simp: query_word_def inside_def inner_words_iff Length_def split: if_splits)

lemma subseq_query_word: "subseq [w] (query_word d rs w)"
  by (simp add: query_word_def subseq_singleton_left)

lemma subseq_QuerySegment_Cut: "subseq (MixSegment_Cut E d m hmm rs b e) (QuerySegment_Cut E d m hmm rs b e)"
proof -
  have "subseq ws (concat (map (query_word d rs) ws))" for ws
  proof (induction ws)
    case (Cons w ws)
    from list_emb_append_mono [OF subseq_query_word Cons] show ?case by simp
  qed simp
  then show ?thesis by (simp add: QuerySegment_Cut_def)
qed

interpretation query: range_cutter
  "\<lambda>(E, d, m, hmm). QuerySegment_Cut E d m hmm" "\<lambda>(E, d, m, hmm). dict_ok d"
proof (unfold_locales, clarify)
  fix E d m hmm b e and rs :: "RuneStr list"
  assume "dict_ok d" and "b < e" and "e \<le> length rs"
  then have "inside b e (MixSegment_Cut E d m hmm rs b e)"
    using mix.cut_inside [of "(E, d, m, hmm)" b e rs] by simp
  moreover have "inside b e (concat (map (query_word d rs) ws))" if "inside b e ws" for ws
    using that by (induction ws) (auto intro: query_word_inside)
  ultimately show "inside b e (QuerySegment_Cut E d m hmm rs b e)" by (simp add: QuerySegment_Cut_def)
qed

text \<open>
  Segmentation for search keeps the words of mixed segmentation, in their order, and adds exactly the
  dictionary words of two runes inside words of more than two, and those of three inside words of
  more than three.
\<close>

theorem query_cut_words:
  "subseq (MixSegment_Cut E d m hmm rs b e) (QuerySegment_Cut E d m hmm rs b e) \<and>
   set (QuerySegment_Cut E d m hmm rs b e) = set (MixSegment_Cut E d m hmm rs b e) \<union>
     {v. \<exists>w. w \<in> set (MixSegment_Cut E d m hmm rs b e) \<and> left w \<le> left v \<and> right v < left w + Length w \<and>
        (right v = left v + 1 \<and> 2 < Length w \<or> right v = left v + 2 \<and> 3 < Length w) \<and>
        Find_runes d (slice rs (left v) (Suc (right v))) \<noteq> None}"
proof -
  have "set (query_word d rs w) = {w} \<union>
      {v. left w \<le> left v \<and> right v < left w + Length w \<and>
        (right v = left v + 1 \<and> 2 < Length w \<or> right v = left v + 2 \<and> 3 < Length w) \<and>
        Find_runes d (slice rs (left v) (Suc (right v))) \<noteq> None}" for w
    by (auto simp: query_word_def inner_words_iff)
  then have "set (QuerySegment_Cut E d m hmm rs b e) = set (MixSegment_Cut E d m hmm rs b e) \<union>
     {v. \<exists>w. w \<in> set (MixSegment_Cut E d m hmm rs b e) \<and> left w \<le> left v \<and> right v < left w + Length w \<and>
        (right v = left v + 1 \<and> 2 < Length w \<or> right v = left v + 2 \<and> 3 < Length w) \<and>
        Find_runes d (slice rs (left v) (Suc (right v))) \<noteq> None}"
    by (auto simp: QuerySegment_Cut_def)
  with subseq_QuerySegment_Cut show ?thesis by simp
qed

text \<open>
  Every word that \<open>CutForSearch\<close> gives for a sentence is a non-empty part of the sentence, at the
  byte offset that it carries.
\<close>

theorem query_words_substrings:
  assumes "dict_ok d" and "w \<in> set (QuerySegment_Cut_words E d m syms s hmm)"
  shows "w_word w \<noteq> [] \<and> w_word w = take (length (w_word w)) (drop (w_offset w) s)"
  using query.Cut_words_substrings [of "(E, d, m, hmm)" w syms s] assms
  by (simp add: QuerySegment_Cut_words_def)

theorem query_words_substrings_witness:
  "\<exists>w. w \<in> set (QuerySegment_Cut_words sample_env sample_dict sample_hmm default_symbols ''abc'' True) \<and>
     w_word w \<noteq> [] \<and> w_word w = take (length (w_word w)) (drop (w_offset w) ''abc'')"
proof -
  have "QuerySegment_Cut_words sample_env sample_dict sample_hmm default_symbols ''abc'' True \<noteq> []"
    by code_simp
  then obtain w where "w \<in> set (QuerySegment_Cut_words sample_env sample_dict sample_hmm default_symbols ''abc'' True)"
    by (meson last_in_set)
  with query_words_substrings [OF sample_dict_ok this] show ?thesis by blast
qed

end
