(* ===== verification/FullSegment.thy ===== *)
theory FullSegment imports MPSegment begin

text \<open>
  \<open>cppjieba/FullSegment.hpp\<close>: all dictionary words of a sentence, with overlaps (\<open>Jieba::CutAll\<close>).

  \<open>full\<close> interprets \<open>range_cutter\<close>: the words lie inside the range. They do not tile it: \<open>wordLen\<close> is
  not reset for a rune that has no unit, so after a long word the runes without units are lost.
\<close>

section \<open>The loops\<close>

text \<open>The body of the inner loop for one of the \<open>n\<close> successors of position \<open>i\<close> (\<open>uIdx\<close> is \<open>i\<close>): the ranges
it pushes, and its state \<open>(maxIdx, wordLen)\<close> afterwards.\<close>

definition next_out :: "nat \<Rightarrow> nat \<Rightarrow> nat \<Rightarrow> nat \<times> DictUnit option \<Rightarrow> nat \<times> nat \<Rightarrow> WordRange list" where
  "next_out b i n e st =
     (let wr = \<lparr>left = b + i, right = b + fst e\<rparr>;
          single = (n = 1 \<and> fst st \<le> i)
      in (case snd e of
            None \<Rightarrow> if single then [wr] else []
          | Some u \<Rightarrow> if 2 \<le> length (du_word u) \<or> single then [wr] else []))"

definition next_state :: "nat \<Rightarrow> nat \<times> DictUnit option \<Rightarrow> nat \<times> nat \<Rightarrow> nat \<times> nat" where
  "next_state i e st =
     (let (maxIdx, wordLen) = st;
          wordLen' = (case snd e of None \<Rightarrow> wordLen | Some u \<Rightarrow> length (du_word u))
      in (if i + wordLen' > maxIdx then i + wordLen' else maxIdx, wordLen'))"

fun full_nexts :: "nat \<Rightarrow> nat \<Rightarrow> nat \<Rightarrow> (nat \<times> DictUnit option) list \<Rightarrow> nat \<times> nat \<Rightarrow> WordRange list" where
  "full_nexts b i n [] st = []"
| "full_nexts b i n (e # ns) st = next_out b i n e st @ full_nexts b i n ns (next_state i e st)"

fun full_dags :: "nat \<Rightarrow> nat \<Rightarrow> Dag list \<Rightarrow> nat \<times> nat \<Rightarrow> WordRange list" where
  "full_dags b i [] st = []"
| "full_dags b i (dag # dags) st =
     full_nexts b i (length (nexts dag)) (nexts dag) st @
     full_dags b (Suc i) dags (fold (next_state i) (nexts dag) st)"

definition FullSegment_Cut :: "DictTrie \<Rightarrow> RuneStr list \<Rightarrow> nat \<Rightarrow> nat \<Rightarrow> WordRange list" where
  "FullSegment_Cut d rs b e =
     full_dags b 0 (Find_dags (trie d) (slice rs b e) MAX_WORD_LENGTH) (0, 0)"

definition FullSegment_Cut_words :: "DictTrie \<Rightarrow> Rune set \<Rightarrow> string \<Rightarrow> Word list" where
  "FullSegment_Cut_words d syms sentence = Cut_words (FullSegment_Cut d) syms sentence"

definition FullSegment_Cut_sentence :: "DictTrie \<Rightarrow> Rune set \<Rightarrow> string \<Rightarrow> string list" where
  "FullSegment_Cut_sentence d syms sentence = Cut_strings (FullSegment_Cut d) syms sentence"

section \<open>Which words come out\<close>

lemma full_nexts_sound:
  "w \<in> set (full_nexts b i n ns st) \<Longrightarrow> \<exists>j u. (j, u) \<in> set ns \<and> w = \<lparr>left = b + i, right = b + j\<rparr>"
proof (induction b i n ns st rule: full_nexts.induct)
  case (2 b i n e ns st)
  show ?case
  proof (cases "w \<in> set (next_out b i n e st)")
    case True
    then show ?thesis
      by (intro exI [of _ "fst e"] exI [of _ "snd e"])
         (auto simp: next_out_def Let_def split: option.splits if_splits)
  next
    case False
    with 2 show ?thesis by auto
  qed
qed simp

lemma full_nexts_complete:
  "(j, Some u) \<in> set ns \<Longrightarrow> 2 \<le> length (du_word u) \<Longrightarrow>
   \<lparr>left = b + i, right = b + j\<rparr> \<in> set (full_nexts b i n ns st)"
  by (induction b i n ns st rule: full_nexts.induct) (auto simp: next_out_def Let_def)

lemma full_dags_sound:
  "w \<in> set (full_dags b i dags st) \<Longrightarrow>
   \<exists>k j u. k < length dags \<and> (j, u) \<in> set (nexts (dags ! k)) \<and> w = \<lparr>left = b + (i + k), right = b + j\<rparr>"
proof (induction b i dags st rule: full_dags.induct)
  case (2 b i dag dags st)
  from "2.prems" consider "w \<in> set (full_nexts b i (length (nexts dag)) (nexts dag) st)"
    | "w \<in> set (full_dags b (Suc i) dags (fold (next_state i) (nexts dag) st))" by auto
  then show ?case
  proof cases
    case 1
    from full_nexts_sound [OF this] obtain j u where
      "(j, u) \<in> set (nexts dag)" "w = \<lparr>left = b + i, right = b + j\<rparr>" by blast
    then show ?thesis by (intro exI [of _ 0] exI [of _ j] exI [of _ u]) simp
  next
    case 2
    from "2.IH" [OF this] obtain k j u where
      "k < length dags" "(j, u) \<in> set (nexts (dags ! k))" "w = \<lparr>left = b + (Suc i + k), right = b + j\<rparr>" by blast
    then show ?thesis by (intro exI [of _ "Suc k"] exI [of _ j] exI [of _ u]) simp
  qed
qed simp

lemma full_dags_complete:
  "k < length dags \<Longrightarrow> (j, Some u) \<in> set (nexts (dags ! k)) \<Longrightarrow> 2 \<le> length (du_word u) \<Longrightarrow>
   \<lparr>left = b + (i + k), right = b + j\<rparr> \<in> set (full_dags b i dags st)"
proof (induction b i dags st arbitrary: k rule: full_dags.induct)
  case (2 b i dag dags st)
  show ?case
  proof (cases k)
    case 0
    with full_nexts_complete [of j u "nexts dag"] "2.prems" show ?thesis by simp
  next
    case (Suc k')
    with "2.IH" [of k'] "2.prems" show ?thesis by simp
  qed
qed simp

lemma FullSegment_Cut_sound:
  assumes "e \<le> length rs" and "w \<in> set (FullSegment_Cut d rs b e)"
  shows "\<exists>k j. k \<le> j \<and> j < e - b \<and> w = \<lparr>left = b + k, right = b + j\<rparr> \<and>
    (j = k \<or> Find (trie d) (map rune (slice (slice rs b e) k (Suc j))) \<noteq> None)"
proof -
  have l: "length (slice rs b e) = e - b" using assms(1) by simp
  from full_dags_sound [OF assms(2) [unfolded FullSegment_Cut_def]] l obtain k j u where k: "k < e - b"
    "(j, u) \<in> set (nexts (Find_dags (trie d) (slice rs b e) MAX_WORD_LENGTH ! k))"
    "w = \<lparr>left = b + k, right = b + j\<rparr>" by auto
  with nexts_Find_dags [of k "slice rs b e" j u "trie d" MAX_WORD_LENGTH] l show ?thesis by auto
qed

interpretation full: range_cutter FullSegment_Cut "\<lambda>_. True"
  by unfold_locales (auto simp: inside_def dest!: FullSegment_Cut_sound)

text \<open>
  Full segmentation of a range finds every dictionary word in it of at least two and at most
  \<open>MAX_WORD_LENGTH\<close> runes; and a word range that it gives is a dictionary word or a single rune.
\<close>

theorem full_cut_words:
  assumes "dict_ok d" and "b < e" and "e \<le> length rs"
  shows "(\<forall>i j. b \<le> i \<and> i < j \<and> j < e \<and> j - i + 1 \<le> MAX_WORD_LENGTH \<and> Find_runes d (slice rs i (Suc j)) \<noteq> None \<longrightarrow>
       \<lparr>left = i, right = j\<rparr> \<in> set (FullSegment_Cut d rs b e)) \<and>
     (\<forall>w \<in> set (FullSegment_Cut d rs b e).
       left w = right w \<or> Find_runes d (slice rs (left w) (Suc (right w))) \<noteq> None)"
proof -
  let ?g = "Find_dags (trie d) (slice rs b e) MAX_WORD_LENGTH"
  have l: "length (slice rs b e) = e - b" using assms by simp
  have s: "slice (slice rs b e) i (Suc j) = slice rs (b + i) (Suc (b + j))" if "j < e - b" for i j
    using that slice_slice [of "Suc j" e b rs i] by simp
  have "\<lparr>left = i, right = j\<rparr> \<in> set (FullSegment_Cut d rs b e)"
    if w: "b \<le> i" "i < j" "j < e" "j - i + 1 \<le> MAX_WORD_LENGTH" "Find_runes d (slice rs i (Suc j)) \<noteq> None" for i j
  proof -
    from w obtain u where u: "Find (trie d) (map rune (slice rs i (Suc j))) = Some u"
      by (auto simp: Find_runes_def)
    then have "du_word u = map rune (slice rs i (Suc j))" using assms(1) by (simp add: dict_ok_def named_def)
    then have "2 \<le> length (du_word u)" using w assms(3) by simp
    moreover have "i - b < j - b" and jb: "j - b < e - b" using w by linarith+
    then have "(j - b, Some u) \<in> set (nexts (?g ! (i - b)))"
      using w u l s [OF jb, of "i - b"] by (simp add: nexts_Find_dags)
    ultimately show ?thesis
      using full_dags_complete [of "i - b" ?g "j - b" u b 0 "(0, 0)"] w assms
      by (simp add: FullSegment_Cut_def)
  qed
  moreover have "left w = right w \<or> Find_runes d (slice rs (left w) (Suc (right w))) \<noteq> None"
    if w: "w \<in> set (FullSegment_Cut d rs b e)" for w
  proof -
    from FullSegment_Cut_sound [OF assms(3) w] obtain k j where k: "k \<le> j" "j < e - b"
      "w = \<lparr>left = b + k, right = b + j\<rparr>"
      "j = k \<or> Find (trie d) (map rune (slice (slice rs b e) k (Suc j))) \<noteq> None" by blast
    with s [OF k(2), of k] show ?thesis by (auto simp: Find_runes_def)
  qed
  ultimately show ?thesis by blast
qed

theorem full_cut_words_witness:
  "\<lparr>left = 0, right = 1\<rparr> \<in> set (FullSegment_Cut sample_dict (snd (DecodeRunesInString ''ab'')) 0 2)"
proof -
  let ?r = "snd (DecodeRunesInString ''ab'')"
  have "Find_runes sample_dict (slice ?r 0 (Suc 1)) \<noteq> None" and l: "length ?r = 2" by code_simp+
  moreover have "(1 :: nat) - 0 + 1 \<le> MAX_WORD_LENGTH" by (simp add: MAX_WORD_LENGTH_def)
  ultimately show ?thesis
    using full_cut_words [OF sample_dict_ok, of 0 2 ?r] by (simp add: l)
qed

lemma full_dags_lost:
  "2 \<le> snd st \<Longrightarrow> i < fst st \<Longrightarrow> (\<And>k. k < length dags \<Longrightarrow> nexts (dags ! k) = [(i + k, None)]) \<Longrightarrow>
   full_dags b i dags st = []"
proof (induction b i dags st rule: full_dags.induct)
  case (2 b i dag dags st)
  have n: "nexts dag = [(i, None)]" using "2.prems"(3) [of 0] by simp
  have "full_dags b (Suc i) dags (fold (next_state i) (nexts dag) st) = []"
  proof (rule "2.IH")
    show "nexts (dags ! k) = [(Suc i + k, None)]" if "k < length dags" for k
      using "2.prems"(3) [of "Suc k"] that by simp
  qed (use "2.prems" n in \<open>auto simp: next_state_def Let_def split: prod.splits\<close>)
  with n "2.prems" show ?case by (simp add: next_out_def Let_def)
qed simp

lemma fold_next_state_last:
  assumes "ns \<noteq> []" and "snd (last ns) = Some u"
  shows "snd (fold (next_state i) ns st) = length (du_word u) \<and>
    i + length (du_word u) \<le> fst (fold (next_state i) ns st)"
  using assms by (induction ns rule: rev_induct) (auto simp: next_state_def Let_def split: prod.splits)

lemma nexts_single:
  assumes "i < length xs" and "\<And>j. i \<le> j \<Longrightarrow> j < length xs \<Longrightarrow> Find rt (map rune (slice xs i (Suc j))) = None"
  shows "nexts (Find_dags rt xs m ! i) = [(i, None)]"
proof -
  obtain u ns where n: "nexts (Find_dags rt xs m ! i) = (i, u) # ns"
    and ge: "\<And>e. e \<in> set ns \<Longrightarrow> i < fst e"
    using assms(1) find_nexts_ge by (fastforce simp: Find_dags_def find_dag_def Let_def)
  have one: "map rune (slice xs i (Suc i)) = [rune (xs ! i)]"
    using slice_runes [of i xs 0] assms(1) by simp
  then have "Find rt [rune (xs ! i)] = None" using assms(2) [OF order_refl assms(1)] by (simp only:)
  then have "(j, v) \<in> set (nexts (Find_dags rt xs m ! i)) \<Longrightarrow> j = i \<and> v = None" for j v
    unfolding nexts_Find_dags [OF assms(1)] using assms(2) [of j] less_imp_le [of i j] by metis
  then have only: "x = (i, None)" if "x \<in> set (nexts (Find_dags rt xs m ! i))" for x
    using that by (cases x) simp
  have "u = None" using only [of "(i, u)"] n by simp
  moreover have "ns = []"
  proof (rule ccontr)
    assume "ns \<noteq> []"
    then have "hd ns \<in> set ns" by simp
    with only [of "hd ns"] ge [of "hd ns"] n show False by simp
  qed
  ultimately show ?thesis using n by simp
qed

text \<open>
  Full segmentation loses text. When a dictionary word of several runes starts at the beginning of a
  range and none starts later in it, then all the word ranges it gives start at the beginning: the
  runes after the longest such word are in no word, because \<open>wordLen\<close> still has the length of the last
  word when \<open>maxIdx\<close> moves on.
\<close>

theorem full_cut_loses_rest:
  assumes "dict_ok d" and "e \<le> length rs"
    and "b < j" and "j < e" and "j - b + 1 \<le> MAX_WORD_LENGTH" and "Find_runes d (slice rs b (Suc j)) \<noteq> None"
    and "\<forall>k l. b < k \<and> k \<le> l \<and> l < e \<longrightarrow> Find_runes d (slice rs k (Suc l)) = None"
    and "w \<in> set (FullSegment_Cut d rs b e)"
  shows "left w = b"
proof -
  let ?xs = "slice rs b e" and ?g = "Find_dags (trie d) (slice rs b e) MAX_WORD_LENGTH"
  have l: "length ?xs = e - b" using assms(2) by simp
  have s: "slice ?xs i (Suc j) = slice rs (b + i) (Suc (b + j))" if "j < e - b" for i j
    using that slice_slice [of "Suc j" e b rs i] by simp
  obtain g gs where g: "?g = g # gs" using l assms(3,4) by (cases ?g) (auto dest: arg_cong [of _ _ length])
  then have g0: "g = ?g ! 0" and gk: "k < length gs \<Longrightarrow> gs ! k = ?g ! Suc k" for k by auto
  have lg: "Suc (length gs) = e - b" using g l by (metis length_Cons length_Find_dags)
  obtain u ns where n: "nexts g = (0, u) # ns" and ge: "\<And>e. e \<in> set ns \<Longrightarrow> 0 < fst e"
    using lg l find_nexts_ge unfolding g0 by (fastforce simp: Find_dags_def find_dag_def Let_def)
  have "(j - b, Find_runes d (slice rs b (Suc j))) \<in> set (nexts g)"
    unfolding g0 using assms(3-6) l s [of "j - b" 0] by (auto simp: nexts_Find_dags Find_runes_def)
  with n assms(3) have ns: "ns \<noteq> []" by auto
  then have last: "last ns \<in> set (nexts g)" "0 < fst (last ns)" using n ge by auto
  have "(fst (last ns), snd (last ns)) \<in> set (nexts (?g ! 0))" using last(1) g0 by simp
  with last(2) l lg obtain v where v: "snd (last ns) = Some v" and f: "fst (last ns) < e - b"
      "Find (trie d) (map rune (slice ?xs 0 (Suc (fst (last ns))))) = Some v"
    by (subst (asm) nexts_Find_dags) (auto dest: sym)
  then have "du_word v = map rune (slice ?xs 0 (Suc (fst (last ns))))"
    using assms(1) by (simp add: dict_ok_def named_def)
  with f last l have "2 \<le> length (du_word v)" by simp
  moreover note fold_next_state_last [of "nexts g" v 0 "(0, 0)"]
  moreover have "nexts (gs ! k) = [(1 + k, None)]" if "k < length gs" for k
    using nexts_single [of "Suc k" ?xs "trie d" MAX_WORD_LENGTH] that gk lg l s assms(7)
    by (simp add: Find_runes_def)
  ultimately have "full_dags b 1 gs (fold (next_state 0) (nexts g) (0, 0)) = []"
    using n ns v by (intro full_dags_lost) auto
  with assms(8) g have "w \<in> set (full_nexts b 0 (length (nexts g)) (nexts g) (0, 0))"
    by (simp add: FullSegment_Cut_def)
  from full_nexts_sound [OF this] show ?thesis by auto
qed

definition lossy_dict :: DictTrie where
  "lossy_dict = sample_dict\<lparr>trie :=
     InsertNode new_node [0x61, 0x62] \<lparr>du_word = [0x61, 0x62], du_weight = 0, du_tag = ''n''\<rparr>\<rparr>"

theorem full_cut_loses_rest_witness:
  "FullSegment_Cut lossy_dict (snd (DecodeRunesInString ''abxy'')) 0 4 = [\<lparr>left = 0, right = 1\<rparr>] \<and>
   left (hd (FullSegment_Cut lossy_dict (snd (DecodeRunesInString ''abxy'')) 0 4)) = 0"
proof -
  let ?r = "snd (DecodeRunesInString ''abxy'')"
  have "list_all (\<lambda>k. list_all (\<lambda>l. Find_runes lossy_dict (slice ?r k (Suc l)) = None) [k..<4]) [1..<4]"
    and f: "Find_runes lossy_dict (slice ?r 0 (Suc 1)) \<noteq> None" and l: "length ?r = 4"
    and out: "FullSegment_Cut lossy_dict ?r 0 4 = [\<lparr>left = 0, right = 1\<rparr>]" by code_simp+
  then have n: "\<forall>k l. 0 < k \<and> k \<le> l \<and> l < 4 \<longrightarrow> Find_runes lossy_dict (slice ?r k (Suc l)) = None"
    by (fastforce simp: list_all_iff)
  have d: "dict_ok lossy_dict"
    using named_InsertNode [OF named_new_node, of "\<lparr>du_word = [0x61, 0x62], du_weight = 0, du_tag = ''n''\<rparr>"]
    by (simp add: dict_ok_def lossy_dict_def)
  have "left (hd (FullSegment_Cut lossy_dict ?r 0 4)) = 0"
    by (rule full_cut_loses_rest [OF d _ _ _ _ f n]) (simp_all add: l out MAX_WORD_LENGTH_def)
  with out show ?thesis by simp
qed

end
