(* ===== verification/KeywordExtractor.thy ===== *)
theory KeywordExtractor imports MixSegment "HOL-Library.List_Lexorder" "HOL-Library.Char_ord" begin

text \<open>
  \<open>cppjieba/KeywordExtractor.hpp\<close>: the words of a text with the largest product of frequency and
  inverse document frequency.

  \<^item> \<open>wordmap\<close>, a \<open>std::map\<close>, is a list of entries in the order of their keys.
  \<^item> \<open>std::partial_sort\<close> leaves the order of equal weights open; the model has them in their old order.
\<close>

section \<open>State\<close>

record Keyword =
  kw_word :: string
  kw_offsets :: "nat list"
  kw_weight :: real

record KeywordExtractor =
  idfMap :: "string \<rightharpoonup> real"
  idfAverage :: real
  stopWords :: "string set"

fun load_idf_lines :: "fpenv \<Rightarrow> string list \<Rightarrow> (string \<rightharpoonup> real) \<times> real \<Rightarrow> (string \<rightharpoonup> real) \<times> real" where
  "load_idf_lines E [] st = st"
| "load_idf_lines E (line # lines) (mp, idfSum) =
     (if line = [] then load_idf_lines E lines (mp, idfSum)
      else let buf = Split line '' '' in
        if length buf \<noteq> 2 then load_idf_lines E lines (mp, idfSum)
        else let idf = atof E (buf ! 1)
             in load_idf_lines E lines (mp(buf ! 0 \<mapsto> idf), fadd E idfSum idf))"

text \<open>\<open>LoadIdfDict\<close>: the average divides by the number of all lines, the skipped ones too.\<close>

definition LoadIdfDict :: "fpenv \<Rightarrow> filesystem \<Rightarrow> string \<Rightarrow> abort + (string \<rightharpoonup> real) \<times> real" where
  "LoadIdfDict E fs idfPath =
     (case fs idfPath of
        None \<Rightarrow> Inl XCheckFailed
      | Some content \<Rightarrow>
          (let lines = read_lines content;
               (mp, idfSum) = load_idf_lines E lines (Map.empty, 0);
               average = fdiv E idfSum (of_nat (length lines))
           in if lines = [] then Inl AssertFailed
              else if \<not> 0 < average then Inl AssertFailed
              else Inr (mp, average)))"

definition LoadStopWordDict :: "filesystem \<Rightarrow> string \<Rightarrow> abort + string set" where
  "LoadStopWordDict fs filePath =
     (case fs filePath of
        None \<Rightarrow> Inl XCheckFailed
      | Some content \<Rightarrow>
          (if set (read_lines content) = {} then Inl AssertFailed else Inr (set (read_lines content))))"

definition KeywordExtractor_Init ::
  "fpenv \<Rightarrow> filesystem \<Rightarrow> string \<Rightarrow> string \<Rightarrow> abort + KeywordExtractor" where
  "KeywordExtractor_Init E fs idfPath stopWordPath =
     (case LoadIdfDict E fs idfPath of
        Inl e \<Rightarrow> Inl e
      | Inr (mp, average) \<Rightarrow>
          (case LoadStopWordDict fs stopWordPath of
             Inl e \<Rightarrow> Inl e
           | Inr stops \<Rightarrow> Inr \<lparr>idfMap = mp, idfAverage = average, stopWords = stops\<rparr>))"

section \<open>Extraction\<close>

type_synonym wordmap = "(string \<times> nat list \<times> real) list"

text \<open>\<open>wordmap[k].offsets.push_back(t); wordmap[k].weight += 1.0;\<close>\<close>

fun wordmap_add :: "fpenv \<Rightarrow> string \<Rightarrow> nat \<Rightarrow> wordmap \<Rightarrow> wordmap" where
  "wordmap_add E k t [] = [(k, [t], fadd E 0 1)]"
| "wordmap_add E k t ((k', offs, w) # wm) =
     (if k = k' then (k', offs @ [t], fadd E w 1) # wm
      else if k < k' then (k, [t], fadd E 0 1) # (k', offs, w) # wm
      else (k', offs, w) # wordmap_add E k t wm)"

text \<open>A word that does not count: one rune, or a stop word.\<close>

definition skipped :: "KeywordExtractor \<Rightarrow> string \<Rightarrow> bool" where
  "skipped ke w \<longleftrightarrow> IsSingleWord w \<or> w \<in> stopWords ke"

fun extract_words :: "fpenv \<Rightarrow> KeywordExtractor \<Rightarrow> string list \<Rightarrow> nat \<Rightarrow> wordmap \<Rightarrow> nat \<times> wordmap" where
  "extract_words E ke [] offs wm = (offs, wm)"
| "extract_words E ke (w # ws) offs wm =
     extract_words E ke ws (offs + length w) (if skipped ke w then wm else wordmap_add E w offs wm)"

definition keyword_of :: "fpenv \<Rightarrow> KeywordExtractor \<Rightarrow> string \<times> nat list \<times> real \<Rightarrow> Keyword" where
  "keyword_of E ke = (\<lambda>(k, offs, w).
     \<lparr>kw_word = k, kw_offsets = offs,
      kw_weight = fmul E w (case idfMap ke k of Some idf \<Rightarrow> idf | None \<Rightarrow> idfAverage ke)\<rparr>)"

text \<open>\<open>Extract(sentence, keywords, topN)\<close> for a vector of words that has the contents \<open>keywords\<close>. The
segmenter of the extractor has the default separators.\<close>

definition Extract ::
  "fpenv \<Rightarrow> DictTrie \<Rightarrow> HMMModel \<Rightarrow> KeywordExtractor \<Rightarrow> string \<Rightarrow> Keyword list \<Rightarrow> nat \<Rightarrow> Keyword list" where
  "Extract E d m ke sentence keywords topN =
     (let (offs, wm) = extract_words E ke (MixSegment_Cut_sentence E d m default_symbols sentence True) 0 []
      in if offs \<noteq> length sentence then keywords
         else let kws = map (keyword_of E ke) wm
              in take (min topN (length kws)) (sort_key (\<lambda>k. - kw_weight k) kws))"

definition Extract_strings ::
  "fpenv \<Rightarrow> DictTrie \<Rightarrow> HMMModel \<Rightarrow> KeywordExtractor \<Rightarrow> string \<Rightarrow> string list \<Rightarrow> nat \<Rightarrow> string list" where
  "Extract_strings E d m ke sentence keywords topN =
     keywords @ map kw_word (Extract E d m ke sentence [] topN)"

section \<open>The word map\<close>

text \<open>The byte offsets of \<open>k\<close> among words that begin at \<open>offs\<close>.\<close>

fun word_offsets :: "string \<Rightarrow> nat \<Rightarrow> string list \<Rightarrow> nat list" where
  "word_offsets k offs [] = []"
| "word_offsets k offs (w # ws) =
     (if w = k then [offs] else []) @ word_offsets k (offs + length w) ws"

lemma length_word_offsets: "length (word_offsets k offs ws) = count_list ws k"
  by (induction ws arbitrary: offs) auto

lemma word_offsets_occur:
  "p \<in> set (word_offsets k (length pre) ws) \<Longrightarrow> take (length k) (drop p (pre @ concat ws)) = k"
proof (induction ws arbitrary: pre)
  case (Cons w ws)
  from Cons.prems consider "w = k" "p = length pre" | "p \<in> set (word_offsets k (length (pre @ w)) ws)"
    by (auto split: if_splits)
  then show ?case
    using Cons.IH [of "pre @ w"] by cases simp_all
qed simp

definition wordmap_ok :: "wordmap \<Rightarrow> bool" where
  "wordmap_ok wm \<longleftrightarrow> sorted_wrt (<) (map fst wm)"

lemma set_wordmap_add: "fst ` set (wordmap_add E k t wm) = insert k (fst ` set wm)"
  by (induction E k t wm rule: wordmap_add.induct) auto

lemma wordmap_ok_add: "wordmap_ok wm \<Longrightarrow> wordmap_ok (wordmap_add E k t wm)"
proof (induction E k t wm rule: wordmap_add.induct)
  case (2 E k t k' offs w wm)
  have "\<forall>x \<in> set (map fst (wordmap_add E k t wm)). k' < x" if "k \<noteq> k'" "\<not> k < k'"
    using 2 that set_wordmap_add [of E k t wm] by (auto simp: wordmap_ok_def)
  then show ?case
    using 2 by (cases "k = k'"; cases "k < k'") (auto simp: wordmap_ok_def)
qed (simp add: wordmap_ok_def)

lemma map_of_wordmap_add:
  "wordmap_ok wm \<Longrightarrow> map_of (wordmap_add E k t wm) = (map_of wm)(k \<mapsto>
     (case map_of wm k of None \<Rightarrow> ([t], fadd E 0 1) | Some (offs, w) \<Rightarrow> (offs @ [t], fadd E w 1)))"
proof (induction E k t wm rule: wordmap_add.induct)
  case (2 E k t k' offs w wm)
  show ?case
  proof (cases "k = k' \<or> k < k'")
    case True
    moreover have "k \<notin> fst ` set wm" if "k < k'"
      using 2(2) that by (auto simp: wordmap_ok_def)
    then have "map_of wm k = None" if "k < k'" using that by (simp add: map_of_eq_None_iff)
    ultimately show ?thesis by (auto simp: fun_eq_iff)
  next
    case False
    with 2 show ?thesis by (auto simp: fun_eq_iff wordmap_ok_def)
  qed
qed (simp add: fun_eq_iff)

lemma wordmap_ok_extract: "wordmap_ok wm \<Longrightarrow> wordmap_ok (snd (extract_words E ke ws offs wm))"
  by (induction E ke ws offs wm rule: extract_words.induct) (simp_all add: wordmap_ok_add)

lemma fst_extract_words: "fst (extract_words E ke ws offs wm) = offs + length (concat ws)"
  by (induction E ke ws offs wm rule: extract_words.induct) simp_all

text \<open>The frequency that the code adds up for \<open>n\<close> occurrences, from \<open>w\<close> on.\<close>

primrec add_ones :: "fpenv \<Rightarrow> nat \<Rightarrow> real \<Rightarrow> real" where
  "add_ones E 0 w = w"
| "add_ones E (Suc n) w = add_ones E n (fadd E w 1)"

lemma map_of_extract:
  "wordmap_ok wm \<Longrightarrow> map_of (snd (extract_words E ke ws offs wm)) k =
     (if skipped ke k \<or> k \<notin> set ws then map_of wm k
      else (case map_of wm k of
          None \<Rightarrow> Some (word_offsets k offs ws, add_ones E (count_list ws k) 0)
        | Some (os, w) \<Rightarrow> Some (os @ word_offsets k offs ws, add_ones E (count_list ws k) w)))"
proof (induction E ke ws offs wm rule: extract_words.induct)
  case (2 E ke w ws offs wm)
  have none: "k \<notin> set ws \<Longrightarrow> word_offsets k o' ws = [] \<and> count_list ws k = 0" for o'
    by (metis count_list_0_iff length_0_conv length_word_offsets)
  show ?case
  proof (cases "skipped ke w")
    case True
    with 2 show ?thesis by (cases "w = k") (auto split: option.splits)
  next
    case False
    have ok: "wordmap_ok (wordmap_add E w offs wm)" using 2(2) by (rule wordmap_ok_add)
    show ?thesis
      using "2.IH" False ok 2(2) none [of "offs + length w"]
      by (auto simp: map_of_wordmap_add split: option.splits)
  qed
qed simp

section \<open>What is extracted\<close>

lemma map_of_extract_words:
  "map_of (snd (extract_words E ke ws 0 [])) k =
     (if skipped ke k \<or> k \<notin> set ws then None else Some (word_offsets k 0 ws, add_ones E (count_list ws k) 0))"
  by (subst map_of_extract) (simp_all add: wordmap_ok_def)

lemma wordmap_ok_distinct: "wordmap_ok wm \<Longrightarrow> distinct (map fst wm)"
  by (simp add: wordmap_ok_def strict_sorted_iff)

lemma in_extract_words:
  "(k, offs, w) \<in> set (snd (extract_words E ke ws 0 [])) \<longleftrightarrow>
     \<not> skipped ke k \<and> k \<in> set ws \<and> offs = word_offsets k 0 ws \<and> w = add_ones E (count_list ws k) 0"
proof -
  have "distinct (map fst (snd (extract_words E ke ws 0 [])))"
    by (rule wordmap_ok_distinct [OF wordmap_ok_extract]) (simp add: wordmap_ok_def)
  from map_of_eq_Some_iff [OF this, of k "(offs, w)"] show ?thesis
    by (auto simp: map_of_extract_words split: if_splits)
qed

text \<open>What \<open>partial_sort\<close> and \<open>resize\<close> leave: the first elements in the order of the weights.\<close>

lemma take_best:
  fixes weight :: "'a \<Rightarrow> real"
  assumes "ys = take (min n (length xs)) (sort_key (\<lambda>x. - weight x) xs)"
  shows "sorted_wrt (\<lambda>a b. weight b \<le> weight a) ys" and "set ys \<subseteq> set xs" and "length ys = min n (length xs)"
    and "distinct (map name xs) \<Longrightarrow> distinct (map name ys)"
proof -
  let ?zs = "sort_key (\<lambda>x. - weight x) xs"
  have "sorted_wrt (\<lambda>a b. weight b \<le> weight a) ?zs"
    using sorted_sort_key [of "\<lambda>x. - weight x" xs] by (simp add: sorted_wrt_map)
  then show "sorted_wrt (\<lambda>a b. weight b \<le> weight a) ys" unfolding assms by (rule sorted_wrt_take)
  show "set ys \<subseteq> set xs" unfolding assms using set_take_subset by fastforce
  show "length ys = min n (length xs)" by (simp add: assms)
  have "mset (map name ?zs) = mset (map name xs)" unfolding mset_map by simp
  then show "distinct (map name xs) \<Longrightarrow> distinct (map name ys)"
    unfolding assms take_map [symmetric] using mset_eq_imp_distinct_iff by (blast intro: distinct_take)
qed


definition sample_extractor :: KeywordExtractor where
  "sample_extractor = \<lparr>idfMap = [''ab'' \<mapsto> 2], idfAverage = 1, stopWords = {''the''}\<rparr>"


text \<open>
  For a sentence that is not UTF-8 and not empty, \<open>Extract\<close> reports illegal words and leaves the result
  vector as the caller passed it, for every dictionary and model.
\<close>

theorem extract_illegal:
  assumes "\<not> fst (DecodeRunesInString s)" and "s \<noteq> []" and "dict_ok d"
  shows "Extract E d m ke s old topN = old"
proof -
  have "concat (MixSegment_Cut_sentence E d m default_symbols s True) = []"
    using mix.concat_Cut_strings [of "(E, d, m, True)" default_symbols s] assms
    by (simp add: MixSegment_Cut_sentence_def)
  then have "fst (extract_words E ke (MixSegment_Cut_sentence E d m default_symbols s True) 0 []) = 0"
    by (simp add: fst_extract_words)
  with assms(2) show ?thesis by (simp add: Extract_def case_prod_unfold)
qed

theorem extract_illegal_witness:
  "Extract sample_env sample_dict sample_hmm sample_extractor [CHR 0xFF] [] 5 = []"
proof -
  have "\<not> fst (DecodeRunesInString [CHR 0xFF])" by code_simp
  from extract_illegal [OF this _ sample_dict_ok] show ?thesis by simp
qed

end
