(* ===== verification/Jieba.thy ===== *)
theory Jieba imports QuerySegment FullSegment KeywordExtractor begin

text \<open>
  \<open>cppjieba/Jieba.hpp\<close>: the facade that the search engine calls. One dictionary and one model are shared
  by the segmenters, and each segmenter has separators of its own.

  \<open>jieba_step\<close> is one call that changes the object. \<open>LoadUserDict\<close> is an operation too, but no step: it
  appends to the vector that the tree of the dictionary points into, so that the calls after it read
  freed memory when the vector has moved; what holds of the values is in \<open>DictTrie\<close>.
\<close>

section \<open>The object\<close>

record Jieba =
  dict_trie :: DictTrie
  model :: HMMModel
  mp_symbols :: "Rune set"
  hmm_symbols :: "Rune set"
  mix_symbols :: "Rune set"
  full_symbols :: "Rune set"
  query_symbols :: "Rune set"
  extractor :: KeywordExtractor

text \<open>The constructor, in the order of the members; the user words get the median weight.\<close>

definition Jieba_Init ::
  "fpenv \<Rightarrow> filesystem \<Rightarrow> string \<Rightarrow> string \<Rightarrow> string \<Rightarrow> string \<Rightarrow> string \<Rightarrow> abort + Jieba" where
  "Jieba_Init E fs dict_path model_path user_dict_path idfPath stopWordPath =
     (case DictTrie_Init E fs dict_path user_dict_path WordWeightMedian of
        Inl e \<Rightarrow> Inl e
      | Inr d \<Rightarrow>
          (case LoadModel E fs model_path of
             Inl e \<Rightarrow> Inl e
           | Inr m \<Rightarrow>
               (case KeywordExtractor_Init E fs idfPath stopWordPath of
                  Inl e \<Rightarrow> Inl e
                | Inr ke \<Rightarrow>
                    Inr \<lparr>dict_trie = d, model = m, mp_symbols = default_symbols,
                         hmm_symbols = default_symbols, mix_symbols = default_symbols,
                         full_symbols = default_symbols, query_symbols = default_symbols,
                         extractor = ke\<rparr>)))"

section \<open>Segmentation\<close>

definition Jieba_Cut :: "fpenv \<Rightarrow> Jieba \<Rightarrow> string \<Rightarrow> bool \<Rightarrow> string list" where
  "Jieba_Cut E j sentence hmm =
     MixSegment_Cut_sentence E (dict_trie j) (model j) (mix_symbols j) sentence hmm"

definition Jieba_Cut_words :: "fpenv \<Rightarrow> Jieba \<Rightarrow> string \<Rightarrow> bool \<Rightarrow> Word list" where
  "Jieba_Cut_words E j sentence hmm =
     MixSegment_Cut_words E (dict_trie j) (model j) (mix_symbols j) sentence hmm"

definition CutAll :: "Jieba \<Rightarrow> string \<Rightarrow> string list" where
  "CutAll j sentence = FullSegment_Cut_sentence (dict_trie j) (full_symbols j) sentence"

definition CutAll_words :: "Jieba \<Rightarrow> string \<Rightarrow> Word list" where
  "CutAll_words j sentence = FullSegment_Cut_words (dict_trie j) (full_symbols j) sentence"

definition CutForSearch :: "fpenv \<Rightarrow> Jieba \<Rightarrow> string \<Rightarrow> bool \<Rightarrow> string list" where
  "CutForSearch E j sentence hmm =
     QuerySegment_Cut_sentence E (dict_trie j) (model j) (query_symbols j) sentence hmm"

definition CutForSearch_words :: "fpenv \<Rightarrow> Jieba \<Rightarrow> string \<Rightarrow> bool \<Rightarrow> Word list" where
  "CutForSearch_words E j sentence hmm =
     QuerySegment_Cut_words E (dict_trie j) (model j) (query_symbols j) sentence hmm"

definition CutHMM :: "fpenv \<Rightarrow> Jieba \<Rightarrow> string \<Rightarrow> string list" where
  "CutHMM E j sentence = HMMSegment_Cut_sentence E (model j) (hmm_symbols j) sentence"

definition CutSmall :: "fpenv \<Rightarrow> Jieba \<Rightarrow> string \<Rightarrow> nat \<Rightarrow> string list" where
  "CutSmall E j sentence max_word_len =
     MPSegment_Cut_sentence E (dict_trie j) (mp_symbols j) sentence max_word_len"

definition Jieba_Tag :: "fpenv \<Rightarrow> Jieba \<Rightarrow> string \<Rightarrow> (string \<times> string) list" where
  "Jieba_Tag E j sentence = snd (Tag E (dict_trie j) (model j) (mix_symbols j) sentence)"

definition Jieba_LookupTag :: "Jieba \<Rightarrow> string \<Rightarrow> string" where
  "Jieba_LookupTag j str = LookupTag (dict_trie j) str"

definition Jieba_Find :: "Jieba \<Rightarrow> string \<Rightarrow> bool" where
  "Jieba_Find j w = Find_word (dict_trie j) w"

section \<open>Operations that change the object\<close>

definition Jieba_InsertUserWord :: "Jieba \<Rightarrow> string \<Rightarrow> string \<Rightarrow> bool \<times> Jieba" where
  "Jieba_InsertUserWord j w tag =
     (let (ok, d) = InsertUserWord (dict_trie j) w tag in (ok, j\<lparr>dict_trie := d\<rparr>))"

definition Jieba_InsertUserWord_freq :: "fpenv \<Rightarrow> Jieba \<Rightarrow> string \<Rightarrow> int \<Rightarrow> string \<Rightarrow> bool \<times> Jieba" where
  "Jieba_InsertUserWord_freq E j w freq tag =
     (let (ok, d) = InsertUserWord_freq E (dict_trie j) w freq tag in (ok, j\<lparr>dict_trie := d\<rparr>))"

definition Jieba_DeleteUserWord :: "Jieba \<Rightarrow> string \<Rightarrow> string \<Rightarrow> bool \<times> Jieba" where
  "Jieba_DeleteUserWord j w tag =
     (let (ok, d) = DeleteUserWord (dict_trie j) w tag in (ok, j\<lparr>dict_trie := d\<rparr>))"

text \<open>The results of the segmenters' \<open>ResetSeparators\<close> are dropped; the extractor is not reset.\<close>

definition Jieba_ResetSeparators :: "Jieba \<Rightarrow> string \<Rightarrow> Jieba" where
  "Jieba_ResetSeparators j s =
     (let syms = snd (ResetSeparators s)
      in j\<lparr>mp_symbols := syms, hmm_symbols := syms, mix_symbols := syms,
           full_symbols := syms, query_symbols := syms\<rparr>)"

definition Jieba_LoadUserDict_lines :: "fpenv \<Rightarrow> Jieba \<Rightarrow> string list \<Rightarrow> abort + Jieba" where
  "Jieba_LoadUserDict_lines E j buf =
     (case LoadUserDict_lines E (dict_trie j) buf of
        Inl e \<Rightarrow> Inl e | Inr d \<Rightarrow> Inr (j\<lparr>dict_trie := d\<rparr>))"

definition Jieba_LoadUserDict :: "fpenv \<Rightarrow> filesystem \<Rightarrow> Jieba \<Rightarrow> string \<Rightarrow> abort + Jieba" where
  "Jieba_LoadUserDict E fs j path =
     (case LoadUserDict E fs (dict_trie j) path of
        Inl e \<Rightarrow> Inl e | Inr d \<Rightarrow> Inr (j\<lparr>dict_trie := d\<rparr>))"

inductive jieba_step :: "fpenv \<Rightarrow> Jieba \<Rightarrow> Jieba \<Rightarrow> bool" for E where
  insert: "jieba_step E j (snd (Jieba_InsertUserWord j w tag))"
| insert_freq: "jieba_step E j (snd (Jieba_InsertUserWord_freq E j w freq tag))"
| delete: "jieba_step E j (snd (Jieba_DeleteUserWord j w tag))"
| reset: "jieba_step E j (Jieba_ResetSeparators j s)"

inductive_cases jieba_stepE: "jieba_step E j j'"

section \<open>Every sequence of calls\<close>

lemma jieba_step_dict_ok: "jieba_step E j j' \<Longrightarrow> dict_ok (dict_trie j) \<Longrightarrow> dict_ok (dict_trie j')"
  by (erule jieba_stepE)
     (auto simp: Jieba_InsertUserWord_def Jieba_InsertUserWord_freq_def Jieba_DeleteUserWord_def
        Jieba_ResetSeparators_def Let_def case_prod_unfold
        intro: dict_ok_InsertUserWord dict_ok_InsertUserWord_freq dict_ok_DeleteUserWord)

lemma jieba_steps_dict_ok: "(jieba_step E)\<^sup>*\<^sup>* j j' \<Longrightarrow> dict_ok (dict_trie j) \<Longrightarrow> dict_ok (dict_trie j')"
  by (induction rule: rtranclp_induct) (auto dest: jieba_step_dict_ok)

lemma Jieba_Init_dict_ok: "Jieba_Init E fs p h u i s = Inr j \<Longrightarrow> dict_ok (dict_trie j)"
  by (auto simp: Jieba_Init_def elim!: DictTrie_Init_cases intro: create_trie_ok split: sum.splits)


definition sample_files :: filesystem where
  "sample_files = [''dict'' \<mapsto> ''ab 3 n'' @ [NL] @ ''a 1 v'', ''hmm'' \<mapsto> sample_hmm_text, ''idf'' \<mapsto> ''ab 2'',
     ''stop'' \<mapsto> ''the'', ''user'' \<mapsto> ''abc'']"


end
