(* ===== verification/UtilHpp.thy ===== *)
theory UtilHpp imports Jieba begin

text \<open>
  \<open>util.hpp\<close>: reading files, splitting lines, and the word segmentation without stop words.

  \<^item> The C++ library of Boost is not part of the program. \<open>boost::split\<close> and \<open>boost::to_lower\<close> are
    parameters of the operations that call them; \<open>split_law\<close> is what the documentation says of the
    first with \<open>token_compress_on\<close>, and \<open>compress_split\<close> is a function that satisfies it.
  \<^item> The messages to the log are not part of the results; the log itself is in \<open>LogMessage\<close>.
\<close>

section \<open>Reading files\<close>

text \<open>\<open>readFile\<close>: the result, and \<open>*out\<close> afterwards.\<close>

definition readFile :: "filesystem \<Rightarrow> string \<Rightarrow> string \<Rightarrow> bool \<times> string" where
  "readFile fs filePath out =
     (case fs filePath of
        None \<Rightarrow> (False, out)
      | Some content \<Rightarrow> (True, foldl (@) out (read_lines content)))"

text \<open>
  \<open>readFaviconFile\<close>: \<open>in.read\<close> of 1023 bytes succeeds while that many are left, and \<open>*out += buffer\<close>
  takes the buffer as a C string, up to its first zero byte. \<open>junk\<close> is what follows the 1023 bytes in
  memory, \<open>buffer[1023]\<close> first, which the code does not write.
\<close>

definition c_string :: "string \<Rightarrow> string" where
  "c_string buffer = takeWhile (\<lambda>c. c \<noteq> CHR 0x00) buffer"

function favicon_chunks :: "string \<Rightarrow> string \<Rightarrow> string \<Rightarrow> string" where
  "favicon_chunks junk content out =
     (if 1023 \<le> length content then
        favicon_chunks junk (drop 1023 content) (out @ c_string (take 1023 content @ junk))
      else out)"
  by pat_completeness auto
termination
  by (relation "measure (\<lambda>(junk, content, out). length content)") auto

declare favicon_chunks.simps [simp del]

definition readFaviconFile :: "string \<Rightarrow> filesystem \<Rightarrow> string \<Rightarrow> string \<Rightarrow> bool \<times> string" where
  "readFaviconFile junk fs filePath out =
     (case fs filePath of
        None \<Rightarrow> (False, out)
      | Some content \<Rightarrow> (True, favicon_chunks junk content out))"

section \<open>Splitting\<close>

type_synonym splitter = "string \<Rightarrow> string \<Rightarrow> string list"

text \<open>\<open>bsplit file sep\<close> is what \<open>boost::split(result, file, is_any_of(sep), token_compress_on)\<close> puts in
\<open>result\<close>.\<close>

definition split :: "splitter \<Rightarrow> string \<Rightarrow> string \<Rightarrow> bool \<times> string list" where
  "split bsplit file sep =
     (let fileResult = bsplit file sep in if fileResult = [] then (False, fileResult) else (True, fileResult))"

text \<open>Tokens with runs of separators between them, as one string.\<close>

fun weave :: "string list \<Rightarrow> string list \<Rightarrow> string" where
  "weave (t # ts) (r # rs) = t @ r @ weave ts rs"
| "weave ts rs = concat ts"

text \<open>The documented behaviour of splitting with compression: a run of adjacent separators is one, so
that only the first and the last token can be empty.\<close>

definition split_law :: "splitter \<Rightarrow> bool" where
  "split_law bsplit \<longleftrightarrow>
     (\<forall>sep ts rs. length ts = Suc (length rs) \<longrightarrow> (\<forall>t \<in> set ts. set t \<inter> set sep = {}) \<longrightarrow>
        (\<forall>r \<in> set rs. r \<noteq> [] \<and> set r \<subseteq> set sep) \<longrightarrow> (\<forall>t \<in> set (butlast (tl ts)). t \<noteq> []) \<longrightarrow>
        bsplit (weave ts rs) sep = ts)"

function compress_split :: "string \<Rightarrow> string \<Rightarrow> string list" where
  "compress_split s sep =
     (let rest = dropWhile (\<lambda>c. c \<notin> set sep) s
      in takeWhile (\<lambda>c. c \<notin> set sep) s #
         (if rest = [] then [] else compress_split (dropWhile (\<lambda>c. c \<in> set sep) rest) sep))"
  by pat_completeness auto
termination
proof (relation "measure (\<lambda>(s, sep). length s)", goal_cases)
  case (2 s sep rest)
  then have "hd rest \<in> set sep" using hd_dropWhile [of "\<lambda>c. c \<notin> set sep" s] by simp
  moreover have r: "rest = hd rest # tl rest" using 2 by simp
  ultimately have "dropWhile (\<lambda>c. c \<in> set sep) rest = dropWhile (\<lambda>c. c \<in> set sep) (tl rest)"
    by (metis dropWhile.simps(2))
  then have "length (dropWhile (\<lambda>c. c \<in> set sep) rest) \<le> length (tl rest)"
    by (simp only: length_dropWhile_le)
  also have "\<dots> < length rest" by (subst (2) r) simp
  also have "\<dots> \<le> length s" unfolding 2(1) by (rule length_dropWhile_le)
  finally show ?case by simp
qed simp

declare compress_split.simps [simp del]

lemma compress_split_one: "set t \<inter> set sep = {} \<Longrightarrow> compress_split t sep = [t]"
  by (subst compress_split.simps) (auto simp: takeWhile_eq_all_conv dropWhile_eq_Nil_conv)

lemma compress_split_weave:
  "length ts = Suc (length rs) \<Longrightarrow> (\<forall>t \<in> set ts. set t \<inter> set sep = {}) \<Longrightarrow>
   (\<forall>r \<in> set rs. r \<noteq> [] \<and> set r \<subseteq> set sep) \<Longrightarrow> (\<forall>t \<in> set (butlast (tl ts)). t \<noteq> []) \<Longrightarrow>
   compress_split (weave ts rs) sep = ts"
proof (induction ts rs rule: weave.induct)
  case (1 t ts r rs)
  obtain t' ts' where ts: "ts = t' # ts'" using "1.prems"(1) by (cases ts) auto
  obtain c r' where r: "r = c # r'" "c \<in> set sep" using "1.prems"(3) by (cases r) auto
  have t: "takeWhile (\<lambda>c. c \<notin> set sep) (t @ r @ weave ts rs) = t"
    "dropWhile (\<lambda>c. c \<notin> set sep) (t @ r @ weave ts rs) = r @ weave ts rs"
    using "1.prems"(2) r by (auto simp: takeWhile_append dropWhile_append)
  have "dropWhile (\<lambda>c. c \<in> set sep) (r @ weave ts rs) = dropWhile (\<lambda>c. c \<in> set sep) (weave ts rs)"
    using "1.prems"(3) by (subst dropWhile_append2) auto
  also have "\<dots> = weave ts rs"
  proof (cases rs)
    case Nil
    with ts "1.prems" show ?thesis by (cases t') auto
  next
    case (Cons r1 rs1)
    with ts "1.prems" have "t' \<noteq> []" by (cases ts') auto
    with ts Cons "1.prems" show ?thesis by (cases t') auto
  qed
  finally have d: "dropWhile (\<lambda>c. c \<in> set sep) (r @ weave ts rs) = weave ts rs" .
  have "\<forall>t \<in> set (butlast (tl ts)). t \<noteq> []"
    using "1.prems"(4) by (cases "ts' = []") (simp_all add: ts)
  then have "compress_split (weave ts rs) sep = ts"
    using "1.prems" by (intro "1.IH") simp_all
  with t d r show ?case by (subst compress_split.simps) simp
qed (auto simp: compress_split_one length_Suc_conv)

lemma split_law_compress_split: "split_law compress_split"
  by (simp add: split_law_def compress_split_weave)

section \<open>Segmentation without stop words\<close>

text \<open>\<open>jiebaUtil\<close>. The values of \<open>_stopKeywordMap\<close> are all \<open>true\<close> and never read, so its keys are enough.\<close>

record jiebaUtil =
  jieba :: Jieba
  stopKeywordMap :: "string set"

definition DICT_PATH :: string where "DICT_PATH = ''./cppjiebaDict/jieba.dict.utf8''"
definition HMM_PATH :: string where "HMM_PATH = ''./cppjiebaDict/hmm_model.utf8''"
definition USER_DICT_PATH :: string where "USER_DICT_PATH = ''./cppjiebaDict/user.dict.utf8''"
definition IDF_PATH :: string where "IDF_PATH = ''./cppjiebaDict/idf.utf8''"
definition STOP_WORD_PATH :: string where "STOP_WORD_PATH = ''./cppjiebaDict/stop_words.utf8''"

definition new_jiebaUtil :: "fpenv \<Rightarrow> filesystem \<Rightarrow> abort + jiebaUtil" where
  "new_jiebaUtil E fs =
     (case Jieba_Init E fs DICT_PATH HMM_PATH USER_DICT_PATH IDF_PATH STOP_WORD_PATH of
        Inl e \<Rightarrow> Inl e
      | Inr j \<Rightarrow> Inr \<lparr>jieba = j, stopKeywordMap = {}\<rparr>)"

definition initJiebaUtil :: "filesystem \<Rightarrow> jiebaUtil \<Rightarrow> bool \<times> jiebaUtil" where
  "initJiebaUtil fs ju =
     (case fs STOP_WORD_PATH of
        None \<Rightarrow> (False, ju)
      | Some content \<Rightarrow>
          (True, ju\<lparr>stopKeywordMap := foldl (\<lambda>m line. insert line m) (stopKeywordMap ju) (read_lines content)\<rparr>))"

text \<open>The loop of \<open>noStopHelper\<close> with the iterator at \<open>i\<close>; \<open>lower\<close> is \<open>boost::to_lower\<close>.\<close>

function erase_stops :: "(string \<Rightarrow> string) \<Rightarrow> string set \<Rightarrow> nat \<Rightarrow> string list \<Rightarrow> string list" where
  "erase_stops lower stops i out =
     (if i < length out then
        (if lower (out ! i) \<in> stops then erase_stops lower stops i (take i out @ drop (Suc i) out)
         else erase_stops lower stops (Suc i) out)
      else out)"
  by pat_completeness auto
termination
  by (relation "measure (\<lambda>(lower, stops, i, out). length out - i)") auto

declare erase_stops.simps [simp del]

definition noStopHelper :: "fpenv \<Rightarrow> (string \<Rightarrow> string) \<Rightarrow> jiebaUtil \<Rightarrow> string \<Rightarrow> string list" where
  "noStopHelper E lower ju src =
     erase_stops lower (stopKeywordMap ju) 0 (CutForSearch E (jieba ju) src True)"

definition cutString :: "fpenv \<Rightarrow> jiebaUtil \<Rightarrow> string \<Rightarrow> string list" where
  "cutString E ju src = CutForSearch E (jieba ju) src True"

definition cutStringNoStop :: "fpenv \<Rightarrow> (string \<Rightarrow> string) \<Rightarrow> jiebaUtil \<Rightarrow> string \<Rightarrow> string list" where
  "cutStringNoStop E lower ju src = noStopHelper E lower ju src"

section \<open>Properties\<close>

lemma readFile_eq: "readFile fs p out =
    (case fs p of None \<Rightarrow> (False, out) | Some content \<Rightarrow> (True, out @ filter (\<lambda>c. c \<noteq> NL) content))"
proof -
  have "foldl (@) out ls = out @ concat ls" for ls :: "string list"
    by (induction ls arbitrary: out) simp_all
  then show ?thesis by (simp add: readFile_def read_lines_pieces concat_pieces split: option.split)
qed

text \<open>
  \<open>readFile\<close> appends the content of the file without its newlines. So the text of a file and of the
  same file with all its lines joined is the same: the words at the end of one line and at the start
  of the next become one word.
\<close>

theorem read_file_joins_lines:
  "readFile [p \<mapsto> content] p out = (True, out @ filter (\<lambda>c. c \<noteq> NL) content) \<and>
   readFile [p \<mapsto> a @ [NL] @ b] p out = readFile [p \<mapsto> a @ b] p out"
  by (simp add: readFile_eq)

lemma favicon_chunks_eq:
  "CHR 0x00 \<notin> set content \<Longrightarrow>
   favicon_chunks (CHR 0x00 # junk) content out = out @ take (1023 * (length content div 1023)) content"
proof (induction "CHR 0x00 # junk" content out rule: favicon_chunks.induct)
  case (1 content out)
  show ?case
  proof (cases "1023 \<le> length content")
    case True
    have z: "c_string (take 1023 content @ CHR 0x00 # junk) = take 1023 content"
      using "1.prems" by (auto simp: c_string_def takeWhile_append takeWhile_eq_all_conv dest: in_set_takeD)
    define n where "n = length (drop 1023 content) div 1023"
    have "length content div 1023 = Suc n"
      using True by (simp add: n_def div_eq_dividend_iff le_div_geq)
    then have "take (1023 * (length content div 1023)) content = take 1023 content @ take (1023 * n) (drop 1023 content)"
      using take_add [of 1023 "1023 * n" content] by (simp only: mult_Suc_right)
    moreover have "CHR 0x00 \<notin> set (drop 1023 content)" using "1.prems" by (meson in_set_dropD)
    with "1.hyps" [OF True] have "favicon_chunks (CHR 0x00 # junk) (drop 1023 content)
        (out @ c_string (take 1023 content @ CHR 0x00 # junk)) =
      (out @ take 1023 content) @ take (1023 * n) (drop 1023 content)"
      unfolding z n_def by blast
    moreover have "favicon_chunks (CHR 0x00 # junk) content out =
        favicon_chunks (CHR 0x00 # junk) (drop 1023 content) (out @ c_string (take 1023 content @ CHR 0x00 # junk))"
      using True by (subst favicon_chunks.simps) (simp only: if_True)
    ultimately show ?thesis by (simp only: append_assoc)
  next
    case False
    then show ?thesis by (subst favicon_chunks.simps) simp
  qed
qed

text \<open>
  \<open>readFaviconFile\<close> loses the end of the file. Even for a file without zero bytes, and with a zero
  in the last byte of the buffer, only the whole chunks of 1023 bytes get into the result; a file of
  at most 1022 bytes reads as empty, and the function still reports success.
\<close>

theorem read_favicon_loses_tail:
  assumes "CHR 0x00 \<notin> set content"
  shows "readFaviconFile (CHR 0x00 # junk) [p \<mapsto> content] p out =
     (True, out @ take (1023 * (length content div 1023)) content)"
  using favicon_chunks_eq [OF assms] by (simp add: readFaviconFile_def)

theorem read_favicon_loses_tail_witness:
  "readFaviconFile [CHR 0x00] [''favicon.ico'' \<mapsto> ''icon''] ''favicon.ico'' [] = (True, [])"
  using read_favicon_loses_tail [of "''icon''" "[]" "''favicon.ico''" "[]"] by simp

lemma erase_stops_eq:
  "erase_stops lower stops i out = take i out @ filter (\<lambda>w. lower w \<notin> stops) (drop i out)"
proof (induction lower stops i out rule: erase_stops.induct)
  case (1 lower stops i out)
  show ?case
  proof (cases "i < length out")
    case True
    then have d: "drop i out = out ! i # drop (Suc i) out" by (simp add: Cons_nth_drop_Suc)
    show ?thesis
    proof (cases "lower (out ! i) \<in> stops")
      case stop: True
      have "erase_stops lower stops i out = erase_stops lower stops i (take i out @ drop (Suc i) out)"
        using True stop by (subst erase_stops.simps) simp
      with "1.IH"(1) [OF True stop] True stop show ?thesis by (simp add: d)
    next
      case False
      have "erase_stops lower stops i out = erase_stops lower stops (Suc i) out"
        using True False by (subst erase_stops.simps) simp
      with "1.IH"(2) [OF True False] True False show ?thesis by (simp add: d take_Suc_conv_app_nth)
    qed
  next
    case False
    then show ?thesis by (subst erase_stops.simps) simp
  qed
qed

text \<open>
  Segmentation without stop words is segmentation for search with the words left out whose lower case
  is a stop word: the loop that erases from the vector it walks over misses none and drops no other, and
  the words that stay keep their order. After \<open>initJiebaUtil\<close> the stop words are the lines of the file.
\<close>

theorem cut_no_stop_filters:
  "cutStringNoStop E lower ju src = filter (\<lambda>w. lower w \<notin> stopKeywordMap ju) (cutString E ju src) \<and>
   stopKeywordMap (snd (initJiebaUtil (fs(STOP_WORD_PATH \<mapsto> content)) ju)) =
     stopKeywordMap ju \<union> set (read_lines content)"
proof -
  have "foldl (\<lambda>m line. insert line m) m ls = m \<union> set ls" for m and ls :: "string list"
    by (induction ls arbitrary: m) auto
  then show ?thesis
    by (simp add: cutStringNoStop_def noStopHelper_def cutString_def erase_stops_eq initJiebaUtil_def)
qed

end
