(* ===== verification/ParserDocs.thy ===== *)
theory ParserDocs imports UtilHpp begin

text \<open>
  \<open>parser.cc\<close>, the program that turns the tree of HTML files into the file \<open>data/output/raw\<close>: one line
  \<open>title\3content\3url\<close> per document.

  \<^item> \<open>boost::filesystem\<close> is a parameter: which paths exist, and the entries that the recursive iterator
    visits, with their type, extension and path.
  \<^item> An exception that nothing catches ends the program: \<open>Inl OutOfRange\<close> is \<open>std::out_of_range\<close>.
    \<open>OutOfBounds\<close> and \<open>NullDereference\<close> are the undefined behaviour of an index past the end and of a null
    pointer, for the index and the searcher.
\<close>

section \<open>State\<close>

datatype fault = OutOfRange | OutOfBounds | NullDereference

record dirent =
  is_regular_file :: bool
  extension :: string
  path :: string

record boost_filesystem =
  path_exists :: "string \<Rightarrow> bool"
  recursive_directory :: "string \<Rightarrow> dirent list"

record docInfo =
  doc_title :: string
  doc_content :: string
  doc_url :: string

definition ENUM_ERROR :: int where "ENUM_ERROR = 1"
definition PARSEINFO_ERROR :: int where "PARSEINFO_ERROR = 2"
definition SAVEINFO_ERROR :: int where "SAVEINFO_ERROR = 3"
definition SEP :: char where "SEP = CHR 3"
definition srcPath :: string where "srcPath = ''data/input''"
definition output_path :: string where "output_path = ''data/output/raw''"

section \<open>The steps\<close>

text \<open>\<open>enumFile\<close>: the result, and \<open>*filesList\<close> afterwards.\<close>

definition enumFile :: "boost_filesystem \<Rightarrow> string \<Rightarrow> string list \<Rightarrow> bool \<times> string list" where
  "enumFile bfs src filesList =
     (if \<not> path_exists bfs src then (False, filesList)
      else (True, filesList @
        map path (filter (\<lambda>d. is_regular_file d \<and> \<not> extension d \<noteq> ''.html'') (recursive_directory bfs src))))"

definition parseTitle :: "string \<Rightarrow> string option" where
  "parseTitle fileContent =
     (case find_str fileContent ''<title>'' of
        None \<Rightarrow> None
      | Some b0 \<Rightarrow>
          (case find_str fileContent ''</title>'' of
             None \<Rightarrow> None
           | Some e \<Rightarrow>
               (let b = b0 + length ''<title>''
                in if b > e then None else substr_at fileContent b (e - b))))"

datatype status = LABLE | CONTENT

definition content_step :: "status \<times> string \<Rightarrow> char \<Rightarrow> status \<times> string" where
  "content_step = (\<lambda>(s, content) c.
     (case s of
        LABLE \<Rightarrow> (if c = CHR ''>'' then CONTENT else LABLE, content)
      | CONTENT \<Rightarrow>
          (if c = CHR ''<'' then (LABLE, content)
           else (CONTENT, content @ [if c = NL then CHR '' '' else c]))))"

definition parseContent :: "string \<Rightarrow> string \<Rightarrow> string" where
  "parseContent fileContent content = snd (foldl content_step (LABLE, content) fileContent)"

definition urlHead :: string where
  "urlHead = ''https://www.boost.org/doc/libs/1_82_0/doc/html''"

definition parseUrl :: "string \<Rightarrow> fault + string" where
  "parseUrl filePath =
     (case substr_from filePath (length srcPath) of
        None \<Rightarrow> Inl OutOfRange
      | Some urlTail \<Rightarrow> Inr (urlHead @ urlTail))"

text \<open>\<open>parseDocInfo\<close> onto a vector that holds \<open>docs\<close>. A file that cannot be read or has no title is
skipped; the result is always \<open>true\<close>.\<close>

fun parseDocInfo :: "filesystem \<Rightarrow> string list \<Rightarrow> docInfo list \<Rightarrow> fault + bool \<times> docInfo list" where
  "parseDocInfo fs [] docs = Inr (True, docs)"
| "parseDocInfo fs (filePath # filesList) docs =
     (case readFile fs filePath [] of
        (False, _) \<Rightarrow> parseDocInfo fs filesList docs
      | (True, fileContent) \<Rightarrow>
          (case parseTitle fileContent of
             None \<Rightarrow> parseDocInfo fs filesList docs
           | Some t \<Rightarrow>
               (case parseUrl filePath of
                  Inl e \<Rightarrow> Inl e
                | Inr u \<Rightarrow> parseDocInfo fs filesList
                    (docs @ [\<lparr>doc_title = t, doc_content = parseContent fileContent [], doc_url = u\<rparr>]))))"

definition doc_line :: "docInfo \<Rightarrow> string" where
  "doc_line item = doc_title item @ [SEP] @ doc_content item @ [SEP] @ doc_url item @ [NL]"

text \<open>\<open>saveDocInfo\<close>: opening truncates the file. \<open>can_open\<close> tells which paths can be written.\<close>

definition saveDocInfo :: "(string \<Rightarrow> bool) \<Rightarrow> docInfo list \<Rightarrow> string \<Rightarrow> filesystem \<Rightarrow> bool \<times> filesystem" where
  "saveDocInfo can_open docResults out fs =
     (if \<not> can_open out then (False, fs)
      else (True, fs(out \<mapsto> foldl (\<lambda>s item. s @ doc_line item) [] docResults)))"

text \<open>\<open>main\<close>: the exit status and the file system.\<close>

definition parser_main :: "boost_filesystem \<Rightarrow> (string \<Rightarrow> bool) \<Rightarrow> filesystem \<Rightarrow> fault + int \<times> filesystem" where
  "parser_main bfs can_open fs =
     (case enumFile bfs srcPath [] of
        (False, _) \<Rightarrow> Inr (ENUM_ERROR, fs)
      | (True, filesList) \<Rightarrow>
          (case parseDocInfo fs filesList [] of
             Inl e \<Rightarrow> Inl e
           | Inr (False, _) \<Rightarrow> Inr (PARSEINFO_ERROR, fs)
           | Inr (True, docResults) \<Rightarrow>
               (case saveDocInfo can_open docResults output_path fs of
                  (False, fs') \<Rightarrow> Inr (SAVEINFO_ERROR, fs')
                | (True, fs') \<Rightarrow> Inr (0, fs'))))"

section \<open>Titles and contents\<close>

text \<open>
  The title is the text between the first \<open><title>\<close> of the file and its first \<open></title>\<close>; there is
  none when one of the two is missing or when the closing tag comes first.
\<close>

theorem parse_title:
  "parseTitle s = Some t \<longleftrightarrow>
     (\<exists>i j. find_str s ''<title>'' = Some i \<and> find_str s ''</title>'' = Some j \<and> i + 7 \<le> j \<and>
        s = take i s @ ''<title>'' @ t @ drop j s \<and> length t = j - (i + 7))"
proof -
  have p: "s = take i s @ ''<title>'' @ drop (i + 7) s" if f: "find_str s ''<title>'' = Some i" for i
  proof -
    from f have "prefix ''<title>'' (drop i s)" by (simp add: find_str_Some)
    then obtain zs where z: "drop i s = ''<title>'' @ zs" by (auto simp: prefix_def)
    have "drop (i + 7) s = drop 7 (drop i s)" by (simp add: add.commute)
    also have "\<dots> = zs" unfolding z by simp
    finally show ?thesis using z append_take_drop_id [of i s] by metis
  qed
  have q: "j \<le> length s" if "find_str s ''</title>'' = Some j" for j
    using that by (simp add: find_str_Some)
  have sub: "take (j - (i + 7)) (drop (i + 7) s) = t \<longleftrightarrow>
      s = take i s @ ''<title>'' @ t @ drop j s \<and> length t = j - (i + 7)"
    if f: "find_str s ''<title>'' = Some i" and j: "find_str s ''</title>'' = Some j" and le: "i + 7 \<le> j" for i j
  proof
    assume t: "take (j - (i + 7)) (drop (i + 7) s) = t"
    have "drop (i + 7) s = t @ drop j s"
      using t le by (metis append_take_drop_id drop_drop le_add_diff_inverse2)
    with p [OF f] t q [OF j] show "s = take i s @ ''<title>'' @ t @ drop j s \<and> length t = j - (i + 7)"
      by (metis diff_le_mono length_drop length_take min.absorb2)
  next
    assume r: "s = take i s @ ''<title>'' @ t @ drop j s \<and> length t = j - (i + 7)"
    with p [OF f] have "drop (i + 7) s = t @ drop j s" by (metis append_same_eq same_append_eq)
    with r show "take (j - (i + 7)) (drop (i + 7) s) = t" by simp
  qed
  show ?thesis
    using sub q
    by (force simp: parseTitle_def substr_at_def Let_def numeral_eq_Suc split: option.splits)
qed

text \<open>The text between the tags: from each \<open>>\<close> to the next \<open><\<close>, with blanks for newlines.\<close>

definition blank_newlines :: "string \<Rightarrow> string" where
  "blank_newlines s = map (\<lambda>c. if c = NL then CHR '' '' else c) s"

function content_text :: "string \<Rightarrow> string" where
  "content_text s =
     (case dropWhile (\<lambda>c. c \<noteq> CHR ''>'') s of
        [] \<Rightarrow> []
      | c # rest \<Rightarrow> blank_newlines (takeWhile (\<lambda>c. c \<noteq> CHR ''<'') rest) @
                   content_text (drop 1 (dropWhile (\<lambda>c. c \<noteq> CHR ''<'') rest)))"
  by pat_completeness auto
termination
proof (relation "measure length", goal_cases)
  case (2 s c rest)
  have "length (c # rest) \<le> length s" unfolding 2 [symmetric] by (rule length_dropWhile_le)
  moreover have "length (dropWhile (\<lambda>c. c \<noteq> CHR ''<'') rest) \<le> length rest" by (rule length_dropWhile_le)
  ultimately show ?case by simp
qed simp

declare content_text.simps [simp del]

lemma content_text_Nil [simp]: "content_text [] = []"
  by (simp add: content_text.simps)

lemma content_text_Cons:
  "content_text (c # s) =
     (if c = CHR ''>'' then blank_newlines (takeWhile (\<lambda>c. c \<noteq> CHR ''<'') s) @
        content_text (drop 1 (dropWhile (\<lambda>c. c \<noteq> CHR ''<'') s))
      else content_text s)"
  by (subst (1 3) content_text.simps) simp

lemma foldl_content_step:
  "snd (foldl content_step (LABLE, out) s) = out @ content_text s"
  "snd (foldl content_step (CONTENT, out) s) =
     out @ blank_newlines (takeWhile (\<lambda>c. c \<noteq> CHR ''<'') s) @ content_text (drop 1 (dropWhile (\<lambda>c. c \<noteq> CHR ''<'') s))"
  by (induction s arbitrary: out) (simp_all add: content_step_def content_text_Cons blank_newlines_def)

lemma parseContent_eq: "parseContent s out = out @ content_text s"
  by (simp add: parseContent_def foldl_content_step)

lemma set_content_text: "c \<in> set (content_text s) \<Longrightarrow> c \<noteq> CHR ''<'' \<and> c \<noteq> NL \<and> (c = CHR '' '' \<or> c \<in> set s)"
proof (induction s rule: content_text.induct)
  case (1 s)
  from "1.prems" obtain d rest where d: "dropWhile (\<lambda>c. c \<noteq> CHR ''>'') s = d # rest"
    using content_text.simps [of s] by (cases "dropWhile (\<lambda>c. c \<noteq> CHR ''>'') s") auto
  then have sub: "set rest \<subseteq> set s" by (metis set_dropWhileD set_subset_Cons subset_code(1) subsetD)
  from "1.prems" d consider "c \<in> set (blank_newlines (takeWhile (\<lambda>c. c \<noteq> CHR ''<'') rest))"
    | "c \<in> set (content_text (drop 1 (dropWhile (\<lambda>c. c \<noteq> CHR ''<'') rest)))"
    by (subst (asm) content_text.simps) auto
  then show ?case
  proof cases
    case 1
    with sub show ?thesis by (auto simp: blank_newlines_def dest: set_takeWhileD)
  next
    case 2
    have "set (drop 1 (dropWhile (\<lambda>c. c \<noteq> CHR ''<'') rest)) \<subseteq> set rest"
      by (meson in_set_dropD set_dropWhileD subsetI)
    with "1.IH" [OF d 2] sub show ?thesis by blast
  qed
qed

text \<open>
  The two-state loop over the characters appends exactly the text between the tags, each \<open>>\<close> up to the
  next \<open><\<close>, and no tag opener and no newline gets through.
\<close>

theorem parse_content:
  "parseContent s out = out @ content_text s \<and>
   CHR ''<'' \<notin> set (content_text s) \<and> NL \<notin> set (content_text s)"
  using set_content_text by (auto simp: parseContent_eq)

section \<open>The program\<close>

text \<open>The document that a file gives: none if the file cannot be read or has no title.\<close>

definition doc_of :: "filesystem \<Rightarrow> string \<Rightarrow> docInfo option" where
  "doc_of fs p =
     (case fs p of
        None \<Rightarrow> None
      | Some content \<Rightarrow>
          (let text = filter (\<lambda>c. c \<noteq> NL) content
           in map_option (\<lambda>t. \<lparr>doc_title = t, doc_content = content_text text,
                doc_url = urlHead @ drop (length srcPath) p\<rparr>) (parseTitle text)))"

definition html_files :: "boost_filesystem \<Rightarrow> string list" where
  "html_files bfs =
     map path (filter (\<lambda>d. is_regular_file d \<and> extension d = ''.html'') (recursive_directory bfs srcPath))"

lemma parseUrl_eq: "prefix srcPath p \<Longrightarrow> parseUrl p = Inr (urlHead @ drop (length srcPath) p)"
  using prefix_length_le [of srcPath p] by (simp add: parseUrl_def substr_from_def)

lemma parseDocInfo_eq:
  "(\<And>p. p \<in> set ps \<Longrightarrow> prefix srcPath p) \<Longrightarrow> parseDocInfo fs ps docs = Inr (True, docs @ List.map_filter (doc_of fs) ps)"
proof (induction ps arbitrary: docs)
  case (Cons p ps)
  have "parseUrl p = Inr (urlHead @ drop (length srcPath) p)" using Cons.prems by (simp add: parseUrl_eq)
  moreover have "parseDocInfo fs ps ds = Inr (True, ds @ List.map_filter (doc_of fs) ps)" for ds
    using Cons by simp
  ultimately show ?case
    by (auto simp: readFile_eq doc_of_def [of fs p] parseContent_eq List.map_filter_simps Let_def split: option.splits)
qed (simp add: List.map_filter_simps)

lemma foldl_doc_line: "foldl (\<lambda>s item. s @ doc_line item) s docs = s @ concat (map doc_line docs)"
  by (induction docs arbitrary: s) simp_all

definition doc_text :: "docInfo \<Rightarrow> string" where
  "doc_text item = doc_title item @ [SEP] @ doc_content item @ [SEP] @ doc_url item"

lemma parseTitle_set: "parseTitle s = Some t \<Longrightarrow> set t \<subseteq> set s"
  by (auto simp: parseTitle_def substr_at_def Let_def dest!: in_set_takeD in_set_dropD
      split: option.splits if_splits)

lemma doc_of_no_newline: "doc_of fs p = Some d \<Longrightarrow> NL \<notin> set p \<Longrightarrow> NL \<notin> set (doc_text d)"
  using set_content_text
  by (fastforce simp: doc_of_def Let_def doc_text_def SEP_def urlHead_def
      dest: parseTitle_set in_set_dropD split: option.splits)

text \<open>
  C37: The parser program, run on a directory whose files have paths below \<open>data/input\<close> without newlines,
  ends with status 0 and has written one line per document: read back with \<open>getline\<close>, the output gives
  title, content and URL of every readable HTML file with a title, in the order of the directory, each
  on a line of its own.
\<close>

theorem parser_writes_lines:
  assumes "path_exists bfs srcPath" and "can_open output_path"
    and "\<forall>p \<in> set (html_files bfs). prefix srcPath p \<and> NL \<notin> set p"
  shows "\<exists>content. parser_main bfs can_open fs = Inr (0, fs(output_path \<mapsto> content)) \<and>
    read_lines content = map doc_text (List.map_filter (doc_of fs) (html_files bfs))"
proof -
  let ?docs = "List.map_filter (doc_of fs) (html_files bfs)"
  have "NL \<notin> set (doc_text d)" if "d \<in> set ?docs" for d
    using that assms(3) doc_of_no_newline [of fs _ d] by (auto simp: List.map_filter_def)
  moreover have "doc_line = (\<lambda>d. doc_text d @ [NL])" by (simp add: doc_line_def doc_text_def fun_eq_iff)
  ultimately have "read_lines (concat (map doc_line ?docs)) = map doc_text ?docs"
    using pieces_append_line [of "map doc_text ?docs" NL] by (auto simp: read_lines_pieces comp_def)
  moreover have "parseDocInfo fs (html_files bfs) [] = Inr (True, ?docs)"
    using parseDocInfo_eq [of "html_files bfs" fs "[]"] assms(3) by simp
  ultimately show ?thesis
    using assms(1,2)
    by (auto simp: parser_main_def enumFile_def saveDocInfo_def foldl_doc_line html_files_def)
qed

definition sample_bfs :: boost_filesystem where
  "sample_bfs = \<lparr>path_exists = (\<lambda>p. True), recursive_directory = (\<lambda>p.
     [\<lparr>is_regular_file = True, extension = ''.html'', path = ''data/input/a.html''\<rparr>,
      \<lparr>is_regular_file = True, extension = ''.css'', path = ''data/input/b.css''\<rparr>])\<rparr>"

theorem parser_writes_lines_witness:
  "\<exists>content. parser_main sample_bfs (\<lambda>p. True)
     [''data/input/a.html'' \<mapsto> ''<title>A</title>'' @ [NL] @ ''<p>b c</p>''] =
       Inr (0, [''data/input/a.html'' \<mapsto> ''<title>A</title>'' @ [NL] @ ''<p>b c</p>'', output_path \<mapsto> content]) \<and>
     read_lines content = [''A'' @ [SEP] @ ''Ab c'' @ [SEP] @ urlHead @ ''/a.html'']"
proof -
  let ?fs = "[''data/input/a.html'' \<mapsto> ''<title>A</title>'' @ [NL] @ ''<p>b c</p>''] :: filesystem"
  have "\<forall>p \<in> set (html_files sample_bfs). prefix srcPath p \<and> NL \<notin> set p" by code_simp
  moreover have "map doc_text (List.map_filter (doc_of ?fs) (html_files sample_bfs)) =
      [''A'' @ [SEP] @ ''Ab c'' @ [SEP] @ urlHead @ ''/a.html'']"
    by code_simp
  moreover have "path_exists sample_bfs srcPath" by (simp add: sample_bfs_def)
  ultimately show ?thesis
    using parser_writes_lines [of sample_bfs "\<lambda>p. True" ?fs] by metis
qed

text \<open>
  A path shorter than \<open>data/input\<close> makes \<open>substr\<close> throw, and the exception ends the program: no
  document of the run is saved. Every other path gives its tail after the length of \<open>data/input\<close>, whatever
  it starts with.
\<close>

theorem parse_url:
  "parseUrl p = (if length p < 10 then Inl OutOfRange else Inr (urlHead @ drop 10 p))"
proof -
  have "length srcPath = 10" by code_simp
  then show ?thesis by (simp only: parseUrl_def substr_from_def) simp
qed

end
