(* ===== verification/IndexHpp.thy ===== *)
theory IndexHpp imports ParserDocs begin

text \<open>
  \<open>index.hpp\<close>: the forward index from document ids to documents, and the inverted index from keywords to
  the documents that contain them, with their weights.

  \<^item> \<open>engine\<close> holds what the index and the searcher call: the word segmentation, and the parameters for
    Boost. \<open>en_order\<close> is the order in which the loop over the \<open>unordered_map\<close> of a document sees its
    entries; nothing depends on it but that it is a permutation.
  \<^item> Counters and weights are 64-bit words. Ids and sizes of vectors are natural numbers.
  \<^item> The invariant \<open>index_ok\<close>: a document's id is its position, and the list of a keyword has the
    keyword, valid ids, and each id once, in increasing order.
\<close>

section \<open>State\<close>

record indexDoc =
  idx_title :: string
  idx_content :: string
  idx_url :: string
  idx_docId :: nat

record invertedElem =
  ie_docId :: nat
  ie_keyword :: string
  ie_weight :: u64

record keywordCnt =
  titleCnt :: u64
  contentCnt :: u64

record index =
  forwardIndex :: "indexDoc list"
  invertedIndex :: "string \<rightharpoonup> invertedElem list"

record engine =
  en_fp :: fpenv
  en_lower :: "string \<Rightarrow> string"
  en_split :: splitter
  en_order :: "(string \<times> keywordCnt) list \<Rightarrow> (string \<times> keywordCnt) list"
  en_jieba :: jiebaUtil

definition new_index :: index where
  "new_index = \<lparr>forwardIndex = [], invertedIndex = Map.empty\<rparr>"

section \<open>Operations\<close>

definition getInvertedList :: "index \<Rightarrow> string \<Rightarrow> invertedElem list option" where
  "getInvertedList ix keyword = invertedIndex ix keyword"

definition getForwardIndex :: "index \<Rightarrow> nat \<Rightarrow> indexDoc option" where
  "getForwardIndex ix docId =
     (if docId \<ge> length (forwardIndex ix) then None else Some (forwardIndex ix ! docId))"

text \<open>\<open>buildForwardIndex\<close>: the result of \<open>split\<close> is not looked at, and the three fields are read with
\<open>operator[]\<close>, which does not check.\<close>

definition buildForwardIndex :: "engine \<Rightarrow> string \<Rightarrow> index \<Rightarrow> fault + indexDoc \<times> index" where
  "buildForwardIndex en file ix =
     (let fileResult = snd (split (en_split en) file [SEP]) in
      if length fileResult < 3 then Inl OutOfBounds
      else let doc = \<lparr>idx_title = fileResult ! 0, idx_content = fileResult ! 1, idx_url = fileResult ! 2,
                      idx_docId = length (forwardIndex ix)\<rparr>
           in Inr (doc, ix\<lparr>forwardIndex := forwardIndex ix @ [doc]\<rparr>))"

text \<open>\<open>keywordsMap[k]\<close> with a change of the entry, which is there with zeros when it was not.\<close>

fun at_keyword :: "(keywordCnt \<Rightarrow> keywordCnt) \<Rightarrow> string \<Rightarrow> (string \<times> keywordCnt) list \<Rightarrow> (string \<times> keywordCnt) list" where
  "at_keyword f k [] = [(k, f \<lparr>titleCnt = 0, contentCnt = 0\<rparr>)]"
| "at_keyword f k ((k', c) # m) = (if k = k' then (k', f c) # m else (k', c) # at_keyword f k m)"

definition bump_title :: "keywordCnt \<Rightarrow> keywordCnt" where
  "bump_title c = c\<lparr>titleCnt := titleCnt c + 1\<rparr>"

definition bump_content :: "keywordCnt \<Rightarrow> keywordCnt" where
  "bump_content c = c\<lparr>contentCnt := contentCnt c + 1\<rparr>"

definition keywords_of :: "engine \<Rightarrow> string \<Rightarrow> string list" where
  "keywords_of en s = map (en_lower en) (cutStringNoStop (en_fp en) (en_lower en) (en_jieba en) s)"

definition count_keywords :: "engine \<Rightarrow> indexDoc \<Rightarrow> (string \<times> keywordCnt) list" where
  "count_keywords en doc =
     foldl (\<lambda>m k. at_keyword bump_content k m)
       (foldl (\<lambda>m k. at_keyword bump_title k m) [] (keywords_of en (idx_title doc)))
       (keywords_of en (idx_content doc))"

definition titleWeight :: u64 where "titleWeight = 40"
definition contentWeight :: u64 where "contentWeight = 1"

definition push_item :: "nat \<Rightarrow> (string \<rightharpoonup> invertedElem list) \<Rightarrow> string \<times> keywordCnt \<Rightarrow> (string \<rightharpoonup> invertedElem list)" where
  "push_item docId im = (\<lambda>(k, c).
     im(k \<mapsto> (case im k of None \<Rightarrow> [] | Some l \<Rightarrow> l) @
       [\<lparr>ie_docId = docId, ie_keyword = k,
         ie_weight = titleCnt c * titleWeight + contentCnt c * contentWeight\<rparr>]))"

definition buildInvertedIndex :: "engine \<Rightarrow> indexDoc \<Rightarrow> index \<Rightarrow> bool \<times> index" where
  "buildInvertedIndex en doc ix =
     (True, ix\<lparr>invertedIndex :=
        foldl (push_item (idx_docId doc)) (invertedIndex ix) (en_order en (count_keywords en doc))\<rparr>)"

text \<open>The loop of \<open>buildIndex\<close>. Its two \<open>continue\<close> branches are for results that the two functions never
give.\<close>

fun build_lines :: "engine \<Rightarrow> string list \<Rightarrow> index \<Rightarrow> fault + index" where
  "build_lines en [] ix = Inr ix"
| "build_lines en (line # lines) ix =
     (case buildForwardIndex en line ix of
        Inl e \<Rightarrow> Inl e
      | Inr (doc, ix') \<Rightarrow> build_lines en lines (snd (buildInvertedIndex en doc ix')))"

definition buildIndex :: "engine \<Rightarrow> filesystem \<Rightarrow> string \<Rightarrow> index \<Rightarrow> fault + bool \<times> index" where
  "buildIndex en fs inp ix =
     (case fs inp of
        None \<Rightarrow> Inr (False, ix)
      | Some content \<Rightarrow>
          (case build_lines en (read_lines content) ix of Inl e \<Rightarrow> Inl e | Inr ix' \<Rightarrow> Inr (True, ix')))"

section \<open>Counting\<close>

lemma keys_at_keyword: "fst ` set (at_keyword f k m) = insert k (fst ` set m)"
  by (induction f k m rule: at_keyword.induct) auto

lemma distinct_at_keyword: "distinct (map fst m) \<Longrightarrow> distinct (map fst (at_keyword f k m))"
  by (induction f k m rule: at_keyword.induct)
     (use keys_at_keyword in \<open>auto simp: image_iff dest: equalityD1 [THEN subsetD]\<close>)

lemma map_of_at_keyword:
  "map_of (at_keyword f k m) = (map_of m)(k \<mapsto> f (case map_of m k of None \<Rightarrow> \<lparr>titleCnt = 0, contentCnt = 0\<rparr> | Some c \<Rightarrow> c))"
  by (induction f k m rule: at_keyword.induct) (auto simp: fun_eq_iff)

definition cnt_of :: "(string \<times> keywordCnt) list \<Rightarrow> string \<Rightarrow> keywordCnt" where
  "cnt_of m k = (case map_of m k of None \<Rightarrow> \<lparr>titleCnt = 0, contentCnt = 0\<rparr> | Some c \<Rightarrow> c)"

lemma cnt_of_at_keyword: "cnt_of (at_keyword f k m) k' = (if k' = k then f (cnt_of m k) else cnt_of m k')"
  by (simp add: cnt_of_def map_of_at_keyword)

lemma fold_at_keyword:
  "distinct (map fst m) \<Longrightarrow> distinct (map fst (foldl (\<lambda>m k. at_keyword f k m) m ks))"
  "fst ` set (foldl (\<lambda>m k. at_keyword f k m) m ks) = fst ` set m \<union> set ks"
  "cnt_of (foldl (\<lambda>m k. at_keyword f k m) m ks) k = (f ^^ count_list ks k) (cnt_of m k)"
  by (induction ks arbitrary: m)
     (auto simp: distinct_at_keyword keys_at_keyword cnt_of_at_keyword funpow_swap1)

lemma funpow_bump:
  "(bump_title ^^ n) c = c\<lparr>titleCnt := titleCnt c + of_nat n\<rparr>"
  "(bump_content ^^ n) c = c\<lparr>contentCnt := contentCnt c + of_nat n\<rparr>"
  by (induction n) (simp_all add: bump_title_def bump_content_def algebra_simps)

lemma count_keywords_spec:
  "distinct (map fst (count_keywords en doc))"
  "fst ` set (count_keywords en doc) = set (keywords_of en (idx_title doc)) \<union> set (keywords_of en (idx_content doc))"
  "cnt_of (count_keywords en doc) k =
     \<lparr>titleCnt = of_nat (count_list (keywords_of en (idx_title doc)) k),
      contentCnt = of_nat (count_list (keywords_of en (idx_content doc)) k)\<rparr>"
  by (auto simp: count_keywords_def fold_at_keyword funpow_bump cnt_of_def [of "[]"])

section \<open>The inverted index\<close>

text \<open>A document that has a keyword, and the element it gets in the list of the keyword.\<close>

definition has_keyword :: "engine \<Rightarrow> string \<Rightarrow> indexDoc \<Rightarrow> bool" where
  "has_keyword en k doc \<longleftrightarrow>
     k \<in> set (keywords_of en (idx_title doc)) \<or> k \<in> set (keywords_of en (idx_content doc))"

definition posting :: "engine \<Rightarrow> string \<Rightarrow> indexDoc \<Rightarrow> invertedElem" where
  "posting en k doc =
     \<lparr>ie_docId = idx_docId doc, ie_keyword = k,
      ie_weight = of_nat (40 * count_list (keywords_of en (idx_title doc)) k +
        count_list (keywords_of en (idx_content doc)) k)\<rparr>"

definition orders :: "engine \<Rightarrow> bool" where
  "orders en \<longleftrightarrow> (\<forall>xs. mset (en_order en xs) = mset xs)"

lemma fold_push_item:
  "distinct (map fst xs) \<Longrightarrow> foldl (push_item d) im xs k =
     (case map_of xs k of None \<Rightarrow> im k
      | Some c \<Rightarrow> Some ((case im k of None \<Rightarrow> [] | Some l \<Rightarrow> l) @
          [\<lparr>ie_docId = d, ie_keyword = k, ie_weight = titleCnt c * titleWeight + contentCnt c * contentWeight\<rparr>]))"
proof (induction xs arbitrary: im)
  case (Cons x xs)
  obtain k' c where x: "x = (k', c)" by (cases x)
  from Cons.prems x have "map_of xs k' = None" by (simp add: map_of_eq_None_iff)
  with Cons x show ?case by (auto simp: push_item_def split: option.splits)
qed simp

lemma map_of_permuted:
  assumes "distinct (map fst xs)" and "mset ys = mset xs"
  shows "distinct (map fst ys) \<and> map_of ys = map_of xs"
proof -
  have "mset (map fst ys) = mset (map fst xs)" unfolding mset_map assms(2) ..
  then have d: "distinct (map fst ys)" using assms(1) mset_eq_imp_distinct_iff by blast
  have "set ys = set xs" using assms(2) by (rule mset_eq_setD)
  with d assms(1) show ?thesis by (simp add: map_of_inject_set)
qed

lemma buildInvertedIndex_spec:
  assumes "orders en"
  shows "invertedIndex (snd (buildInvertedIndex en doc ix)) k =
    (if has_keyword en k doc
     then Some ((case invertedIndex ix k of None \<Rightarrow> [] | Some l \<Rightarrow> l) @ [posting en k doc])
     else invertedIndex ix k)"
proof -
  let ?m = "count_keywords en doc"
  note c = count_keywords_spec [of en doc]
  have p: "distinct (map fst (en_order en ?m)) \<and> map_of (en_order en ?m) = map_of ?m"
    using c(1) assms by (intro map_of_permuted) (simp_all add: orders_def)
  have "map_of ?m k = (if has_keyword en k doc then Some (cnt_of ?m k) else None)"
    using c(2) by (auto simp: has_keyword_def cnt_of_def map_of_eq_None_iff split: option.splits)
  with p show ?thesis
    by (simp add: buildInvertedIndex_def fold_push_item c(3) posting_def titleWeight_def contentWeight_def
        mult.commute)
qed

section \<open>Building\<close>

text \<open>The document that the index makes of a line, with the id \<open>n\<close>.\<close>

definition line_doc :: "engine \<Rightarrow> nat \<times> string \<Rightarrow> indexDoc" where
  "line_doc en = (\<lambda>(n, line). let f = en_split en line [SEP] in
     \<lparr>idx_title = f ! 0, idx_content = f ! 1, idx_url = f ! 2, idx_docId = n\<rparr>)"

definition postings :: "engine \<Rightarrow> string \<Rightarrow> indexDoc list \<Rightarrow> invertedElem list" where
  "postings en k docs = map (posting en k) (filter (has_keyword en k) docs)"

lemma buildForwardIndex_eq:
  "buildForwardIndex en line ix =
     (if length (en_split en line [SEP]) < 3 then Inl OutOfBounds
      else let doc = line_doc en (length (forwardIndex ix), line)
           in Inr (doc, ix\<lparr>forwardIndex := forwardIndex ix @ [doc]\<rparr>))"
  by (simp add: buildForwardIndex_def split_def line_doc_def Let_def)

lemma forwardIndex_buildInvertedIndex [simp]:
  "forwardIndex (snd (buildInvertedIndex en doc ix)) = forwardIndex ix"
  by (simp add: buildInvertedIndex_def)

definition appended :: "'a list option \<Rightarrow> 'a list \<Rightarrow> 'a list option" where
  "appended old new = (if new = [] then old else Some ((case old of None \<Rightarrow> [] | Some l \<Rightarrow> l) @ new))"

lemma appended_Nil [simp]: "appended old [] = old"
  by (simp add: appended_def)

lemma appended_appended: "appended (appended old xs) ys = appended old (xs @ ys)"
  by (auto simp: appended_def split: option.splits)

lemma build_lines_spec:
  assumes "orders en"
  shows "build_lines en lines ix = Inr ix' \<Longrightarrow>
    (\<forall>line \<in> set lines. 3 \<le> length (en_split en line [SEP])) \<and>
    forwardIndex ix' = forwardIndex ix @ map (line_doc en) (enumerate (length (forwardIndex ix)) lines) \<and>
    (\<forall>k. invertedIndex ix' k = appended (invertedIndex ix k)
       (postings en k (map (line_doc en) (enumerate (length (forwardIndex ix)) lines))))"
proof (induction lines arbitrary: ix)
  case (Cons line lines)
  let ?doc = "line_doc en (length (forwardIndex ix), line)"
  let ?ix = "ix\<lparr>forwardIndex := forwardIndex ix @ [?doc]\<rparr>"
  from Cons.prems have l: "3 \<le> length (en_split en line [SEP])"
    and b: "build_lines en lines (snd (buildInvertedIndex en ?doc ?ix)) = Inr ix'"
    by (auto simp: buildForwardIndex_eq Let_def split: if_splits)
  have "invertedIndex (snd (buildInvertedIndex en ?doc ?ix)) k =
      appended (invertedIndex ix k) (postings en k [?doc])" for k
    by (simp add: buildInvertedIndex_spec [OF assms] appended_def postings_def)
  moreover have "appended (appended old (postings en k [d])) (postings en k ds) = appended old (postings en k (d # ds))"
    for old k d ds by (simp add: appended_appended postings_def)
  ultimately show ?case
    using Cons.IH [OF b] l by simp
qed (simp add: postings_def)

lemma build_lines_fails:
  "orders en \<Longrightarrow> (\<exists>line \<in> set lines. length (en_split en line [SEP]) < 3) \<longleftrightarrow> build_lines en lines ix = Inl OutOfBounds"
proof (induction lines arbitrary: ix)
  case (Cons line lines)
  then show ?case by (auto simp: buildForwardIndex_eq Let_def)
qed simp

lemma build_lines_ok:
  assumes "orders en" and "\<forall>line \<in> set lines. 3 \<le> length (en_split en line [SEP])"
  obtains ix' where "build_lines en lines ix = Inr ix'"
  using assms(2) that by (induction lines arbitrary: ix) (auto simp: buildForwardIndex_eq Let_def)

definition index_ok :: "index \<Rightarrow> bool" where
  "index_ok ix \<longleftrightarrow>
     (\<forall>i < length (forwardIndex ix). idx_docId (forwardIndex ix ! i) = i) \<and>
     (\<forall>k l. invertedIndex ix k = Some l \<longrightarrow> l \<noteq> [] \<and> sorted_wrt (<) (map ie_docId l) \<and>
        (\<forall>e \<in> set l. ie_keyword e = k \<and> ie_docId e < length (forwardIndex ix)))"

lemma index_ok_new: "index_ok new_index"
  by (simp add: index_ok_def new_index_def)

lemma sorted_postings:
  assumes "sorted_wrt (<) (map idx_docId docs)"
  shows "sorted_wrt (<) (map ie_docId (postings en k docs))"
proof -
  have "map ie_docId (postings en k docs) = map idx_docId (filter (has_keyword en k) docs)"
    by (simp add: postings_def posting_def)
  moreover have "sorted_wrt (<) (map idx_docId (filter P docs))" for P
    using assms by (simp add: sorted_wrt_map sorted_wrt_filter)
  ultimately show ?thesis by simp
qed

lemma line_doc_ids: "map idx_docId (map (line_doc en) (enumerate n lines)) = [n..<n + length lines]"
proof -
  have "idx_docId \<circ> line_doc en = fst" by (auto simp: line_doc_def Let_def)
  then show ?thesis by (simp add: map_fst_enumerate)
qed

lemma build_lines_index_ok:
  assumes "orders en" and "index_ok ix" and "build_lines en lines ix = Inr ix'"
  shows "index_ok ix'"
proof -
  let ?n = "length (forwardIndex ix)" and ?docs = "map (line_doc en) (enumerate (length (forwardIndex ix)) lines)"
  have f: "forwardIndex ix' = forwardIndex ix @ ?docs"
    and v: "\<And>k. invertedIndex ix' k = appended (invertedIndex ix k) (postings en k ?docs)"
    using build_lines_spec [OF assms(1,3)] by blast+
  have ids: "idx_docId (?docs ! i) = ?n + i" if "i < length lines" for i
    using line_doc_ids [of en ?n lines] that by (metis length_map length_enumerate nth_map nth_upt nat_add_left_cancel_less)
  have "idx_docId (forwardIndex ix' ! i) = i" if "i < length (forwardIndex ix')" for i
    using assms(2) ids [of "i - ?n"] that by (simp add: f nth_append index_ok_def split: if_splits)
  moreover have "l \<noteq> [] \<and> sorted_wrt (<) (map ie_docId l) \<and>
      (\<forall>e \<in> set l. ie_keyword e = k \<and> ie_docId e < length (forwardIndex ix'))"
    if l: "invertedIndex ix' k = Some l" for k l
  proof -
    have p: "sorted_wrt (<) (map ie_docId (postings en k ?docs))"
      by (rule sorted_postings, subst line_doc_ids) (simp add: strict_sorted_iff)
    have e: "ie_keyword e = k \<and> ?n \<le> ie_docId e \<and> ie_docId e < ?n + length lines"
      if "e \<in> set (postings en k ?docs)" for e
    proof -
      from that obtain d where "d \<in> set ?docs" "e = posting en k d" by (auto simp: postings_def)
      then have "ie_docId e \<in> set (map idx_docId ?docs)" and "ie_keyword e = k" by (auto simp: posting_def)
      then show ?thesis unfolding line_doc_ids by simp
    qed
    show ?thesis
    proof (cases "postings en k ?docs = []")
      case True
      with l v assms(2) show ?thesis by (fastforce simp: index_ok_def f)
    next
      case False
      show ?thesis
      proof (cases "invertedIndex ix k")
        case None
        with l v False have "l = postings en k ?docs" by (simp add: appended_def)
        with p e False show ?thesis by (simp add: f)
      next
        case (Some l0)
        with assms(2) have l0: "sorted_wrt (<) (map ie_docId l0)"
          "\<forall>e \<in> set l0. ie_keyword e = k \<and> ie_docId e < ?n" by (auto simp: index_ok_def)
        from Some l v False have "l = l0 @ postings en k ?docs" by (simp add: appended_def)
        moreover have "\<forall>a \<in> set l0. \<forall>b \<in> set (postings en k ?docs). ie_docId a < ie_docId b"
          using l0(2) e by (meson less_le_trans)
        ultimately show ?thesis using l0 p e False
          by (auto simp: sorted_wrt_append f trans_less_add1 simp del: enumerate_simps)
      qed
    qed
  qed
  ultimately show ?thesis by (simp add: index_ok_def)
qed

section \<open>The interface of the index\<close>

text \<open>
  What the searcher relies on: every element of a list names its keyword and an existing document, and no
  document is twice in a list. The client's lemmas are proved from these laws.
\<close>

locale posting_lists =
  fixes lookup :: "'i \<Rightarrow> string \<Rightarrow> invertedElem list option"
    and fetch :: "'i \<Rightarrow> nat \<Rightarrow> indexDoc option" and ok :: "'i \<Rightarrow> bool"
  assumes fetch_listed: "ok ix \<Longrightarrow> lookup ix k = Some l \<Longrightarrow> e \<in> set l \<Longrightarrow>
      \<exists>doc. fetch ix (ie_docId e) = Some doc \<and> idx_docId doc = ie_docId e"
    and listed_once: "ok ix \<Longrightarrow> lookup ix k = Some l \<Longrightarrow> distinct (map ie_docId l)"
    and listed_keyword: "ok ix \<Longrightarrow> lookup ix k = Some l \<Longrightarrow> e \<in> set l \<Longrightarrow> ie_keyword e = k"

interpretation idx: posting_lists getInvertedList getForwardIndex index_ok
proof unfold_locales
  fix ix k l e
  assume ok: "index_ok ix" and l: "getInvertedList ix k = Some l"
  then have i: "sorted_wrt (<) (map ie_docId l)" "\<forall>e \<in> set l. ie_keyword e = k \<and> ie_docId e < length (forwardIndex ix)"
    by (auto simp: index_ok_def getInvertedList_def)
  then show "distinct (map ie_docId l)" by (simp add: strict_sorted_iff)
  assume "e \<in> set l"
  with i ok show "ie_keyword e = k"
    and "\<exists>doc. getForwardIndex ix (ie_docId e) = Some doc \<and> idx_docId doc = ie_docId e"
    by (auto simp: getForwardIndex_def index_ok_def)
qed

section \<open>Properties\<close>

text \<open>
  C3: Building the index of a file into an empty index gives, for line \<open>i\<close>, the document with id \<open>i\<close> and the
  three fields of the line; and for every keyword exactly the documents whose title or content have it,
  in the order of their ids, with 40 times the count in the title plus the count in the content as the weight.
\<close>

theorem build_index_exact:
  assumes "orders en" and "buildIndex en fs inp new_index = Inr (True, ix)"
  shows "\<exists>content. fs inp = Some content \<and>
    forwardIndex ix = map (line_doc en) (enumerate 0 (read_lines content)) \<and>
    (\<forall>k. getInvertedList ix k =
       (if filter (has_keyword en k) (forwardIndex ix) = [] then None
        else Some (map (posting en k) (filter (has_keyword en k) (forwardIndex ix)))))"
proof -
  from assms(2) obtain content where c: "fs inp = Some content"
    and b: "build_lines en (read_lines content) new_index = Inr ix"
    by (auto simp: buildIndex_def split: option.splits sum.splits)
  from build_lines_spec [OF assms(1) b] c show ?thesis
    by (auto simp: new_index_def getInvertedList_def appended_def postings_def)
qed

definition sample_engine :: engine where
  "sample_engine = \<lparr>en_fp = sample_env, en_lower = map tolower, en_split = compress_split, en_order = rev,
     en_jieba = \<lparr>jieba = \<lparr>dict_trie = sample_dict, model = sample_hmm, mp_symbols = default_symbols,
         hmm_symbols = default_symbols, mix_symbols = default_symbols, full_symbols = default_symbols,
         query_symbols = default_symbols, extractor = sample_extractor\<rparr>, stopKeywordMap = {''the'', '' ''}\<rparr>\<rparr>"

lemma orders_sample: "orders sample_engine"
  by (simp add: orders_def sample_engine_def)

definition sample_raw :: string where
  "sample_raw = ''ab'' @ [SEP] @ ''ab b'' @ [SEP] @ ''u1'' @ [NL] @ ''b'' @ [SEP] @ ''b'' @ [SEP] @ ''u2'' @ [NL]"

definition sample_index :: index where
  "sample_index = (case buildIndex sample_engine [''raw'' \<mapsto> sample_raw] ''raw'' new_index of Inr (_, ix) \<Rightarrow> ix)"

lemma sample_index_built: "buildIndex sample_engine [''raw'' \<mapsto> sample_raw] ''raw'' new_index = Inr (True, sample_index)"
proof -
  have "list_all (\<lambda>line. 3 \<le> length (en_split sample_engine line [SEP])) (read_lines sample_raw)"
    by code_simp
  then have l: "\<forall>line \<in> set (read_lines sample_raw). 3 \<le> length (en_split sample_engine line [SEP])"
    by (simp add: list_all_iff)
  obtain ix where "build_lines sample_engine (read_lines sample_raw) new_index = Inr ix"
    using build_lines_ok [OF orders_sample l] .
  then show ?thesis by (simp add: buildIndex_def sample_index_def)
qed

theorem build_index_exact_witness:
  "length (forwardIndex sample_index) = 2 \<and>
   getInvertedList sample_index ''zz'' =
     (if filter (has_keyword sample_engine ''zz'') (forwardIndex sample_index) = [] then None
      else Some (map (posting sample_engine ''zz'') (filter (has_keyword sample_engine ''zz'') (forwardIndex sample_index))))"
proof -
  have "length (read_lines sample_raw) = 2" by code_simp
  with build_index_exact [OF orders_sample sample_index_built] show ?thesis by auto
qed

inductive index_reachable :: "engine \<Rightarrow> index \<Rightarrow> bool" for en where
  start: "index_reachable en new_index"
| build: "index_reachable en ix \<Longrightarrow> buildIndex en fs inp ix = Inr (ok, ix') \<Longrightarrow> index_reachable en ix'"

lemma index_reachable_ok: "index_reachable en ix \<Longrightarrow> orders en \<Longrightarrow> index_ok ix"
  by (induction rule: index_reachable.induct)
     (auto simp: index_ok_new buildIndex_def split: option.splits sum.splits intro: build_lines_index_ok)

text \<open>
  C5: Whatever files are indexed one after the other, with whatever results, every element of the inverted
  index names its keyword and a document that the forward index has under that id, and no list has a
  document twice: the searcher never gets a null pointer from \<open>getForwardIndex\<close>.
\<close>

theorem index_lists_valid:
  assumes "index_reachable en ix" and "orders en" and "getInvertedList ix k = Some l"
  shows "distinct (map ie_docId l) \<and>
    (\<forall>e \<in> set l. ie_keyword e = k \<and>
       (\<exists>doc. getForwardIndex ix (ie_docId e) = Some doc \<and> idx_docId doc = ie_docId e))"
proof -
  have ok: "index_ok ix" using assms(1,2) by (rule index_reachable_ok)
  show ?thesis
    using idx.fetch_listed [OF ok assms(3)] idx.listed_once [OF ok assms(3)] idx.listed_keyword [OF ok assms(3)] by blast
qed

theorem index_lists_valid_witness:
  "\<exists>l. getInvertedList sample_index ''ab'' = Some l \<and> distinct (map ie_docId l)"
proof -
  have "index_reachable sample_engine sample_index"
    by (rule index_reachable.build [OF index_reachable.start sample_index_built])
  moreover have "getInvertedList sample_index ''ab'' \<noteq> None" by code_simp
  ultimately show ?thesis using index_lists_valid [OF _ orders_sample] by blast
qed

text \<open>
  The order in which the hash table of a document's keywords is walked does not matter: two runs
  whose tables have their entries in different orders build the same index, or both fail.
\<close>

theorem index_order_irrelevant:
  assumes "orders (en\<lparr>en_order := f\<rparr>)" and "orders (en\<lparr>en_order := g\<rparr>)"
  shows "buildIndex (en\<lparr>en_order := f\<rparr>) fs inp ix = buildIndex (en\<lparr>en_order := g\<rparr>) fs inp ix"
proof -
  let ?f = "en\<lparr>en_order := f\<rparr>" and ?g = "en\<lparr>en_order := g\<rparr>"
  have i: "snd (buildInvertedIndex ?f doc ix) = snd (buildInvertedIndex ?g doc ix)" for doc ix
  proof -
    have "invertedIndex (snd (buildInvertedIndex ?f doc ix)) = invertedIndex (snd (buildInvertedIndex ?g doc ix))"
      unfolding fun_eq_iff buildInvertedIndex_spec [OF assms(1)] buildInvertedIndex_spec [OF assms(2)]
      by (simp add: has_keyword_def posting_def keywords_of_def)
    then show ?thesis by (simp add: buildInvertedIndex_def)
  qed
  have b: "buildForwardIndex ?f line ix = buildForwardIndex ?g line ix" for line ix
    by (simp add: buildForwardIndex_def)
  have "build_lines ?f lines ix = build_lines ?g lines ix" for lines ix
    by (induction lines arbitrary: ix) (simp_all add: i b split: sum.splits)
  then show ?thesis by (simp add: buildIndex_def split: option.split)
qed

theorem index_order_irrelevant_witness:
  "buildIndex (sample_engine\<lparr>en_order := rev\<rparr>) [''raw'' \<mapsto> sample_raw] ''raw'' new_index =
   buildIndex (sample_engine\<lparr>en_order := (\<lambda>xs. xs)\<rparr>) [''raw'' \<mapsto> sample_raw] ''raw'' new_index"
  by (rule index_order_irrelevant) (simp_all add: orders_def)

section \<open>From the parser to the index\<close>

lemma split_doc_text:
  assumes "split_law bs" and "SEP \<notin> set (doc_title d)" "SEP \<notin> set (doc_content d)" "SEP \<notin> set (doc_url d)"
  shows "doc_content d \<noteq> [] \<Longrightarrow> bs (doc_text d) [SEP] = [doc_title d, doc_content d, doc_url d]"
    and "doc_content d = [] \<Longrightarrow> bs (doc_text d) [SEP] = [doc_title d, doc_url d]"
proof -
  have "weave [doc_title d, doc_content d, doc_url d] [[SEP], [SEP]] = doc_text d" by (simp add: doc_text_def)
  with assms show "bs (doc_text d) [SEP] = [doc_title d, doc_content d, doc_url d]" if "doc_content d \<noteq> []"
    using assms(1) [unfolded split_law_def, rule_format, of "[doc_title d, doc_content d, doc_url d]" "[[SEP], [SEP]]" "[SEP]"]
      that by auto
  have "weave [doc_title d, doc_url d] [[SEP, SEP]] = doc_text d" if "doc_content d = []"
    using that by (simp add: doc_text_def)
  with assms show "bs (doc_text d) [SEP] = [doc_title d, doc_url d]" if "doc_content d = []"
    using assms(1) [unfolded split_law_def, rule_format, of "[doc_title d, doc_url d]" "[[SEP, SEP]]" "[SEP]"]
      that by auto
qed

text \<open>
  C2: What the parser writes is what the index reads: for documents with some content and no separator
  character or newline in their fields, the forward index of the saved file holds the documents in
  their order, field by field, with their positions as ids.
\<close>

theorem index_of_saved_docs:
  assumes "orders en" and "split_law (en_split en)" and "can_open out"
    and "\<forall>d \<in> set docs. doc_content d \<noteq> [] \<and> SEP \<notin> set (doc_title d @ doc_content d @ doc_url d) \<and>
      NL \<notin> set (doc_title d @ doc_content d @ doc_url d)"
  shows "\<exists>fs' ix. saveDocInfo can_open docs out fs = (True, fs') \<and>
    buildIndex en fs' out new_index = Inr (True, ix) \<and>
    map idx_title (forwardIndex ix) = map doc_title docs \<and>
    map idx_content (forwardIndex ix) = map doc_content docs \<and>
    map idx_url (forwardIndex ix) = map doc_url docs \<and>
    map idx_docId (forwardIndex ix) = [0..<length docs]"
proof -
  let ?c = "concat (map doc_line docs)"
  have s: "saveDocInfo can_open docs out fs = (True, fs(out \<mapsto> ?c))"
    using assms(3) by (simp add: saveDocInfo_def foldl_doc_line)
  have "doc_line = (\<lambda>d. doc_text d @ [NL])" by (simp add: doc_line_def doc_text_def fun_eq_iff)
  moreover have "NL \<notin> set (doc_text d)" if "d \<in> set docs" for d
    using assms(4) that by (auto simp: doc_text_def SEP_def)
  ultimately have l: "read_lines ?c = map doc_text docs"
    using pieces_append_line [of "map doc_text docs" NL] by (auto simp: read_lines_pieces comp_def)
  have t: "en_split en (doc_text d) [SEP] = [doc_title d, doc_content d, doc_url d]" if "d \<in> set docs" for d
    using assms(4) that by (intro split_doc_text(1) [OF assms(2)]) auto
  then have "\<forall>line \<in> set (read_lines ?c). 3 \<le> length (en_split en line [SEP])" by (auto simp: l)
  from build_lines_ok [OF assms(1) this] obtain ix where b: "build_lines en (read_lines ?c) new_index = Inr ix" .
  have f: "forwardIndex ix = map (line_doc en) (enumerate 0 (map doc_text docs))"
    using build_lines_spec [OF assms(1) b] l by (simp add: new_index_def)
  have e: "map (g \<circ> line_doc en) (enumerate n (map doc_text ds)) = map h ds"
    if "\<And>n d. d \<in> set ds \<Longrightarrow> g (line_doc en (n, doc_text d)) = h d" for g :: "indexDoc \<Rightarrow> string" and h n ds
    using that by (induction ds arbitrary: n) auto
  have "map idx_title (forwardIndex ix) = map doc_title docs \<and>
    map idx_content (forwardIndex ix) = map doc_content docs \<and> map idx_url (forwardIndex ix) = map doc_url docs"
    unfolding f map_map by (intro conjI e) (simp_all add: line_doc_def t)
  moreover have "map idx_docId (forwardIndex ix) = [0..<length docs]"
    unfolding f line_doc_ids by simp
  ultimately show ?thesis using s b by (auto simp: buildIndex_def)
qed

theorem index_of_saved_docs_witness:
  "\<exists>fs' ix. saveDocInfo (\<lambda>p. True) [\<lparr>doc_title = ''t'', doc_content = ''ab'', doc_url = ''u''\<rparr>] ''raw'' Map.empty = (True, fs') \<and>
    buildIndex sample_engine fs' ''raw'' new_index = Inr (True, ix) \<and> map idx_title (forwardIndex ix) = [''t'']"
proof -
  have "split_law (en_split sample_engine)" by (simp add: sample_engine_def split_law_compress_split)
  from index_of_saved_docs [OF orders_sample this, of "\<lambda>p. True" "''raw''"
      "[\<lparr>doc_title = ''t'', doc_content = ''ab'', doc_url = ''u''\<rparr>]" Map.empty]
  show ?thesis by (auto simp: SEP_def)
qed

text \<open>
  A document without content ends the index in undefined behaviour. The parser saves it (a page with
  an empty title and nothing else outside its tags), but the two separators next to each other are one
  for the splitter, and the third field is read past the end of two.
\<close>

theorem empty_content_breaks_index:
  assumes "split_law (en_split en)" and "orders en" and "doc_content d = []"
    and "SEP \<notin> set (doc_title d @ doc_url d)" and "line = doc_text d" and "line \<in> set (read_lines content)"
  shows "buildIndex en [inp \<mapsto> content] inp ix = Inl OutOfBounds"
proof -
  have "length (en_split en line [SEP]) < 3"
    using split_doc_text(2) [OF assms(1)] assms(3-5) by simp
  then have "build_lines en (read_lines content) ix = Inl OutOfBounds"
    using build_lines_fails [OF assms(2)] assms(6) by blast
  then show ?thesis by (simp add: buildIndex_def)
qed

theorem empty_content_breaks_index_witness:
  "doc_of [''data/input/e.html'' \<mapsto> ''<title></title>''] ''data/input/e.html'' =
     Some \<lparr>doc_title = [], doc_content = [], doc_url = urlHead @ ''/e.html''\<rparr> \<and>
   buildIndex sample_engine [''raw'' \<mapsto> [SEP, SEP] @ urlHead @ ''/e.html''] ''raw'' new_index = Inl OutOfBounds"
proof -
  let ?d = "\<lparr>doc_title = [], doc_content = [], doc_url = urlHead @ ''/e.html''\<rparr>"
  have 1: "doc_of [''data/input/e.html'' \<mapsto> ''<title></title>''] ''data/input/e.html'' = Some ?d"
    and m: "doc_text ?d \<in> set (read_lines ([SEP, SEP] @ urlHead @ ''/e.html''))"
    and n: "SEP \<notin> set (doc_title ?d @ doc_url ?d)" by code_simp+
  have "split_law (en_split sample_engine)" by (simp add: sample_engine_def split_law_compress_split)
  from empty_content_breaks_index [OF this orders_sample _ n refl m] 1 show ?thesis by simp
qed

end
