(* ===== verification/SearcherHpp.thy ===== *)
theory SearcherHpp imports IndexHpp begin

text \<open>
  \<open>searcher.hpp\<close>: a query is cut into words, the lists of the words are gathered by document, the
  documents are sorted by weight, and each gives an element of the JSON answer with a description
  around its first keyword.

  \<^item> \<open>se_sort\<close> is the iteration over the hash table of the results and \<open>std::sort\<close> after it: it gives the
    entries by falling weight, and \<open>sorts\<close> is all that is assumed of the order of equal weights.
  \<^item> \<open>se_write\<close> is the writer of jsoncpp, which is not part of the program: a function of the array of
    the answer's elements.
  \<^item> The facts on the gathered documents are proved in the locale \<open>posting_lists\<close>, the interface of the
    index.
\<close>

section \<open>State\<close>

record invertedElemOut =
  out_docId :: nat
  out_weight :: u64
  out_keywords :: "string list"

record jsonElem =
  js_url :: string
  js_title :: string
  js_desc :: string

record search_engine = engine +
  se_sort :: "invertedElemOut list \<Rightarrow> invertedElemOut list"
  se_write :: "jsonElem list \<Rightarrow> string"

definition sorts :: "search_engine \<Rightarrow> bool" where
  "sorts en \<longleftrightarrow> (\<forall>xs. mset (se_sort en xs) = mset xs \<and>
     sorted_wrt (\<lambda>a b. out_weight b \<le> out_weight a) (se_sort en xs))"

section \<open>Descriptions\<close>

definition no_keyword :: string where "no_keyword = ''keyword does not exist!''"
definition nothing :: string where "nothing = ''nothing!''"
definition dots :: string where "dots = ''...''"

text \<open>\<open>getDesc\<close>. The subtraction in \<open>content.size() - 1\<close> does not wrap: the content is not empty there.\<close>

definition getDesc :: "string \<Rightarrow> string \<Rightarrow> string" where
  "getDesc content keyword =
     (let prevStep = 50; nextStep = 100;
          iter = (case search_by (\<lambda>x y. tolower x = tolower y) keyword content of
                    None \<Rightarrow> length content | Some i \<Rightarrow> i)
      in if iter = length content then no_keyword
         else let pos = iter;
                  b0 = 0;
                  e0 = length content - 1;
                  b = (if pos > b0 + prevStep then b0 + (pos - prevStep) else b0);
                  e = (if pos + nextStep < e0 then pos + nextStep else e0)
              in if b \<ge> e then nothing
                 else (if b > 0 then dots else []) @ take (e - b) (drop b content) @
                      (if e < length content then dots else []))"

section \<open>Searching\<close>

text \<open>One element of a list into \<open>invertedElemOutMap\<close>; a new entry has the weight 0 and no keywords.\<close>

fun add_elem :: "invertedElem \<Rightarrow> invertedElemOut list \<Rightarrow> invertedElemOut list" where
  "add_elem e [] = [\<lparr>out_docId = ie_docId e, out_weight = 0 + ie_weight e, out_keywords = [] @ [ie_keyword e]\<rparr>]"
| "add_elem e (item # m) =
     (if out_docId item = ie_docId e
      then \<lparr>out_docId = ie_docId e, out_weight = out_weight item + ie_weight e,
            out_keywords = out_keywords item @ [ie_keyword e]\<rparr> # m
      else item # add_elem e m)"

definition gather :: "(string \<Rightarrow> invertedElem list option) \<Rightarrow> (string \<Rightarrow> string) \<Rightarrow> string list \<Rightarrow> invertedElemOut list" where
  "gather lookup lower words =
     foldl (\<lambda>m word. case lookup (lower word) of None \<Rightarrow> m | Some l \<Rightarrow> foldl (\<lambda>m e. add_elem e m) m l) [] words"

text \<open>One element of the answer. A null pointer from the index, or no keyword, would be undefined behaviour.\<close>

definition result_of :: "(nat \<Rightarrow> indexDoc option) \<Rightarrow> invertedElemOut \<Rightarrow> fault + jsonElem" where
  "result_of fetch elemOut =
     (case fetch (out_docId elemOut) of
        None \<Rightarrow> Inl NullDereference
      | Some doc \<Rightarrow>
          if out_keywords elemOut = [] then Inl OutOfBounds
          else Inr \<lparr>js_url = idx_url doc,
                    js_title = (if idx_title doc = [] then ''TITLE'' else idx_title doc),
                    js_desc = getDesc (idx_content doc) (out_keywords elemOut ! 0)\<rparr>)"

fun results_of :: "(nat \<Rightarrow> indexDoc option) \<Rightarrow> invertedElemOut list \<Rightarrow> fault + jsonElem list" where
  "results_of fetch [] = Inr []"
| "results_of fetch (elemOut # outs) =
     (case result_of fetch elemOut of
        Inl e \<Rightarrow> Inl e
      | Inr elem \<Rightarrow> (case results_of fetch outs of Inl e \<Rightarrow> Inl e | Inr elems \<Rightarrow> Inr (elem # elems)))"

definition search_nothing :: jsonElem where
  "search_nothing = \<lparr>js_url = ''http://119.3.223.238:8080'', js_title = ''Search nothing!'',
     js_desc = ''Search nothing!''\<rparr>"

definition search_elems :: "search_engine \<Rightarrow> index \<Rightarrow> string \<Rightarrow> fault + jsonElem list" where
  "search_elems en ix query =
     (let keywords = cutString (en_fp en) (en_jieba en) query;
          allInvertedElemOut = se_sort en (gather (getInvertedList ix) (en_lower en) keywords)
      in if allInvertedElemOut = [] then Inr [search_nothing]
         else results_of (getForwardIndex ix) allInvertedElemOut)"

definition search :: "search_engine \<Rightarrow> index \<Rightarrow> string \<Rightarrow> fault + string" where
  "search en ix query =
     (case search_elems en ix query of Inl e \<Rightarrow> Inl e | Inr elems \<Rightarrow> Inr (se_write en elems))"

text \<open>\<open>initSearcher\<close> drops the result of \<open>buildIndex\<close>.\<close>

definition initSearcher :: "search_engine \<Rightarrow> filesystem \<Rightarrow> string \<Rightarrow> index \<Rightarrow> fault + index" where
  "initSearcher en fs inp ix =
     (case buildIndex (engine.truncate en) fs inp ix of Inl e \<Rightarrow> Inl e | Inr (_, ix') \<Rightarrow> Inr ix')"

section \<open>What is gathered\<close>

text \<open>The elements that the words of a query have in their lists, in the order in which they are met.\<close>

definition met :: "(string \<Rightarrow> invertedElem list option) \<Rightarrow> (string \<Rightarrow> string) \<Rightarrow> string list \<Rightarrow> invertedElem list" where
  "met lookup lower words =
     concat (map (\<lambda>w. case lookup (lower w) of None \<Rightarrow> [] | Some l \<Rightarrow> l) words)"

lemma gather_met: "gather lookup lower words = foldl (\<lambda>m e. add_elem e m) [] (met lookup lower words)"
proof -
  have "foldl (\<lambda>m word. case lookup (lower word) of None \<Rightarrow> m | Some l \<Rightarrow> foldl (\<lambda>m e. add_elem e m) m l) m words =
      foldl (\<lambda>m e. add_elem e m) m (met lookup lower words)" for m
    by (induction words arbitrary: m) (simp_all add: met_def split: option.split)
  then show ?thesis by (simp add: gather_def)
qed

lemma ids_add_elem: "out_docId ` set (add_elem e m) = insert (ie_docId e) (out_docId ` set m)"
  by (induction e m rule: add_elem.induct) auto

lemma distinct_add_elem: "distinct (map out_docId m) \<Longrightarrow> distinct (map out_docId (add_elem e m))"
  using ids_add_elem by (induction e m rule: add_elem.induct) (fastforce simp: image_iff)+

text \<open>The entry of a document holds the sum of the weights and the keywords of its elements.\<close>

definition entry_ok :: "invertedElem list \<Rightarrow> invertedElemOut \<Rightarrow> bool" where
  "entry_ok es o' \<longleftrightarrow>
     out_weight o' = sum_list (map ie_weight (filter (\<lambda>e. ie_docId e = out_docId o') es)) \<and>
     out_keywords o' = map ie_keyword (filter (\<lambda>e. ie_docId e = out_docId o') es)"

lemma entry_ok_snoc: "out_docId x \<noteq> ie_docId e \<Longrightarrow> entry_ok (es @ [e]) x \<longleftrightarrow> entry_ok es x"
  by (simp add: entry_ok_def)

lemma entry_ok_add_elem:
  "distinct (map out_docId m) \<Longrightarrow> \<forall>x \<in> set m. entry_ok es x \<Longrightarrow>
   (\<forall>e' \<in> set es. ie_docId e' = ie_docId e \<longrightarrow> ie_docId e \<in> out_docId ` set m) \<Longrightarrow>
   x \<in> set (add_elem e m) \<Longrightarrow> entry_ok (es @ [e]) x"
proof (induction e m rule: add_elem.induct)
  case (1 e)
  then have "filter (\<lambda>e'. ie_docId e' = ie_docId e) es = []" by (auto simp: filter_empty_conv)
  with 1(4) show ?case by (simp add: entry_ok_def)
next
  case (2 e item m)
  show ?case
  proof (cases "out_docId item = ie_docId e")
    case True
    with 2(2) have n: "ie_docId e \<notin> out_docId ` set m" by simp
    from 2(5) True consider "x \<in> set m"
      | "x = \<lparr>out_docId = ie_docId e, out_weight = out_weight item + ie_weight e,
           out_keywords = out_keywords item @ [ie_keyword e]\<rparr>" by auto
    then show ?thesis
    proof cases
      case 1
      with n have "out_docId x \<noteq> ie_docId e" by (metis imageI)
      with 1 2(3) show ?thesis by (simp add: entry_ok_snoc)
    next
      case 2
      with True \<open>\<forall>x \<in> set (item # m). entry_ok es x\<close> show ?thesis by (simp add: entry_ok_def)
    qed
  next
    case False
    from 2(5) False consider "x = item" | "x \<in> set (add_elem e m)" by auto
    then show ?thesis
    proof cases
      case 1
      with 2(3) False show ?thesis by (simp add: entry_ok_snoc)
    next
      case 2
      have "\<forall>e' \<in> set es. ie_docId e' = ie_docId e \<longrightarrow> ie_docId e \<in> out_docId ` set m"
        using "local.2.prems"(3) False by auto
      with "local.2.IH" [OF False] "local.2.prems" 2 show ?thesis by simp
    qed
  qed
qed

lemma gather_elems:
  "distinct (map out_docId (foldl (\<lambda>m e. add_elem e m) [] es)) \<and>
   out_docId ` set (foldl (\<lambda>m e. add_elem e m) [] es) = ie_docId ` set es \<and>
   (\<forall>x \<in> set (foldl (\<lambda>m e. add_elem e m) [] es). entry_ok es x)"
proof (induction es rule: rev_induct)
  case (snoc e es)
  let ?m = "foldl (\<lambda>m e. add_elem e m) [] es"
  have "\<forall>e' \<in> set es. ie_docId e' = ie_docId e \<longrightarrow> ie_docId e \<in> out_docId ` set ?m"
    using snoc by (auto intro: rev_image_eqI)
  with snoc entry_ok_add_elem [of ?m es e] have "\<forall>x \<in> set (add_elem e ?m). entry_ok (es @ [e]) x" by blast
  with snoc distinct_add_elem [of ?m e] show ?case by (simp add: ids_add_elem)
qed simp

context posting_lists
begin

text \<open>With a sound index no entry makes the loop over the results fail.\<close>

lemma result_of_gathered:
  assumes "ok ix" and "x \<in> set (gather (lookup ix) lower words)"
  shows "\<exists>doc e. fetch ix (out_docId x) = Some doc \<and> idx_docId doc = out_docId x \<and>
    e \<in> set (met (lookup ix) lower words) \<and> ie_docId e = out_docId x \<and>
    result_of (fetch ix) x = Inr \<lparr>js_url = idx_url doc,
      js_title = (if idx_title doc = [] then ''TITLE'' else idx_title doc),
      js_desc = getDesc (idx_content doc) (hd (out_keywords x))\<rparr>"
proof -
  let ?es = "met (lookup ix) lower words"
  note g = gather_elems [of ?es, folded gather_met]
  from assms(2) have "out_docId x \<in> out_docId ` set (gather (lookup ix) lower words)" by blast
  with g obtain e where e: "e \<in> set ?es" "ie_docId e = out_docId x" by auto
  then obtain w l where "lookup ix (lower w) = Some l" "e \<in> set l"
    by (auto simp: met_def dest: sym split: option.splits)
  from fetch_listed [OF assms(1) this] e(2) obtain doc where
    d: "fetch ix (out_docId x) = Some doc" "idx_docId doc = out_docId x" by auto
  have "out_keywords x \<noteq> []" using g assms(2) e by (auto simp: entry_ok_def filter_empty_conv)
  with d e show ?thesis by (auto simp: result_of_def hd_conv_nth)
qed

lemma results_of_gathered:
  assumes "ok ix" and "set outs \<subseteq> set (gather (lookup ix) lower words)"
  shows "\<exists>elems. results_of (fetch ix) outs = Inr elems \<and> map Inr elems = map (result_of (fetch ix)) outs"
  using assms(2)
proof (induction outs)
  case (Cons x outs)
  then have x: "x \<in> set (gather (lookup ix) lower words)" by simp
  from Cons result_of_gathered [OF assms(1) x] show ?case by auto
qed simp

end

section \<open>Properties\<close>

text \<open>The element of the answer for an entry, with the document that the forward index has for it.\<close>

definition answer_of :: "index \<Rightarrow> invertedElemOut \<Rightarrow> jsonElem" where
  "answer_of ix x =
     (let doc = forwardIndex ix ! out_docId x
      in \<lparr>js_url = idx_url doc, js_title = (if idx_title doc = [] then ''TITLE'' else idx_title doc),
          js_desc = getDesc (idx_content doc) (hd (out_keywords x))\<rparr>)"

text \<open>The proof of the next property, which the root theory uses too.\<close>

lemma search_shape:
  assumes "index_reachable (engine.truncate en) ix" and "orders (engine.truncate en)" and "sorts en"
    and "es = met (getInvertedList ix) (en_lower en) (cutString (en_fp en) (en_jieba en) query)"
  shows "\<exists>outs. search en ix query =
      Inr (se_write en (if outs = [] then [search_nothing] else map (answer_of ix) outs)) \<and>
    distinct (map out_docId outs) \<and> set (map out_docId outs) = set (map ie_docId es) \<and>
    sorted_wrt (\<lambda>a b. out_weight b \<le> out_weight a) outs \<and>
    (\<forall>x \<in> set outs. out_keywords x \<noteq> [] \<and>
       out_weight x = sum_list (map ie_weight (filter (\<lambda>e. ie_docId e = out_docId x) es)) \<and>
       out_keywords x = map ie_keyword (filter (\<lambda>e. ie_docId e = out_docId x) es))"
proof -
  have ok: "index_ok ix" using assms(1,2) by (rule index_reachable_ok)
  let ?kws = "cutString (en_fp en) (en_jieba en) query"
  let ?g = "gather (getInvertedList ix) (en_lower en) ?kws"
  define outs where "outs = se_sort en ?g"
  note g = gather_elems [of es, folded gather_met [of "getInvertedList ix" "en_lower en" ?kws, folded assms(4)]]
  have m: "mset outs = mset ?g" and srt: "sorted_wrt (\<lambda>a b. out_weight b \<le> out_weight a) outs"
    using assms(3) by (auto simp: sorts_def outs_def)
  have so: "set outs = set ?g" using m by (rule mset_eq_setD)
  have "mset (map out_docId outs) = mset (map out_docId ?g)" unfolding mset_map m ..
  then have d: "distinct (map out_docId outs)" using g mset_eq_imp_distinct_iff by blast
  have one: "result_of (getForwardIndex ix) x = Inr (answer_of ix x) \<and> out_keywords x \<noteq> [] \<and> entry_ok es x"
    if x: "x \<in> set outs" for x
  proof -
    have "x \<in> set ?g" using x so by simp
    from idx.result_of_gathered [OF ok this] obtain doc e where
      r: "getForwardIndex ix (out_docId x) = Some doc" "e \<in> set es" "ie_docId e = out_docId x"
        "result_of (getForwardIndex ix) x = Inr \<lparr>js_url = idx_url doc,
           js_title = (if idx_title doc = [] then ''TITLE'' else idx_title doc),
           js_desc = getDesc (idx_content doc) (hd (out_keywords x))\<rparr>"
      by (auto simp: assms(4))
    have "doc = forwardIndex ix ! out_docId x" using r(1) by (simp add: getForwardIndex_def split: if_splits)
    moreover have "entry_ok es x" using g \<open>x \<in> set ?g\<close> by blast
    ultimately show ?thesis using r by (auto simp: answer_of_def Let_def entry_ok_def filter_empty_conv)
  qed
  have "results_of (getForwardIndex ix) xs = Inr (map (answer_of ix) xs)" if "set xs \<subseteq> set outs" for xs
    using that by (induction xs) (simp_all add: one)
  then have "search en ix query = Inr (se_write en (if outs = [] then [search_nothing] else map (answer_of ix) outs))"
    by (simp add: search_def search_elems_def outs_def [symmetric] Let_def)
  moreover have "set (map out_docId outs) = set (map ie_docId es)" using g so by simp
  moreover have "\<forall>x \<in> set outs. out_keywords x \<noteq> [] \<and>
       out_weight x = sum_list (map ie_weight (filter (\<lambda>e. ie_docId e = out_docId x) es)) \<and>
       out_keywords x = map ie_keyword (filter (\<lambda>e. ie_docId e = out_docId x) es)"
    using one unfolding entry_ok_def by blast
  ultimately show ?thesis using d srt by (intro exI [of _ outs] conjI)
qed

text \<open>
  C4: On every index that the program can build, a search answers without undefined behaviour. The answer has
  each document once that is in the list of some word of the query, by falling weight, where the weight
  is the sum over all those list elements; without any such document it is the one element for nothing
  found.
\<close>

theorem search_answers:
  assumes "index_reachable (engine.truncate en) ix" and "orders (engine.truncate en)" and "sorts en"
    and "es = met (getInvertedList ix) (en_lower en) (cutString (en_fp en) (en_jieba en) query)"
  shows "\<exists>outs. search en ix query =
      Inr (se_write en (if outs = [] then [search_nothing] else map (answer_of ix) outs)) \<and>
    distinct (map out_docId outs) \<and> set (map out_docId outs) = set (map ie_docId es) \<and>
    sorted_wrt (\<lambda>a b. out_weight b \<le> out_weight a) outs \<and>
    (\<forall>x \<in> set outs. out_keywords x \<noteq> [] \<and>
       out_weight x = sum_list (map ie_weight (filter (\<lambda>e. ie_docId e = out_docId x) es)) \<and>
       out_keywords x = map ie_keyword (filter (\<lambda>e. ie_docId e = out_docId x) es))"
  using assms by (rule search_shape)

definition weight_sort :: "invertedElemOut list \<Rightarrow> invertedElemOut list" where
  "weight_sort xs = rev (sort_key out_weight xs)"

definition sample_search :: search_engine where
  "sample_search = engine.extend sample_engine \<lparr>se_sort = weight_sort, se_write = (\<lambda>es. concat (map js_url es))\<rparr>"

lemma sorts_sample: "sorts sample_search"
  by (auto simp: sorts_def sample_search_def engine.defs weight_sort_def sorted_wrt_rev sorted_wrt_map [symmetric])

lemma truncate_sample_search: "engine.truncate sample_search = sample_engine"
  by (simp add: sample_search_def engine.defs)

theorem search_answers_witness:
  "\<exists>outs. search sample_search sample_index ''ab'' =
     Inr (concat (map js_url (if outs = [] then [search_nothing] else map (answer_of sample_index) outs))) \<and>
     distinct (map out_docId outs)"
proof -
  have r: "index_reachable (engine.truncate sample_search) sample_index"
    unfolding truncate_sample_search by (rule index_reachable.build [OF index_reachable.start sample_index_built])
  have "se_write sample_search = (\<lambda>es. concat (map js_url es))" by (simp add: sample_search_def engine.defs)
  with search_answers [OF r _ sorts_sample refl, of "''ab''"] orders_sample show ?thesis
    unfolding truncate_sample_search by auto
qed

lemma search_by_inside:
  assumes "search_by eq pat s = Some i" and "s \<noteq> []"
  shows "i < length s"
proof (rule ccontr)
  assume "\<not> i < length s"
  with assms have "i = length s" and "matches_at eq pat (drop i s)" and n: "\<forall>j < i. \<not> matches_at eq pat (drop j s)"
    by (auto simp: search_by_Some_iff)
  then have "pat = []" by (cases pat) auto
  with n assms(2) \<open>i = length s\<close> show False by auto
qed

text \<open>
  The description of a text around the first place where the keyword occurs, in any case: from 50 bytes
  before it (or the start) to 100 bytes after it or to the byte before the last, whichever comes first.
  So the last byte of the text is never shown, the closing dots are always there, and a text of a single
  byte gives \<open>nothing!\<close>. A keyword that does not occur, as one that is only in the title, gives a message.
\<close>

theorem get_desc:
  assumes "content \<noteq> []"
  shows "getDesc content keyword =
    (case search_by (\<lambda>x y. tolower x = tolower y) keyword content of
       None \<Rightarrow> ''keyword does not exist!''
     | Some pos \<Rightarrow>
         if length content = 1 then ''nothing!''
         else (if 50 < pos then ''...'' else []) @
              slice content (pos - 50) (min (pos + 100) (length content - 1)) @ ''...'')"
proof (cases "search_by (\<lambda>x y. tolower x = tolower y) keyword content")
  case None
  then show ?thesis by (simp add: getDesc_def no_keyword_def)
next
  case (Some pos)
  have p: "pos < length content" by (rule search_by_inside [OF Some assms])
  let ?e = "min (pos + 100) (length content - 1)"
  have b: "(if pos > 0 + 50 then 0 + (pos - 50) else 0) = pos - 50" by simp
  have e: "(if pos + 100 < length content - 1 then pos + 100 else length content - 1) = ?e" by simp
  have n: "pos - 50 \<ge> ?e \<longleftrightarrow> length content = 1" using p by linarith
  have "?e < length content" using p by linarith
  then show ?thesis
    unfolding getDesc_def Let_def Some option.case b e n
    using p by (auto simp: dots_def nothing_def slice_def)
qed

theorem get_desc_witness:
  "getDesc ''A'' ''a'' = ''nothing!'' \<and> getDesc ''Boost'' ''boost'' = ''Boos...'' \<and>
   getDesc ''Boost'' ''x'' = ''keyword does not exist!''"
proof -
  have "search_by (\<lambda>x y. tolower x = tolower y) ''a'' ''A'' = Some 0"
    and "search_by (\<lambda>x y. tolower x = tolower y) ''boost'' ''Boost'' = Some 0"
    and "search_by (\<lambda>x y. tolower x = tolower y) ''x'' ''Boost'' = None" by code_simp+
  then show ?thesis
    using get_desc [of "''A''" "''a''"] get_desc [of "''Boost''" "''boost''"] get_desc [of "''Boost''" "''x''"]
    by (simp add: slice_def)
qed

text \<open>The documents that a word of the query has, through the inverted index.\<close>

lemma met_docs:
  "d \<in> ie_docId ` set (met lookup lower words) \<longleftrightarrow>
     (\<exists>w l e. w \<in> set words \<and> lookup (lower w) = Some l \<and> e \<in> set l \<and> ie_docId e = d)"
  by (force simp: met_def split: option.splits)

end
