(* ===== verification/Daemonize.thy ===== *)
theory Daemonize imports Prelude begin

text \<open>
  \<open>daemonize.hpp\<close>, with the part of the POSIX process that it and the log change: the table of file
  descriptors, the disposition of SIGPIPE, the session and the file mode mask.

  \<^item> An open file is known by its path. \<open>open\<close> takes the lowest free descriptor, and fails when there is
    none below the limit or when the system cannot open the file.
  \<^item> The result of \<open>fork\<close> is a parameter: positive in the parent, 0 in the child, negative when it fails.
\<close>

section \<open>The process\<close>

type_synonym fd_table = "nat \<rightharpoonup> string"

record process =
  fds :: fd_table
  ignore_sigpipe :: bool
  new_session :: bool
  umask_bits :: nat

definition FD_LIMIT :: nat where "FD_LIMIT = 1024"
definition STDIN_FILENO :: nat where "STDIN_FILENO = 0"
definition STDOUT_FILENO :: nat where "STDOUT_FILENO = 1"
definition STDERR_FILENO :: nat where "STDERR_FILENO = 2"

definition free_fd :: "fd_table \<Rightarrow> nat option" where
  "free_fd t = List.find (\<lambda>i. t i = None) [0..<FD_LIMIT]"

text \<open>\<open>open(file, ...)\<close>: the descriptor and the table, or \<open>None\<close> for -1.\<close>

definition sys_open :: "(string \<Rightarrow> bool) \<Rightarrow> string \<Rightarrow> fd_table \<Rightarrow> (nat \<times> fd_table) option" where
  "sys_open can_open file t =
     (if \<not> can_open file then None
      else (case free_fd t of None \<Rightarrow> None | Some i \<Rightarrow> Some (i, t(i \<mapsto> file))))"

text \<open>\<open>dup2(old, new)\<close>: an invalid \<open>old\<close> leaves the table as it is.\<close>

definition sys_dup2 :: "nat \<Rightarrow> nat \<Rightarrow> fd_table \<Rightarrow> fd_table" where
  "sys_dup2 old new t = (case t old of None \<Rightarrow> t | Some f \<Rightarrow> t(new \<mapsto> f))"

definition sys_close :: "nat \<Rightarrow> fd_table \<Rightarrow> fd_table" where
  "sys_close i t = t(i := None)"

section \<open>Becoming a daemon\<close>

text \<open>The parent leaves with status 0, which is \<open>None\<close>. Everything else goes on, a process whose \<open>fork\<close>
has failed too.\<close>

definition daemonize :: "(string \<Rightarrow> bool) \<Rightarrow> int \<Rightarrow> process \<Rightarrow> process option" where
  "daemonize can_open fork_result p =
     (let p = p\<lparr>ignore_sigpipe := True\<rparr> in
      if fork_result > 0 then None
      else let p = p\<lparr>new_session := True\<rparr> in
        (case sys_open can_open ''/dev/null'' (fds p) of
           None \<Rightarrow> Some p
         | Some (fd, t) \<Rightarrow>
             (let t = sys_dup2 fd STDIN_FILENO t;
                  t = sys_dup2 fd STDOUT_FILENO t;
                  t = sys_dup2 fd STDERR_FILENO t;
                  t = (if fd > STDERR_FILENO then sys_close fd t else t)
              in Some (p\<lparr>fds := t\<rparr>))))"

lemma free_fd_Some: "free_fd t = Some i \<Longrightarrow> t i = None"
  by (auto simp: free_fd_def find_Some_iff)

lemma daemonize_child:
  assumes "fork_result \<le> 0" and "can_open ''/dev/null''" and "free_fd (fds p) \<noteq> None"
  shows "\<exists>p'. daemonize can_open fork_result p = Some p' \<and> ignore_sigpipe p' \<and> new_session p' \<and>
    umask_bits p' = umask_bits p \<and>
    (\<forall>i. fds p' i = (if i \<le> 2 then Some ''/dev/null'' else fds p i))"
proof -
  obtain fd where fd: "free_fd (fds p) = Some fd" using assms(3) by auto
  note n = free_fd_Some [OF fd]
  have "i \<le> 2 \<longleftrightarrow> i = 0 \<or> i = 1 \<or> i = (2 :: nat)" for i by linarith
  with fd n assms(1,2) show ?thesis
    by (auto simp: daemonize_def sys_open_def Let_def sys_dup2_def sys_close_def STDIN_FILENO_def
        STDOUT_FILENO_def STDERR_FILENO_def)
qed

text \<open>
  The process that goes on as the daemon has its three standard descriptors on \<open>/dev/null\<close> and every
  other descriptor as before, whichever descriptors were open before: the one that \<open>open\<close> gave is closed
  exactly when it is none of the three.
\<close>

theorem daemonize_redirects:
  assumes "fork_result \<le> 0" and "can_open ''/dev/null''" and "free_fd (fds p) \<noteq> None"
  shows "\<exists>p'. daemonize can_open fork_result p = Some p' \<and> ignore_sigpipe p' \<and> new_session p' \<and>
    umask_bits p' = umask_bits p \<and>
    (\<forall>i. fds p' i = (if i \<le> 2 then Some ''/dev/null'' else fds p i))"
  using assms by (rule daemonize_child)

lemma free_fd_exists: "3 \<le> i \<Longrightarrow> i < FD_LIMIT \<Longrightarrow> t i = None \<Longrightarrow> free_fd t \<noteq> None"
  by (auto simp: free_fd_def find_None_iff)

theorem daemonize_redirects_witness:
  "\<exists>p'. daemonize (\<lambda>f. True) 0 \<lparr>fds = [0 \<mapsto> ''tty'', 1 \<mapsto> ''tty'', 2 \<mapsto> ''tty'', 4 \<mapsto> ''x''], ignore_sigpipe = False,
     new_session = False, umask_bits = 18\<rparr> = Some p' \<and> fds p' 1 = Some ''/dev/null'' \<and> fds p' 4 = Some ''x'' \<and> fds p' 3 = None"
proof -
  let ?t = "[0 \<mapsto> ''tty'', 1 \<mapsto> ''tty'', 2 \<mapsto> ''tty'', 4 \<mapsto> ''x''] :: fd_table"
  have "\<exists>i. i < 1024 \<and> ?t i = None" by (intro exI [of _ 3]) simp
  then have "free_fd ?t \<noteq> None" by (auto simp: free_fd_def find_None_iff FD_LIMIT_def)
  with daemonize_redirects [of 0 "\<lambda>f. True" "\<lparr>fds = ?t, ignore_sigpipe = False, new_session = False, umask_bits = 18\<rparr>"]
  show ?thesis by auto
qed

end
