(* ===== verification/LogMessage.thy ===== *)
theory LogMessage imports Daemonize begin

text \<open>
  \<open>logMessage.hpp\<close>: the log file that takes over the standard streams, and the entries that go to them.

  \<^item> What \<open>vsnprintf\<close>, \<open>asctime\<close> and \<open>getenv\<close> give is a parameter: the formatted message, the time with its
    newline, the user name if there is one.
  \<^item> An \<open>assert\<close> that fails ends the process: \<open>None\<close>.
\<close>

section \<open>The log file\<close>

definition LOGFILEPATH :: string where "LOGFILEPATH = ''serverLog.log''"

record log =
  logFd :: int

definition new_log :: log where "new_log = \<lparr>logFd = -1\<rparr>"

definition log_enable :: "(string \<Rightarrow> bool) \<Rightarrow> log \<Rightarrow> process \<Rightarrow> (log \<times> process) option" where
  "log_enable can_open l p =
     (let p = p\<lparr>umask_bits := 0\<rparr> in
      case sys_open can_open LOGFILEPATH (fds p) of
        None \<Rightarrow> None
      | Some (fd, t) \<Rightarrow>
          (let t = sys_dup2 fd STDOUT_FILENO t;
               t = sys_dup2 fd STDERR_FILENO t
           in Some (l\<lparr>logFd := int fd\<rparr>, p\<lparr>fds := t\<rparr>)))"

definition log_destroy :: "log \<Rightarrow> process \<Rightarrow> process" where
  "log_destroy l p = (if logFd l \<noteq> -1 then p\<lparr>fds := sys_close (nat (logFd l)) (fds p)\<rparr> else p)"

section \<open>Entries\<close>

definition DEBUG :: int where "DEBUG = 0"
definition NOTICE :: int where "NOTICE = 1"
definition WARNING :: int where "WARNING = 2"
definition FATAL :: int where "FATAL = 3"

definition log_level :: "string list" where
  "log_level = [''DEBUG'', ''NOTICE'', ''WARNING'', ''FATAL'']"

datatype stream = Stdout | Stderr

definition bar :: string where "bar = '' | ''"

text \<open>\<open>vsnprintf(logInfo, sizeof(logInfo) - 1, ...)\<close>: the size 1023 counts the closing zero byte.\<close>

definition log_info :: "string \<Rightarrow> string" where
  "log_info formatted = take (1023 - 1) formatted"

definition logMessage ::
  "int \<Rightarrow> string \<Rightarrow> nat \<Rightarrow> string \<Rightarrow> string \<Rightarrow> string option \<Rightarrow> (stream \<times> string) option" where
  "logMessage level file line formatted asctime name =
     (if \<not> level \<ge> DEBUG then None
      else if \<not> level \<le> FATAL then None
      else let logInfo = log_info formatted;
               out = (if level = FATAL then Stderr else Stdout);
               localTmStr = takeWhile (\<lambda>c. c \<noteq> NL) asctime
           in Some (out, log_level ! nat level @ bar @ localTmStr @ bar @
                (case name of None \<Rightarrow> ''unknow'' | Some n \<Rightarrow> n) @ bar @ logInfo @ bar @
                file @ '':'' @ decimal line @ [NL]))"

section \<open>Properties\<close>

lemma log_enable_fds:
  assumes "log_enable can_open l p = Some (l', p')"
  shows "fds p' 1 = Some LOGFILEPATH \<and> fds p' 2 = Some LOGFILEPATH \<and>
    (\<forall>i f. fds p i = Some f \<longrightarrow> i \<noteq> 1 \<longrightarrow> i \<noteq> 2 \<longrightarrow> fds p' i = Some f) \<and>
    (\<exists>fd. logFd l' = int fd \<and> fds p' fd = Some LOGFILEPATH \<and> fds p fd = None)"
proof -
  from assms obtain fd where fd: "free_fd (fds p) = Some fd"
    and l: "logFd l' = int fd" and t: "fds p' = (fds p)(fd \<mapsto> LOGFILEPATH, 1 \<mapsto> LOGFILEPATH, 2 \<mapsto> LOGFILEPATH)"
    by (auto simp: log_enable_def sys_open_def sys_dup2_def Let_def STDOUT_FILENO_def STDERR_FILENO_def
        split: option.splits if_splits)
  from free_fd_Some [OF fd] l t show ?thesis by auto
qed

text \<open>
  Enabling the log gives standard output and standard error to the log file, whatever they were, and
  touches no other descriptor that was open.
\<close>

theorem log_enable_redirects:
  assumes "log_enable can_open l p = Some (l', p')"
  shows "fds p' 1 = Some LOGFILEPATH \<and> fds p' 2 = Some LOGFILEPATH \<and>
    (\<forall>i f. fds p i = Some f \<longrightarrow> i \<noteq> 1 \<longrightarrow> i \<noteq> 2 \<longrightarrow> fds p' i = Some f) \<and>
    (\<exists>fd. logFd l' = int fd \<and> fds p' fd = Some LOGFILEPATH \<and> fds p fd = None)"
  using assms by (rule log_enable_fds)

theorem log_enable_redirects_witness:
  "\<exists>l p. log_enable (\<lambda>f. True) new_log \<lparr>fds = [0 \<mapsto> ''tty''], ignore_sigpipe = True, new_session = True, umask_bits = 18\<rparr> =
     Some (l, p) \<and> fds p 2 = Some LOGFILEPATH \<and> fds p 0 = Some ''tty''"
proof -
  let ?p = "\<lparr>fds = [0 \<mapsto> ''tty''], ignore_sigpipe = True, new_session = True, umask_bits = 18\<rparr>"
  have "\<exists>i. i < (1024 :: nat) \<and> fds ?p i = None" by (intro exI [of _ 3]) simp
  then have "free_fd (fds ?p) \<noteq> None" by (auto simp: free_fd_def find_None_iff FD_LIMIT_def)
  then obtain l p where e: "log_enable (\<lambda>f. True) new_log ?p = Some (l, p)"
    by (auto simp: log_enable_def sys_open_def Let_def)
  from e log_enable_redirects [OF e] show ?thesis by auto
qed

text \<open>
  A log entry is written for the four levels only; FATAL goes to standard error and the others to
  standard output. The message in it is cut after 1022 bytes, and an entry whose message, file and user have
  no newline is one line.
\<close>

theorem log_message:
  "logMessage level file line msg asctime name =
     (if level < 0 \<or> 3 < level then None
      else Some (if level = 3 then Stderr else Stdout,
        log_level ! nat level @ bar @ takeWhile (\<lambda>c. c \<noteq> NL) asctime @ bar @
        (case name of None \<Rightarrow> ''unknow'' | Some n \<Rightarrow> n) @ bar @ take 1022 msg @ bar @
        file @ '':'' @ decimal line @ [NL])) \<and>
   (NL \<notin> set msg \<union> set file \<union> (case name of None \<Rightarrow> {} | Some n \<Rightarrow> set n) \<longrightarrow>
      (case logMessage level file line msg asctime name of None \<Rightarrow> True
       | Some (out, entry) \<Rightarrow> length (read_lines entry) = 1))"
  (is "?eq \<and> (?nl \<longrightarrow> ?one)")
proof -
  have e: ?eq by (auto simp: logMessage_def DEBUG_def FATAL_def log_info_def Let_def)
  moreover have ?one if n: ?nl
  proof (cases "level < 0 \<or> 3 < level")
    case False
    let ?l = "log_level ! nat level @ bar @ takeWhile (\<lambda>c. c \<noteq> NL) asctime @ bar @
        (case name of None \<Rightarrow> ''unknow'' | Some n \<Rightarrow> n) @ bar @ take 1022 msg @ bar @
        file @ '':'' @ decimal line"
    have "0 \<le> level" and "level < 4" using False by auto
    then have "nat level = 0 \<or> nat level = 1 \<or> nat level = 2 \<or> nat level = 3" by linarith
    then have "NL \<notin> set (log_level ! nat level)" by (auto simp: log_level_def)
    moreover have "NL \<notin> set (takeWhile (\<lambda>c. c \<noteq> NL) asctime)" by (auto dest: set_takeWhileD)
    ultimately have "NL \<notin> set ?l"
      using n decimal_no_newline [of line] by (auto simp: bar_def dest: in_set_takeD split: option.splits)
    then have "read_lines (?l @ [NL]) = [?l]"
      using pieces_piece [of NL ?l "[]"] by (simp add: read_lines_pieces)
    with False e show ?thesis by simp
  qed (use e in simp)
  ultimately show ?thesis by blast
qed

theorem log_message_witness:
  "logMessage 3 ''a.cc'' 7 ''stop'' (''Mon'' @ [NL]) None =
     Some (Stderr, ''FATAL | Mon | unknow | stop | a.cc:7'' @ [NL])"
proof -
  have "decimal 7 = ''7''" by code_simp
  then show ?thesis
    using log_message [of 3 "''a.cc''" 7 "''stop''" "''Mon'' @ [NL]" None]
    by (simp add: log_level_def bar_def)
qed

end
