(* ===== verification/HttpText.thy ===== *)
theory HttpText imports Prelude "HOL-Library.List_Lexorder" "HOL-Library.Char_ord" begin

text \<open>
  The text functions of \<open>httplib.h\<close> that a request goes through before the handler sees it: splitting and
  trimming, the codings of URLs, the parser of query strings, header lines, and the check of paths that
  keeps the file handler inside its directory.

  \<^item> A pair of pointers \<open>[b, e)\<close> is the string between them; positions in it are natural numbers.
  \<^item> \<open>char\<close> is signed in the code; the comparisons here are between ASCII characters, so that the sign
    does not matter.
\<close>

section \<open>Trimming and splitting\<close>

definition is_space_or_tab :: "char \<Rightarrow> bool" where
  "is_space_or_tab c \<longleftrightarrow> c = CHR '' '' \<or> c = CHR 9"

definition http_trim :: "string \<Rightarrow> nat \<Rightarrow> nat \<Rightarrow> nat \<times> nat" where
  "http_trim b l r =
     (l + length (takeWhile is_space_or_tab (drop l b)),
      r - length (takeWhile is_space_or_tab (rev (take r b))))"

definition http_trim_copy :: "string \<Rightarrow> string" where
  "http_trim_copy s = (let r = http_trim s 0 (length s) in take (snd r - fst r) (drop (fst r) s))"

text \<open>What \<open>split\<close> gives to its callback for the piece \<open>[beg, i)\<close>, and its loop at \<open>i\<close>.\<close>

definition split_piece :: "string \<Rightarrow> nat \<Rightarrow> nat \<Rightarrow> string list" where
  "split_piece b beg i = (let r = http_trim b beg i in if fst r < snd r then [slice b (fst r) (snd r)] else [])"

function split_loop :: "string \<Rightarrow> char \<Rightarrow> nat \<Rightarrow> nat \<Rightarrow> string list" where
  "split_loop b d beg i =
     (if i < length b then
        (if b ! i = d then split_piece b beg i @ split_loop b d (i + 1) (i + 1)
         else split_loop b d beg (i + 1))
      else if i \<noteq> 0 then split_piece b beg i else [])"
  by pat_completeness auto
termination
  by (relation "measure (\<lambda>(b, d, beg, i). length b - i)") auto

declare split_loop.simps [simp del]

definition http_split :: "string \<Rightarrow> char \<Rightarrow> string list" where
  "http_split b d = split_loop b d 0 0"

section \<open>Hexadecimal digits and UTF-8\<close>

definition is_hex :: "char \<Rightarrow> int option" where
  "is_hex c = (let n = int (of_char c) in
     if 48 \<le> n \<and> n \<le> 57 then Some (n - 48)
     else if 65 \<le> n \<and> n \<le> 70 then Some (n - 65 + 10)
     else if 97 \<le> n \<and> n \<le> 102 then Some (n - 97 + 10)
     else None)"

text \<open>The digits from a position on. Reading at the end gives the closing zero byte, which fails.\<close>

fun hex_digits :: "string \<Rightarrow> nat \<Rightarrow> int \<Rightarrow> int option" where
  "hex_digits s 0 val = Some val"
| "hex_digits [] (Suc cnt) val = None"
| "hex_digits (c # s) (Suc cnt) val =
     (if c = CHR 0x00 then None
      else (case is_hex c of Some v \<Rightarrow> hex_digits s cnt (val * 16 + v) | None \<Rightarrow> None))"

definition from_hex_to_i :: "string \<Rightarrow> nat \<Rightarrow> nat \<Rightarrow> int option" where
  "from_hex_to_i s i cnt = (if i \<ge> length s then None else hex_digits (drop i s) cnt 0)"

function from_i_to_hex :: "nat \<Rightarrow> string" where
  "from_i_to_hex n = (if n div 16 > 0 then from_i_to_hex (n div 16) else []) @ [''0123456789abcdef'' ! (n mod 16)]"
  by pat_completeness auto
termination
  by (relation "measure id") auto

declare from_i_to_hex.simps [simp del]

definition start_with :: "string \<Rightarrow> string \<Rightarrow> bool" where
  "start_with a b \<longleftrightarrow> length b \<le> length a \<and> list_all2 (\<lambda>x y. tolower x = tolower y) (take (length b) a) b"

definition to_utf8 :: "int \<Rightarrow> string" where
  "to_utf8 code = (let w = (word_of_int code :: u32); put = (\<lambda>v. char_of_byte (ucast (v :: u32))) in
     if code < 0x80 then [put (w AND 0x7F)]
     else if code < 0x800 then [put (0xC0 OR (drop_bit 6 w AND 0x1F)), put (0x80 OR (w AND 0x3F))]
     else if code < 0xD800 then
       [put (0xE0 OR (drop_bit 12 w AND 0xF)), put (0x80 OR (drop_bit 6 w AND 0x3F)), put (0x80 OR (w AND 0x3F))]
     else if code < 0xE000 then []
     else if code < 0x10000 then
       [put (0xE0 OR (drop_bit 12 w AND 0xF)), put (0x80 OR (drop_bit 6 w AND 0x3F)), put (0x80 OR (w AND 0x3F))]
     else if code < 0x110000 then
       [put (0xF0 OR (drop_bit 18 w AND 0x7)), put (0x80 OR (drop_bit 12 w AND 0x3F)),
        put (0x80 OR (drop_bit 6 w AND 0x3F)), put (0x80 OR (w AND 0x3F))]
     else [])"

section \<open>URLs\<close>

text \<open>\<open>snprintf(hex, sizeof(hex) - 1, "%02X", c)\<close>.\<close>

definition upper_digits :: string where "upper_digits = ''0123456789ABCDEF''"

definition hex_upper :: "nat \<Rightarrow> string" where
  "hex_upper c = [upper_digits ! (c div 16 mod 16), upper_digits ! (c mod 16)]"

definition encode_char :: "char \<Rightarrow> string" where
  "encode_char c =
     (if c = CHR '' '' then ''%20''
      else if c = CHR ''+'' then ''%2B''
      else if c = CHR 13 then ''%0D''
      else if c = CHR 10 then ''%0A''
      else if c = CHR 39 then ''%27''
      else if c = CHR '','' then ''%2C''
      else if c = CHR '';'' then ''%3B''
      else if of_char c \<ge> (0x80 :: nat) then CHR ''%'' # hex_upper (of_char c)
      else [c])"

text \<open>The loop of \<open>encode_url\<close> ends at the first zero byte.\<close>

definition encode_url :: "string \<Rightarrow> string" where
  "encode_url s = concat (map encode_char (takeWhile (\<lambda>c. c \<noteq> CHR 0x00) s))"

function decode_url :: "string \<Rightarrow> bool \<Rightarrow> string" where
  "decode_url [] conv = []"
| "decode_url (c # cs) conv =
     (if c = CHR ''%'' \<and> cs \<noteq> [] then
        (if hd cs = CHR ''u'' then
           (case from_hex_to_i (c # cs) 2 4 of
              Some val \<Rightarrow> to_utf8 val @ decode_url (drop 5 cs) conv
            | None \<Rightarrow> c # decode_url cs conv)
         else
           (case from_hex_to_i (c # cs) 1 2 of
              Some val \<Rightarrow> char_of_byte (word_of_int val) # decode_url (drop 2 cs) conv
            | None \<Rightarrow> c # decode_url cs conv))
      else if conv \<and> c = CHR ''+'' then CHR '' '' # decode_url cs conv
      else c # decode_url cs conv)"
  by pat_completeness auto
termination
  by (relation "measure (\<lambda>(s, conv). length s)") auto

section \<open>Query strings\<close>

type_synonym multimap = "(string \<times> string) list"

text \<open>\<open>emplace\<close> of a multimap that is ordered by its keys: after the entries with an equal key.\<close>

definition emplace :: "string \<Rightarrow> string \<Rightarrow> multimap \<Rightarrow> multimap" where
  "emplace k v m = takeWhile (\<lambda>(k', v'). k' \<le> k) m @ (k, v) # dropWhile (\<lambda>(k', v'). k' \<le> k) m"

text \<open>The inner callback: the first piece is the key, each later one replaces the value.\<close>

definition key_val_step :: "string \<times> string \<Rightarrow> string \<Rightarrow> string \<times> string" where
  "key_val_step = (\<lambda>(key, val) piece. if key = [] then (piece, val) else (key, piece))"

definition query_piece :: "multimap \<Rightarrow> string \<Rightarrow> multimap" where
  "query_piece params piece =
     (let (key, val) = foldl key_val_step ([], []) (http_split piece (CHR ''=''))
      in if key \<noteq> [] then emplace (decode_url key True) (decode_url val True) params else params)"

definition parse_query_text :: "string \<Rightarrow> multimap \<Rightarrow> multimap" where
  "parse_query_text s params = foldl query_piece params (http_split s (CHR ''&''))"

fun params_to_query_str :: "multimap \<Rightarrow> string" where
  "params_to_query_str [] = []"
| "params_to_query_str [(k, v)] = k @ ''='' @ encode_url v"
| "params_to_query_str ((k, v) # ps) = k @ ''='' @ encode_url v @ ''&'' @ params_to_query_str ps"

section \<open>Paths\<close>

lemma rest_shorter:
  assumes "takeWhile (\<lambda>c. c \<noteq> d) s \<noteq> []"
  shows "length (dropWhile (\<lambda>c. c = d) (dropWhile (\<lambda>c. c \<noteq> d) s)) < length s"
proof -
  have "length (dropWhile (\<lambda>c. c = d) (dropWhile (\<lambda>c. c \<noteq> d) s)) \<le> length (dropWhile (\<lambda>c. c \<noteq> d) s)"
    by (rule length_dropWhile_le)
  also have "\<dots> < length (takeWhile (\<lambda>c. c \<noteq> d) s) + length (dropWhile (\<lambda>c. c \<noteq> d) s)"
    using assms by simp
  also have "\<dots> = length s" by (metis length_append takeWhile_dropWhile_id)
  finally show ?thesis .
qed

text \<open>The loop of \<open>is_valid_path\<close>, at the start of a component. An empty component would fail the
assertion; none comes up, as all slashes before it are skipped.\<close>

function valid_components :: "string \<Rightarrow> nat \<Rightarrow> bool" where
  "valid_components s level =
     (if s = [] then True
      else let comp = takeWhile (\<lambda>c. c \<noteq> CHR ''/'') s;
               rest = dropWhile (\<lambda>c. c = CHR ''/'') (dropWhile (\<lambda>c. c \<noteq> CHR ''/'') s)
           in if comp = [] then False
              else if comp = ''.'' then valid_components rest level
              else if comp = ''..'' then (if level = 0 then False else valid_components rest (level - 1))
              else valid_components rest (level + 1))"
  by pat_completeness auto
termination
  by (relation "measure (\<lambda>(s, level). length s)") (rule wf_measure, simp_all only: in_measure case_prod_conv, (rule rest_shorter, assumption)+)

declare valid_components.simps [simp del]

definition is_valid_path :: "string \<Rightarrow> bool" where
  "is_valid_path path = valid_components (dropWhile (\<lambda>c. c = CHR ''/'') path) 0"

section \<open>What splitting gives\<close>

text \<open>The reference: the parts between separators, the last one included.\<close>

fun parts :: "char \<Rightarrow> string \<Rightarrow> string list" where
  "parts d [] = [[]]"
| "parts d (c # s) = (if c = d then [] # parts d s else (c # hd (parts d s)) # tl (parts d s))"

lemma parts_not_Nil [simp]: "parts d s \<noteq> []"
  by (cases s) auto

lemma parts_append: "d \<notin> set p \<Longrightarrow> parts d (p @ s) = (p @ hd (parts d s)) # tl (parts d s)"
  by (induction p) auto

lemma parts_separated: "d \<notin> set p \<Longrightarrow> parts d (p @ d # s) = p # parts d s"
  by (simp add: parts_append)

lemma parts_single: "d \<notin> set p \<Longrightarrow> parts d p = [p]"
  using parts_append [of d p "[]"] by simp

lemma http_trim_copy_blank: "\<forall>c \<in> set p. is_space_or_tab c \<Longrightarrow> http_trim_copy p = []"
proof -
  assume "\<forall>c \<in> set p. is_space_or_tab c"
  then have "takeWhile is_space_or_tab p = p" by (metis takeWhile_eq_all_conv)
  then have "length (takeWhile is_space_or_tab p) = length p" by (rule arg_cong)
  then show ?thesis by (simp add: http_trim_copy_def http_trim_def Let_def)
qed

lemma http_trim_copy_id: "\<forall>c \<in> set p. \<not> is_space_or_tab c \<Longrightarrow> http_trim_copy p = p"
proof -
  assume b: "\<forall>c \<in> set p. \<not> is_space_or_tab c"
  then have "takeWhile is_space_or_tab p = []" by (cases p) auto
  moreover have "takeWhile is_space_or_tab (rev p) = []" using b by (cases p rule: rev_cases) auto
  ultimately show ?thesis by (simp add: http_trim_copy_def http_trim_def Let_def)
qed

lemma http_trim_copy_space:
  "p \<noteq> [] \<Longrightarrow> \<not> is_space_or_tab (hd p) \<Longrightarrow> \<not> is_space_or_tab (last p) \<Longrightarrow> http_trim_copy (CHR '' '' # p) = p"
proof -
  assume p: "p \<noteq> []" "\<not> is_space_or_tab (hd p)" "\<not> is_space_or_tab (last p)"
  then have "takeWhile is_space_or_tab p = []" by (cases p) auto
  moreover have "takeWhile is_space_or_tab (rev p @ '' '') = []" using p by (cases p rule: rev_cases) auto
  ultimately show ?thesis by (simp add: http_trim_copy_def http_trim_def Let_def is_space_or_tab_def)
qed

lemma split_piece_eq:
  assumes "rest = [] \<or> \<not> is_space_or_tab (hd rest)"
  shows "split_piece (pre @ p @ rest) (length pre) (length pre + length p) =
    (if http_trim_copy p = [] then [] else [http_trim_copy p])"
proof -
  have lt: "takeWhile is_space_or_tab (p @ rest) = takeWhile is_space_or_tab p"
    using assms by (cases rest) (auto simp: takeWhile_append intro: takeWhile_eq_all_conv [THEN iffD2, symmetric])
  let ?l = "length (takeWhile is_space_or_tab p)" and ?r = "length (takeWhile is_space_or_tab (rev p))"
  show ?thesis
  proof (cases "\<forall>c \<in> set p. is_space_or_tab c")
    case True
    then have "takeWhile is_space_or_tab (rev p @ rev pre) = rev p @ takeWhile is_space_or_tab (rev pre)"
      by (simp add: takeWhile_append)
    moreover have "length (takeWhile is_space_or_tab p) = length p"
      using True by (metis takeWhile_eq_all_conv)
    ultimately show ?thesis using http_trim_copy_blank [OF True] lt
      by (simp add: split_piece_def http_trim_def Let_def)
  next
    case False
    then have r: "takeWhile is_space_or_tab (rev p @ rev pre) = takeWhile is_space_or_tab (rev p)"
      by (auto simp: takeWhile_append)
    have "?r \<le> length p" using length_takeWhile_le [of is_space_or_tab "rev p"] by simp
    then have "slice (pre @ p @ rest) (length pre + ?l) (length pre + length p - ?r) = take (length p - ?r - ?l) (drop ?l p)"
      by (simp add: slice_def)
    moreover have "http_trim_copy p = take (length p - ?r - ?l) (drop ?l p)"
      by (simp add: http_trim_copy_def http_trim_def Let_def)
    moreover have "length pre + ?l < length pre + length p - ?r \<longleftrightarrow> take (length p - ?r - ?l) (drop ?l p) \<noteq> []"
      using \<open>?r \<le> length p\<close> length_takeWhile_le [of is_space_or_tab p] by auto
    ultimately show ?thesis using lt r by (simp add: split_piece_def http_trim_def Let_def)
  qed
qed

lemma split_loop_fields:
  "d \<notin> set p \<Longrightarrow> \<not> is_space_or_tab d \<Longrightarrow>
   split_loop (pre @ p @ s) d (length pre) (length pre + length p) =
     filter (\<lambda>q. q \<noteq> []) (map http_trim_copy (parts d (p @ s)))"
proof (induction s arbitrary: pre p)
  case Nil
  have "split_piece (pre @ p) (length pre) (length pre + length p) = (if http_trim_copy p = [] then [] else [http_trim_copy p])"
    using split_piece_eq [of "[]" pre p] by simp
  moreover have "http_trim_copy p = []" if "p = []" using that by (simp add: http_trim_copy_blank)
  ultimately show ?case using Nil parts_single [of d p] by (subst split_loop.simps) auto
next
  case (Cons c s)
  show ?case
  proof (cases "c = d")
    case True
    have "split_loop (pre @ p @ c # s) d (length pre) (length pre + length p) =
        split_piece (pre @ p @ c # s) (length pre) (length pre + length p) @
        split_loop (pre @ p @ c # s) d (length pre + length p + 1) (length pre + length p + 1)"
      using True by (subst split_loop.simps) (simp add: nth_append)
    moreover have "split_loop (pre @ p @ c # s) d (length pre + length p + 1) (length pre + length p + 1) =
        filter (\<lambda>q. q \<noteq> []) (map http_trim_copy (parts d s))"
      using Cons.IH [of "[]" "pre @ p @ [c]"] Cons.prems by simp
    moreover have "split_piece (pre @ p @ c # s) (length pre) (length pre + length p) =
        (if http_trim_copy p = [] then [] else [http_trim_copy p])"
      using Cons.prems True by (intro split_piece_eq) simp
    ultimately show ?thesis using Cons.prems True by (simp add: parts_separated)
  next
    case False
    have "split_loop (pre @ p @ c # s) d (length pre) (length pre + length p) =
        split_loop (pre @ (p @ [c]) @ s) d (length pre) (length pre + length (p @ [c]))"
      using False by (subst split_loop.simps) (simp add: nth_append)
    then show ?thesis using Cons.IH [of "p @ [c]" pre] Cons.prems False by simp
  qed
qed

lemma http_split_eq:
  "\<not> is_space_or_tab d \<Longrightarrow> http_split s d = filter (\<lambda>q. q \<noteq> []) (map http_trim_copy (parts d s))"
  using split_loop_fields [of d "[]" "[]" s] by (simp add: http_split_def)

text \<open>
  Splitting at a separator that is no blank gives the parts between the separators, each without its
  blanks and tabs at both ends, and leaves out those that are then empty.
\<close>

theorem http_split_fields:
  assumes "\<not> is_space_or_tab d"
  shows "http_split s d = filter (\<lambda>q. q \<noteq> []) (map http_trim_copy (parts d s))"
  using assms by (rule http_split_eq)

theorem http_split_fields_witness: "http_split ''a & b&&c '' (CHR ''&'') = [''a'', ''b'', ''c'']"
proof -
  have "\<not> is_space_or_tab (CHR ''&'')" by code_simp
  moreover have "filter (\<lambda>q. q \<noteq> []) (map http_trim_copy (parts (CHR ''&'') ''a & b&&c '')) = [''a'', ''b'', ''c'']"
    by code_simp
  ultimately show ?thesis using http_split_fields [of "CHR ''&''" "''a & b&&c ''"] by metis
qed

section \<open>Coding and decoding URLs\<close>

lemma upper_digit:
  "k < 16 \<Longrightarrow> is_hex (upper_digits ! k) = Some (int k) \<and> upper_digits ! k \<noteq> CHR 0x00 \<and> upper_digits ! k \<noteq> CHR ''u''"
proof -
  have "list_all (\<lambda>k. is_hex (upper_digits ! k) = Some (int k) \<and> upper_digits ! k \<noteq> CHR 0x00 \<and>
      upper_digits ! k \<noteq> CHR ''u'') [0..<16]" by code_simp
  then show "k < 16 \<Longrightarrow> ?thesis" unfolding list_all_iff by (metis atLeastLessThan_iff le0 set_upt)
qed

lemma set_hex_upper: "set (hex_upper n) \<subseteq> set upper_digits"
proof -
  have "length upper_digits = 16" by code_simp
  then show ?thesis by (simp add: hex_upper_def)
qed

lemma upper_digits_disjoint:
  "set (CHR ''%'' # upper_digits) \<inter> {CHR ''&'', CHR ''='', CHR 9, CHR '' '', CHR 13, CHR 10, CHR 0x00} = {}"
  by (simp add: upper_digits_def)

text \<open>A byte written as a percent sign and two digits is read back as that byte.\<close>

lemma decode_url_hex:
  "decode_url (CHR ''%'' # hex_upper (of_char c) @ rest) conv = c # decode_url rest conv"
proof -
  let ?n = "of_char c :: nat"
  have n: "?n < 256" by simp
  then have "?n div 16 < 16" by (simp only: less_mult_imp_div_less)
  then have q: "?n div 16 mod 16 = ?n div 16" "?n div 16 < 16" "?n mod 16 < 16" by simp_all
  have "int (?n div 16) * 16 + int (?n mod 16) = int ?n"
    by (metis div_mult_mod_eq of_nat_add of_nat_mult of_nat_numeral)
  moreover have "char_of_byte (word_of_int (int ?n)) = c"
    by (metis char_of_byte_of byte_of_def of_int_of_nat_eq)
  ultimately show ?thesis
    using q upper_digit by (simp add: hex_upper_def from_hex_to_i_def numeral_2_eq_2)
qed

lemma special_hex:
  "''%20'' = CHR ''%'' # hex_upper (of_char (CHR '' ''))" "''%2B'' = CHR ''%'' # hex_upper (of_char (CHR ''+''))"
  "''%0D'' = CHR ''%'' # hex_upper (of_char (CHR 13))" "''%0A'' = CHR ''%'' # hex_upper (of_char (CHR 10))"
  "''%27'' = CHR ''%'' # hex_upper (of_char (CHR 39))" "''%2C'' = CHR ''%'' # hex_upper (of_char (CHR '',''))"
  "''%3B'' = CHR ''%'' # hex_upper (of_char (CHR '';''))"
  by code_simp+

lemma encode_char_cases:
  "encode_char c = [c] \<and> c \<noteq> CHR '' '' \<and> c \<noteq> CHR 13 \<and> c \<noteq> CHR 10 \<or> encode_char c = CHR ''%'' # hex_upper (of_char c)"
  unfolding encode_char_def special_hex by (simp only: split: if_split) blast

lemma decode_url_encode_char:
  "c \<noteq> CHR ''%'' \<Longrightarrow> decode_url (encode_char c @ rest) conv = c # decode_url rest conv"
  using encode_char_cases [of c]
proof
  assume "c \<noteq> CHR ''%''" and e: "encode_char c = [c] \<and> c \<noteq> CHR '' '' \<and> c \<noteq> CHR 13 \<and> c \<noteq> CHR 10"
  then have "c \<noteq> CHR ''+''" by (auto simp: encode_char_def)
  with \<open>c \<noteq> CHR ''%''\<close> e show ?thesis by simp
qed (metis append_Cons decode_url_hex)

lemma decode_url_encode:
  "set s \<inter> {CHR 0x00, CHR ''%''} = {} \<Longrightarrow> decode_url (encode_url s) conv = s"
proof (induction s)
  case (Cons c s)
  then have c: "c \<noteq> CHR 0x00" "c \<noteq> CHR ''%''" and s: "decode_url (encode_url s) conv = s" by auto
  have "encode_url (c # s) = encode_char c @ encode_url s" using c(1) by (simp add: encode_url_def)
  with c(2) s show ?case by (simp add: decode_url_encode_char)
qed (simp add: encode_url_def)

text \<open>
  A string without zero bytes and without percent signs survives the coding of URLs and the decoding, with
  or without plus signs for blanks, byte for byte. The percent sign is not coded: one before two digits
  comes back as another byte.
\<close>

theorem url_roundtrip:
  assumes "set s \<inter> {CHR 0x00, CHR ''%''} = {}"
  shows "decode_url (encode_url s) conv = s \<and> decode_url (encode_url (''%41'' @ s)) conv = CHR ''A'' # s"
proof -
  have "encode_url (''%41'' @ s) = CHR ''%'' # hex_upper (of_char (CHR ''A'')) @ encode_url s"
    by (simp add: encode_url_def encode_char_def hex_upper_def upper_digits_def)
  then show ?thesis using decode_url_hex [of "CHR ''A''"] decode_url_encode [OF assms] by simp
qed

theorem url_roundtrip_witness:
  "decode_url (encode_url ''a b+c;'') True = ''a b+c;'' \<and> encode_url ''a b+c;'' = ''a%20b%2Bc%3B''"
proof -
  have "set ''a b+c;'' \<inter> {CHR 0x00, CHR ''%''} = {}" by simp
  moreover have "encode_url ''a b+c;'' = ''a%20b%2Bc%3B''" by code_simp
  ultimately show ?thesis using url_roundtrip [of "''a b+c;''" True] by metis
qed

section \<open>Query strings\<close>

text \<open>The keys and values that the query string can hold: the keys are not coded at all, of the values
neither the separators nor the percent sign.\<close>

definition query_special :: "char set" where
  "query_special = {CHR ''&'', CHR ''='', CHR ''%'', CHR 9}"

definition query_safe :: "string \<times> string \<Rightarrow> bool" where
  "query_safe = (\<lambda>(k, v). k \<noteq> [] \<and> set k \<inter> (query_special \<union> {CHR ''+'', CHR '' ''}) = {} \<and>
     set v \<inter> (query_special \<union> {CHR 0x00}) = {})"

lemma set_encode_char:
  "c \<notin> query_special \<Longrightarrow> set (encode_char c) \<inter> {CHR ''&'', CHR ''='', CHR 9, CHR '' ''} = {}"
  using encode_char_cases [of c]
proof
  assume "c \<notin> query_special" and "encode_char c = [c] \<and> c \<noteq> CHR '' '' \<and> c \<noteq> CHR 13 \<and> c \<noteq> CHR 10"
  then show ?thesis by (simp add: query_special_def)
next
  assume "encode_char c = CHR ''%'' # hex_upper (of_char c)"
  then have "set (encode_char c) = insert (CHR ''%'') (set (hex_upper (of_char c)))" by (simp only: list.set)
  then have "set (encode_char c) \<subseteq> set (CHR ''%'' # upper_digits)" using set_hex_upper [of "of_char c"] by auto
  then show ?thesis using upper_digits_disjoint by blast
qed

lemma set_encode_url:
  "set v \<inter> query_special = {} \<Longrightarrow> set (encode_url v) \<inter> {CHR ''&'', CHR ''='', CHR 9, CHR '' ''} = {}"
proof -
  assume v: "set v \<inter> query_special = {}"
  have "set (encode_url v) \<subseteq> (\<Union>c \<in> set v. set (encode_char c))"
    by (auto simp: encode_url_def dest: set_takeWhileD)
  moreover have "set (encode_char c) \<inter> {CHR ''&'', CHR ''='', CHR 9, CHR '' ''} = {}" if "c \<in> set v" for c
    using v that by (intro set_encode_char) blast
  ultimately show ?thesis by blast
qed

lemma disjoint_UN: "S \<subseteq> (\<Union>c \<in> A. f c) \<Longrightarrow> (\<And>c. c \<in> A \<Longrightarrow> f c \<inter> B = {}) \<Longrightarrow> S \<inter> B = {}"
  by blast

lemma set_encode_url_lines: "set (encode_url v) \<inter> {CHR 13, CHR 10, CHR 0x00} = {}"
proof -
  have e: "set (encode_char c) \<inter> {CHR 13, CHR 10, CHR 0x00} = {}" if "c \<noteq> CHR 0x00" for c
    using encode_char_cases [of c]
  proof
    assume "encode_char c = CHR ''%'' # hex_upper (of_char c)"
    then have "set (encode_char c) \<subseteq> set (CHR ''%'' # upper_digits)" using set_hex_upper [of "of_char c"] by auto
    then show ?thesis using upper_digits_disjoint by blast
  qed (simp add: that)
  have "set (encode_url v) \<subseteq> (\<Union>c \<in> set v - {CHR 0x00}. set (encode_char c))"
    by (auto simp: encode_url_def dest: set_takeWhileD)
  then show ?thesis
  proof (rule disjoint_UN)
    fix c
    assume "c \<in> set v - {CHR 0x00}"
    then show "set (encode_char c) \<inter> {CHR 13, CHR 10, CHR 0x00} = {}" by (intro e) simp
  qed
qed

text \<open>One parameter of a query.\<close>

definition param_text :: "string \<times> string \<Rightarrow> string" where
  "param_text = (\<lambda>(k, v). k @ ''='' @ encode_url v)"

lemma decode_url_plain:
  "set k \<inter> {CHR ''%'', CHR ''+''} = {} \<Longrightarrow> decode_url k conv = k"
  by (induction k) auto

lemma emplace_last: "\<forall>(k', v') \<in> set m. k' \<le> k \<Longrightarrow> emplace k v m = m @ [(k, v)]"
  by (simp add: emplace_def takeWhile_eq_all_conv [THEN iffD2] dropWhile_eq_Nil_conv [THEN iffD2])

lemma query_piece_param:
  assumes "query_safe (k, v)"
  shows "query_piece params (param_text (k, v)) = emplace k v params"
proof -
  have k: "k \<noteq> []" "set k \<inter> {CHR ''&'', CHR ''='', CHR 9, CHR '' ''} = {}" "decode_url k True = k"
    using assms by (auto simp: query_safe_def query_special_def intro: decode_url_plain)
  have v: "set (encode_url v) \<inter> {CHR ''&'', CHR ''='', CHR 9, CHR '' ''} = {}" "decode_url (encode_url v) True = v"
    using assms by (intro set_encode_url decode_url_encode; auto simp: query_safe_def query_special_def)+
  have nb: "\<not> is_space_or_tab (CHR ''='')" by code_simp
  have "CHR ''='' \<notin> set k" "CHR ''='' \<notin> set (encode_url v)" using k(2) v(1) by blast+
  then have "parts (CHR ''='') (param_text (k, v)) = [k, encode_url v]"
    by (simp add: param_text_def parts_separated parts_single)
  moreover have "http_trim_copy k = k" "http_trim_copy (encode_url v) = encode_url v"
    using k(2) v(1) by (auto intro!: http_trim_copy_id simp: is_space_or_tab_def)
  ultimately have "http_split (param_text (k, v)) (CHR ''='') = k # (if encode_url v = [] then [] else [encode_url v])"
    using k(1) by (simp add: http_split_eq [OF nb])
  then have "foldl key_val_step ([], []) (http_split (param_text (k, v)) (CHR ''='')) = (k, encode_url v)"
    using k(1) by (auto simp: key_val_step_def)
  then show ?thesis using k(1,3) v(2) by (simp add: query_piece_def)
qed

lemma parts_query:
  "\<forall>p \<in> set ps. query_safe p \<Longrightarrow> ps \<noteq> [] \<Longrightarrow> parts (CHR ''&'') (params_to_query_str ps) = map param_text ps"
proof (induction ps rule: params_to_query_str.induct)
  case (2 k v)
  then have "CHR ''&'' \<notin> set (k @ ''='' @ encode_url v)"
    using set_encode_url [of v] by (auto simp: query_safe_def query_special_def)
  then show ?case by (simp add: parts_single param_text_def)
next
  case (3 k v p ps)
  then have "CHR ''&'' \<notin> set (k @ ''='' @ encode_url v)"
    using set_encode_url [of v] by (auto simp: query_safe_def query_special_def)
  then have "parts (CHR ''&'') ((k @ ''='' @ encode_url v) @ CHR ''&'' # params_to_query_str (p # ps)) =
      (k @ ''='' @ encode_url v) # parts (CHR ''&'') (params_to_query_str (p # ps))" by (rule parts_separated)
  with 3 show ?case by (simp add: param_text_def)
qed simp

lemma param_text_trim:
  "query_safe p \<Longrightarrow> http_trim_copy (param_text p) = param_text p \<and> param_text p \<noteq> []"
  using set_encode_url
  by (cases p) (fastforce simp: query_safe_def param_text_def query_special_def is_space_or_tab_def intro!: http_trim_copy_id)

lemma parse_query_text_params:
  assumes "\<forall>p \<in> set ps. query_safe p"
  shows "parse_query_text (params_to_query_str ps) params = foldl (\<lambda>m (k, v). emplace k v m) params ps"
proof (cases "ps = []")
  case False
  have t: "map http_trim_copy (map param_text ps) = map param_text ps"
    and f: "filter (\<lambda>q. q \<noteq> []) (map param_text ps) = map param_text ps"
    using assms param_text_trim by (auto intro!: filter_id_conv [THEN iffD2])
  have "http_split (params_to_query_str ps) (CHR ''&'') =
      filter (\<lambda>q. q \<noteq> []) (map http_trim_copy (parts (CHR ''&'') (params_to_query_str ps)))"
    by (rule http_split_eq) code_simp
  also have "\<dots> = map param_text ps" unfolding parts_query [OF assms False] t f ..
  finally have "http_split (params_to_query_str ps) (CHR ''&'') = map param_text ps" .
  moreover have "foldl query_piece params (map param_text ps) = foldl (\<lambda>m (k, v). emplace k v m) params ps"
    using assms by (induction ps arbitrary: params) (auto simp: query_piece_param)
  ultimately show ?thesis by (simp add: parse_query_text_def)
qed (simp add: parse_query_text_def http_split_def split_loop.simps)

lemma emplace_all_sorted:
  "sorted (map fst (m @ ps)) \<Longrightarrow> foldl (\<lambda>m (k, v). emplace k v m) m ps = m @ ps"
proof (induction ps arbitrary: m)
  case (Cons p ps)
  obtain k v where p: "p = (k, v)" by (cases p)
  from Cons.prems have "emplace k v m = m @ [(k, v)]"
    by (intro emplace_last) (auto simp: p sorted_append)
  with Cons.IH [of "m @ [(k, v)]"] Cons.prems p show ?case by simp
qed simp

text \<open>
  C34: A query string that is made of parameters is parsed back to them, in the order of the multimap, whatever
  bytes of other alphabets, blanks and plus signs the values hold: for keys that need no coding and
  values without separators, percent signs and tabs.
\<close>

theorem query_roundtrip:
  assumes "\<forall>p \<in> set ps. query_safe p" and "sorted (map fst ps)"
  shows "parse_query_text (params_to_query_str ps) [] = ps"
  using assms by (simp add: parse_query_text_params emplace_all_sorted)

theorem query_roundtrip_witness:
  "parse_query_text ''lang=c%2B%2B&word=a%20b'' [] = [(''lang'', ''c++''), (''word'', ''a b'')]"
proof -
  let ?ps = "[(''lang'', ''c++''), (''word'', ''a b'')]"
  have "\<forall>p \<in> set ?ps. query_safe p" by (simp add: query_safe_def query_special_def)
  moreover have "sorted (map fst ?ps)" by code_simp
  moreover have "params_to_query_str ?ps = ''lang=c%2B%2B&word=a%20b''" by code_simp
  ultimately show ?thesis using query_roundtrip [of ?ps] by metis
qed

section \<open>Paths\<close>

definition components :: "string \<Rightarrow> string list" where
  "components path = filter (\<lambda>q. q \<noteq> []) (parts (CHR ''/'') path)"

text \<open>Where a path leads from a directory, as the components from the root.\<close>

definition go :: "string list \<Rightarrow> string \<Rightarrow> string list" where
  "go dirs c = (if c = ''.'' then dirs else if c = ''..'' then butlast dirs else dirs @ [c])"

definition resolve :: "string list \<Rightarrow> string list \<Rightarrow> string list" where
  "resolve base cs = foldl go base cs"

fun walk_ok :: "string list \<Rightarrow> nat \<Rightarrow> bool" where
  "walk_ok [] level = True"
| "walk_ok (c # cs) level =
     (if c = ''.'' then walk_ok cs level
      else if c = ''..'' then level \<noteq> 0 \<and> walk_ok cs (level - 1)
      else walk_ok cs (level + 1))"

lemma components_slash: "components (CHR ''/'' # s) = components s"
  by (simp add: components_def)

lemma components_skip: "components (dropWhile (\<lambda>c. c = CHR ''/'') s) = components s"
  by (induction s) (auto simp: components_slash)

lemma components_first:
  assumes "c \<noteq> []" and "CHR ''/'' \<notin> set c" and "r = [] \<or> hd r = CHR ''/''"
  shows "components (c @ r) = c # components r"
proof (cases r)
  case Nil
  with assms show ?thesis by (simp add: components_def parts_single)
next
  case (Cons d r')
  with assms show ?thesis by (simp add: components_def parts_separated)
qed

lemma valid_components_first:
  assumes "c \<noteq> []" and "CHR ''/'' \<notin> set c" and "r = [] \<or> hd r = CHR ''/''"
  shows "valid_components (c @ r) level =
    (let rest = dropWhile (\<lambda>c. c = CHR ''/'') r in
     if c = ''.'' then valid_components rest level
     else if c = ''..'' then (if level = 0 then False else valid_components rest (level - 1))
     else valid_components rest (level + 1))"
proof -
  have n: "\<forall>x \<in> set c. x \<noteq> CHR ''/''" using assms(2) by auto
  then have "takeWhile (\<lambda>c. c \<noteq> CHR ''/'') (c @ r) = c @ takeWhile (\<lambda>c. c \<noteq> CHR ''/'') r"
    and "dropWhile (\<lambda>c. c \<noteq> CHR ''/'') (c @ r) = dropWhile (\<lambda>c. c \<noteq> CHR ''/'') r"
    by (simp_all add: takeWhile_append2 dropWhile_append2)
  moreover have "takeWhile (\<lambda>c. c \<noteq> CHR ''/'') r = []" "dropWhile (\<lambda>c. c \<noteq> CHR ''/'') r = r"
    using assms(3) by (cases r; simp)+
  ultimately have "takeWhile (\<lambda>c. c \<noteq> CHR ''/'') (c @ r) = c" "dropWhile (\<lambda>c. c \<noteq> CHR ''/'') (c @ r) = r"
    by (simp_all only: append_Nil2)
  with assms(1) show ?thesis by (subst valid_components.simps) (simp only: Let_def append_is_Nil_conv simp_thms if_False)
qed

lemma valid_components_walk:
  "(s = [] \<or> hd s \<noteq> CHR ''/'') \<Longrightarrow> valid_components s level = walk_ok (components s) level"
proof (induction "length s" arbitrary: s level rule: less_induct)
  case less
  show ?case
  proof (cases "s = []")
    case True
    then show ?thesis by (simp add: valid_components.simps components_def)
  next
    case False
    define c r where "c = takeWhile (\<lambda>c. c \<noteq> CHR ''/'') s" and "r = dropWhile (\<lambda>c. c \<noteq> CHR ''/'') s"
    define rest where "rest = dropWhile (\<lambda>c. c = CHR ''/'') r"
    have s: "s = c @ r" by (simp add: c_def r_def)
    have "c \<noteq> []" using False less.prems by (cases s) (simp_all add: c_def)
    moreover have "CHR ''/'' \<notin> set c" unfolding c_def by (blast dest: set_takeWhileD)
    ultimately have c: "c \<noteq> []" "CHR ''/'' \<notin> set c" by blast+
    have r: "r = [] \<or> hd r = CHR ''/''" using hd_dropWhile [of "\<lambda>c. c \<noteq> CHR ''/''" s] unfolding r_def by blast
    have "rest = [] \<or> hd rest \<noteq> CHR ''/''" using hd_dropWhile [of "\<lambda>c. c = CHR ''/''" r] unfolding rest_def by blast
    moreover have "length rest < length s"
    proof -
      have "0 < length c" using c(1) by simp
      then show ?thesis using length_dropWhile_le [of "\<lambda>c. c = CHR ''/''" r]
        unfolding s rest_def length_append by linarith
    qed
    ultimately have IH: "valid_components rest l = walk_ok (components rest) l" for l
      using less.hyps by blast
    have "components s = c # components rest"
      unfolding s components_first [OF c r] rest_def components_skip ..
    then show ?thesis
      using valid_components_first [OF c r, of level] IH by (simp add: s rest_def)
  qed
qed

lemma resolve_inside:
  "base \<noteq> [] \<Longrightarrow> prefix base dirs \<Longrightarrow> length dirs = length base + level \<Longrightarrow>
   walk_ok cs level \<longleftrightarrow> (\<forall>n. prefix base (resolve dirs (take n cs)))"
proof (induction cs arbitrary: dirs level)
  case Nil
  then show ?case by (simp add: resolve_def)
next
  case (Cons c cs)
  have all: "(\<forall>n. prefix base (resolve dirs (take n (c # cs)))) \<longleftrightarrow> (\<forall>n. prefix base (resolve (go dirs c) (take n cs)))"
    using Cons.prems(2) by (auto simp: resolve_def take_Cons split: nat.splits)
  consider "c = ''.''" | "c = ''..''" "level = 0" | "c = ''..''" "level \<noteq> 0" | "c \<noteq> ''.''" "c \<noteq> ''..''" by blast
  then show ?case
  proof cases
    case 1
    with Cons show ?thesis unfolding all by (simp add: go_def)
  next
    case 2
    with Cons.prems have "dirs = base" by (auto simp: prefix_def)
    with 2 have "\<not> prefix base (resolve (go dirs c) (take 0 cs))"
      using Cons.prems(1) prefix_length_le [of base "butlast base"] by (cases base) (auto simp: go_def resolve_def)
    with 2 show ?thesis unfolding all by (metis walk_ok.simps(2) list.inject not_Cons_self2)
  next
    case 3
    from Cons.prems obtain rest where "dirs = base @ rest" "length rest = level" by (auto simp: prefix_def)
    with 3 have "go dirs c = base @ butlast rest" "length (butlast rest) = level - 1"
      by (auto simp: go_def butlast_append)
    with 3 Cons.IH [of "go dirs c" "level - 1"] Cons.prems(1) show ?thesis unfolding all by simp
  next
    case 4
    have "prefix base (dirs @ [c])" using Cons.prems(2) by (rule prefix_prefix)
    with 4 Cons.IH [of "dirs @ [c]" "level + 1"] Cons.prems show ?thesis unfolding all by (simp add: go_def)
  qed
qed

lemma is_valid_path_iff:
  assumes "base \<noteq> []"
  shows "is_valid_path path \<longleftrightarrow> (\<forall>n. prefix base (resolve base (take n (components path))))"
proof -
  have "is_valid_path path = walk_ok (components path) 0"
    using valid_components_walk [of "dropWhile (\<lambda>c. c = CHR ''/'') path"] hd_dropWhile [of "\<lambda>c. c = CHR ''/''" path]
    by (auto simp: is_valid_path_def components_skip)
  with resolve_inside [OF assms, of base 0 "components path"] show ?thesis by simp
qed

text \<open>
  A path is valid exactly when following it from a directory never leaves that directory, at no step of the
  way: the names taken so far, with the dots resolved, always lead to the directory or below it.
\<close>

theorem valid_path_stays_inside:
  assumes "base \<noteq> []"
  shows "is_valid_path path \<longleftrightarrow> (\<forall>n. prefix base (resolve base (take n (components path))))"
  using assms by (rule is_valid_path_iff)

theorem valid_path_stays_inside_witness:
  "(\<forall>n. prefix [''srv'', ''www''] (resolve [''srv'', ''www''] (take n (components ''/a/../b''))))"
proof -
  have "is_valid_path ''/a/../b''" by code_simp
  with valid_path_stays_inside [of "[''srv'', ''www'']" "''/a/../b''"] show ?thesis by simp
qed

end
