(* ===== verification/HttpServer.thy ===== *)
theory HttpServer imports SearcherHpp LogMessage HttpMessages begin

text \<open>
  \<open>httpServer.cc\<close>: the start of the server, and the handler of \<open>GET /s\<close>. How a request reaches the handler is
  in \<open>HttpRouting\<close>.
\<close>

section \<open>The handler\<close>

text \<open>The prompt of the code, "please enter content and search", in UTF-8.\<close>

definition prompt :: string where
  "prompt = [CHR 0xE8, CHR 0xAF, CHR 0xB7, CHR 0xE8, CHR 0xBE, CHR 0x93, CHR 0xE5, CHR 0x85, CHR 0xA5,
     CHR 0xE5, CHR 0x86, CHR 0x85, CHR 0xE5, CHR 0xAE, CHR 0xB9, CHR 0xE5, CHR 0x90, CHR 0x8E,
     CHR 0xE6, CHR 0x90, CHR 0x9C, CHR 0xE7, CHR 0xB4, CHR 0xA2]"

definition search_handler :: "search_engine \<Rightarrow> index \<Rightarrow> Request \<Rightarrow> Response \<Rightarrow> fault + Response" where
  "search_handler en ix request response =
     (let response = (if \<not> has_param request ''word''
                      then set_content response prompt ''text/plain; charset=utf-8'' else response);
          searchContent = get_param_value request ''word'' 0
      in (case search en ix searchContent of
            Inl e \<Rightarrow> Inl e
          | Inr searchJsonResult \<Rightarrow> Inr (set_content response searchJsonResult ''application/json'')))"

section \<open>The start of the server\<close>

definition input_path :: string where "input_path = ''./data/output/raw''"

datatype started = ParentExit | AssertAbort | Undefined fault | Serving process index

definition server_main ::
  "(string \<Rightarrow> bool) \<Rightarrow> int \<Rightarrow> search_engine \<Rightarrow> filesystem \<Rightarrow> process \<Rightarrow> started" where
  "server_main can_open fork_result en fs p =
     (case daemonize can_open fork_result p of
        None \<Rightarrow> ParentExit
      | Some p' \<Rightarrow>
          (case log_enable can_open new_log p' of
             None \<Rightarrow> AssertAbort
           | Some (logSvr, p'') \<Rightarrow>
               (case initSearcher en fs input_path new_index of
                  Inl e \<Rightarrow> Undefined e
                | Inr ix \<Rightarrow> Serving p'' ix)))"

section \<open>Properties\<close>

lemma set_content_eq: "\<not> has_crlf ct \<Longrightarrow> set_content res s ct =
    res\<lparr>body := s, headers := ci_emplace ''Content-Type'' ct (filter (\<lambda>(k, v). \<not> ci_equal k ''Content-Type'') (headers res))\<rparr>"
  by (simp add: set_content_def set_header_def Let_def has_crlf_def)

text \<open>
  The handler has no return after its prompt for a missing parameter: whether the prompt was set or not,
  the response is the JSON answer to the first value of \<open>word\<close>, which is the empty query when there is
  none. The prompt is never seen.
\<close>

theorem prompt_overwritten:
  "search_handler en ix request response =
     (case search en ix (if has_param request ''word'' then get_param_value request ''word'' 0 else []) of
        Inl e \<Rightarrow> Inl e
      | Inr json \<Rightarrow> Inr (response\<lparr>body := json,
          headers := ci_emplace ''Content-Type'' ''application/json''
            (filter (\<lambda>(k, v). \<not> ci_equal k ''Content-Type'') (headers response))\<rparr>))"
proof -
  have c: "\<not> has_crlf ''text/plain; charset=utf-8''" "\<not> has_crlf ''application/json''"
    "ci_equal ''Content-Type'' ''Content-Type''" by code_simp+
  have "get_param_value request ''word'' 0 = []" if "\<not> has_param request ''word''"
    using that by (auto simp: has_param_def get_param_value_def list_ex_iff filter_empty_conv)
  with c show ?thesis
    by (cases "has_param request ''word''") (auto simp: search_handler_def set_content_eq filter_ci_emplace split: sum.split)
qed

lemma search_new_index:
  assumes "sorts en"
  shows "search en new_index q = Inr (se_write en [search_nothing])"
proof -
  have "met (getInvertedList new_index) lower words = []" for lower words
    by (simp add: met_def getInvertedList_def new_index_def)
  then have "gather (getInvertedList new_index) lower words = []" for lower words
    by (simp add: gather_met)
  moreover have "se_sort en [] = []" using assms by (metis sorts_def mset_zero_iff)
  ultimately show ?thesis by (simp add: search_def search_elems_def)
qed

text \<open>
  A server whose input file cannot be opened starts all the same, as a daemon whose output goes to the log
  file, and with an empty index, since the result of \<open>buildIndex\<close> is dropped. It then answers every
  request with the element for nothing found.
\<close>

theorem server_without_input:
  assumes "fork_result \<le> 0" and "can_open LOGFILEPATH" and "can_open ''/dev/null''"
    and "3 \<le> i \<and> i < FD_LIMIT \<and> fds p i = None" and "fs input_path = None" and "sorts en"
  shows "\<exists>p' h. server_main can_open fork_result en fs p = Serving p' new_index \<and>
    fds p' 0 = Some ''/dev/null'' \<and> fds p' 1 = Some LOGFILEPATH \<and> fds p' 2 = Some LOGFILEPATH \<and>
    search_handler en new_index request \<lparr>status = -1, headers = [], body = []\<rparr> =
      Inr \<lparr>status = -1, headers = h, body = se_write en [search_nothing]\<rparr>"
proof -
  have "free_fd (fds p) \<noteq> None" using free_fd_exists assms(4) by blast
  from daemonize_child [of fork_result can_open p, OF assms(1,3) this] obtain p1 where
    p1: "daemonize can_open fork_result p = Some p1" "\<forall>i. fds p1 i = (if i \<le> 2 then Some ''/dev/null'' else fds p i)"
    by blast
  then have "free_fd (fds p1) \<noteq> None" using free_fd_exists [of i "fds p1"] assms(4) by simp
  then obtain l p2 where p2: "log_enable can_open new_log p1 = Some (l, p2)"
    using assms(2) by (auto simp: log_enable_def sys_open_def Let_def)
  note e = log_enable_fds [OF p2]
  have "fds p2 0 = Some ''/dev/null''" using e p1(2) by auto
  moreover have "server_main can_open fork_result en fs p = Serving p2 new_index"
    using assms(5) by (simp add: server_main_def p1(1) p2 initSearcher_def buildIndex_def)
  moreover have "\<exists>h. search_handler en new_index request \<lparr>status = -1, headers = [], body = []\<rparr> =
      Inr \<lparr>status = -1, headers = h, body = se_write en [search_nothing]\<rparr>"
  proof -
    have "\<not> has_crlf ''text/plain; charset=utf-8''" "\<not> has_crlf ''application/json''" by code_simp+
    then show ?thesis by (auto simp: search_handler_def search_new_index [OF assms(6)] set_content_eq)
  qed
  ultimately show ?thesis using e by blast
qed

theorem server_without_input_witness:
  "\<exists>p'. server_main (\<lambda>f. True) 0 sample_search Map.empty
     \<lparr>fds = Map.empty, ignore_sigpipe = False, new_session = False, umask_bits = 18\<rparr> = Serving p' new_index"
  using server_without_input [of 0 "\<lambda>f. True" 5 "\<lparr>fds = Map.empty, ignore_sigpipe = False, new_session = False, umask_bits = 18\<rparr>"
      Map.empty sample_search]
  by (auto simp: FD_LIMIT_def sorts_sample)

end
