(* ===== verification/HttpRouting.thy ===== *)
theory HttpRouting imports HttpServer begin

text \<open>
  The part of \<open>httplib::Server\<close> that the program relies on: mounted directories, the handler of files, the
  dispatch of a GET or HEAD request to a handler, and the server as \<open>httpServer.cc\<close> sets it up.

  \<^item> A pattern of a handler is the set of the paths it matches.
  \<^item> A handler gives a response or runs into undefined behaviour; the handler of the program throws no
    exception, so that the two \<open>catch\<close> clauses of the dispatch are not reached.
  \<^item> System calls get a path as a C string, which ends at its first zero byte; a decoded path can hold one.
\<close>

section \<open>The server\<close>

record mount_entry =
  mount_point :: string
  base_dir :: string
  mount_headers :: multimap

type_synonym handler = "Request \<Rightarrow> Response \<Rightarrow> fault + Response"

record Server =
  base_dirs :: "mount_entry list"
  mime_types :: "string \<rightharpoonup> string"
  file_request_handler :: "(Request \<Rightarrow> Response \<Rightarrow> Response) option"
  get_handlers :: "((string \<Rightarrow> bool) \<times> handler) list"

definition new_Server :: Server where
  "new_Server = \<lparr>base_dirs = [], mime_types = Map.empty, file_request_handler = None, get_handlers = []\<rparr>"

definition Get :: "(string \<Rightarrow> bool) \<Rightarrow> handler \<Rightarrow> Server \<Rightarrow> Server" where
  "Get pattern handler svr = svr\<lparr>get_handlers := get_handlers svr @ [(pattern, handler)]\<rparr>"

definition set_mount_point ::
  "(string \<Rightarrow> bool) \<Rightarrow> string option \<Rightarrow> string \<Rightarrow> multimap \<Rightarrow> Server \<Rightarrow> bool \<times> Server" where
  "set_mount_point is_dir mount dir hs svr =
     (if is_dir dir then
        (let mnt = (case mount of Some m \<Rightarrow> m | None \<Rightarrow> ''/'')
         in if mnt \<noteq> [] \<and> mnt ! 0 = CHR ''/''
            then (True, svr\<lparr>base_dirs := base_dirs svr @ [\<lparr>mount_point = mnt, base_dir = dir, mount_headers = hs\<rparr>]\<rparr>)
            else (False, svr))
      else (False, svr))"

definition set_base_dir :: "(string \<Rightarrow> bool) \<Rightarrow> string \<Rightarrow> string option \<Rightarrow> Server \<Rightarrow> bool \<times> Server" where
  "set_base_dir is_dir dir mount svr = set_mount_point is_dir mount dir [] svr"

fun erase_mount :: "string \<Rightarrow> mount_entry list \<Rightarrow> (mount_entry list) option" where
  "erase_mount mnt [] = None"
| "erase_mount mnt (e # es) =
     (if mount_point e = mnt then Some es else map_option ((#) e) (erase_mount mnt es))"

definition remove_mount_point :: "string \<Rightarrow> Server \<Rightarrow> bool \<times> Server" where
  "remove_mount_point mnt svr =
     (case erase_mount mnt (base_dirs svr) of
        None \<Rightarrow> (False, svr) | Some es \<Rightarrow> (True, svr\<lparr>base_dirs := es\<rparr>))"

definition set_file_extension_and_mimetype_mapping :: "string \<Rightarrow> string \<Rightarrow> Server \<Rightarrow> Server" where
  "set_file_extension_and_mimetype_mapping ext mime svr = svr\<lparr>mime_types := (mime_types svr)(ext \<mapsto> mime)\<rparr>"

definition set_file_request_handler :: "(Request \<Rightarrow> Response \<Rightarrow> Response) \<Rightarrow> Server \<Rightarrow> Server" where
  "set_file_request_handler h svr = svr\<lparr>file_request_handler := Some h\<rparr>"

section \<open>Files\<close>

definition c_path :: "string \<Rightarrow> string" where
  "c_path p = takeWhile (\<lambda>c. c \<noteq> CHR 0x00) p"

text \<open>The name of the file that an entry has for the path of a request, if the entry is responsible.\<close>

definition file_name :: "mount_entry \<Rightarrow> string \<Rightarrow> string option" where
  "file_name e req_path =
     (if prefix (mount_point e) req_path then
        (let sub_path = CHR ''/'' # drop (length (mount_point e)) req_path
         in if is_valid_path sub_path
            then (let p = base_dir e @ sub_path in Some (if last p = CHR ''/'' then p @ ''index.html'' else p))
            else None)
      else None)"

definition file_response :: "Server \<Rightarrow> mount_entry \<Rightarrow> string \<Rightarrow> string \<Rightarrow> Request \<Rightarrow> Response \<Rightarrow> bool \<Rightarrow> Response" where
  "file_response svr e p content req res is_head =
     (let res = res\<lparr>body := content\<rparr>;
          res = (case find_content_type p (mime_types svr) of
                   Some t \<Rightarrow> set_header res ''Content-Type'' t | None \<Rightarrow> res);
          res = foldl (\<lambda>res (k, v). set_header res k v) res (mount_headers e);
          res = res\<lparr>status := 200\<rparr>
      in (case file_request_handler svr of
            Some h \<Rightarrow> if \<not> is_head then h req res else res
          | None \<Rightarrow> res))"

fun file_in_mounts ::
  "filesystem \<Rightarrow> Server \<Rightarrow> mount_entry list \<Rightarrow> Request \<Rightarrow> Response \<Rightarrow> bool \<Rightarrow> Response option" where
  "file_in_mounts fs svr [] req res is_head = None"
| "file_in_mounts fs svr (e # es) req res is_head =
     (case file_name e (path req) of
        None \<Rightarrow> file_in_mounts fs svr es req res is_head
      | Some p \<Rightarrow>
          (case fs (c_path p) of
             None \<Rightarrow> file_in_mounts fs svr es req res is_head
           | Some content \<Rightarrow> Some (file_response svr e p content req res is_head)))"

definition handle_file_request ::
  "filesystem \<Rightarrow> Server \<Rightarrow> Request \<Rightarrow> Response \<Rightarrow> bool \<Rightarrow> Response option" where
  "handle_file_request fs svr req res is_head = file_in_mounts fs svr (base_dirs svr) req res is_head"

section \<open>Dispatch\<close>

fun dispatch_request :: "((string \<Rightarrow> bool) \<times> handler) list \<Rightarrow> Request \<Rightarrow> Response \<Rightarrow> fault + bool \<times> Response" where
  "dispatch_request [] req res = Inr (False, res)"
| "dispatch_request ((pattern, handler) # hs) req res =
     (if pattern (path req) then (case handler req res of Inl e \<Rightarrow> Inl e | Inr res \<Rightarrow> Inr (True, res))
      else dispatch_request hs req res)"

text \<open>\<open>routing\<close> for GET and HEAD.\<close>

definition routing_get :: "filesystem \<Rightarrow> Server \<Rightarrow> Request \<Rightarrow> Response \<Rightarrow> fault + bool \<times> Response" where
  "routing_get fs svr req res =
     (let is_head_request = (req_method req = ''HEAD'') in
      case handle_file_request fs svr req res is_head_request of
        Some res \<Rightarrow> Inr (True, res)
      | None \<Rightarrow> dispatch_request (get_handlers svr) req res)"

text \<open>The end of \<open>process_request\<close> for a request without ranges: the status is filled in.\<close>

definition respond_get :: "filesystem \<Rightarrow> Server \<Rightarrow> Request \<Rightarrow> fault + Response" where
  "respond_get fs svr req =
     (case routing_get fs svr req new_Response of
        Inl e \<Rightarrow> Inl e
      | Inr (True, res) \<Rightarrow> Inr (if status res = -1 then res\<lparr>status := 200\<rparr> else res)
      | Inr (False, res) \<Rightarrow> Inr (if status res = -1 then res\<lparr>status := 404\<rparr> else res))"

section \<open>The server of the program\<close>

definition rootPath :: string where "rootPath = ''./wwwRoot''"

definition program_server :: "(string \<Rightarrow> bool) \<Rightarrow> search_engine \<Rightarrow> index \<Rightarrow> Server" where
  "program_server is_dir en ix =
     Get (\<lambda>p. p = ''/s'') (search_handler en ix) (snd (set_base_dir is_dir rootPath None new_Server))"

section \<open>Properties\<close>

lemma file_in_mounts_Some:
  "file_in_mounts fs svr es req res h = Some r \<Longrightarrow>
   \<exists>e \<in> set es. \<exists>p content. file_name e (path req) = Some p \<and> fs (c_path p) = Some content \<and>
     r = file_response svr e p content req res h"
  by (induction fs svr es req res h rule: file_in_mounts.induct) (auto split: option.splits)

lemma body_set_headers: "body (foldl (\<lambda>res (k, v). set_header res k v) res hs) = body res"
  by (induction hs arbitrary: res) auto

lemma body_file_response:
  "file_request_handler svr = None \<Longrightarrow> body (file_response svr e p content req res h) = content"
  by (simp add: file_response_def Let_def body_set_headers split: option.split)

text \<open>A prefix of a path has the first components of it, the last of them perhaps cut short.\<close>

lemma parts_prefix: "prefix g p \<Longrightarrow> \<exists>n c. parts d g = take n (parts d p) @ [c]"
proof (induction p arbitrary: g)
  case Nil
  then show ?case by (intro exI [of _ 0]) simp
next
  case (Cons x p)
  show ?case
  proof (cases g)
    case Nil
    then show ?thesis by (intro exI [of _ 0]) simp
  next
    case (Cons y g')
    with Cons.prems have y: "y = x" "prefix g' p" by auto
    from Cons.IH [OF y(2)] obtain n c where n: "parts d g' = take n (parts d p) @ [c]" by blast
    show ?thesis
    proof (cases "x = d")
      case True
      with n Cons y show ?thesis by (intro exI [of _ "Suc n"]) simp
    next
      case False
      show ?thesis
      proof (cases n)
        case 0
        with n Cons y False show ?thesis by (intro exI [of _ 0]) simp
      next
        case (Suc m)
        obtain f fs where "parts d p = f # fs" by (cases "parts d p") auto
        with n \<open>g = y # g'\<close> y False Suc show ?thesis by (intro exI [of _ "Suc m"]) simp
      qed
    qed
  qed
qed

lemma filter_take: "\<exists>m. filter P (take n xs) = take m (filter P xs)"
  by (metis append_eq_conv_conj append_take_drop_id filter_append)

lemma components_prefix:
  assumes "prefix g p"
  obtains n where "components g = take n (components p)"
    | n c where "components g = take n (components p) @ [c]"
proof -
  obtain n c where f: "parts (CHR ''/'') g = take n (parts (CHR ''/'') p) @ [c]"
    using parts_prefix [OF assms] by blast
  obtain m where "filter (\<lambda>q. q \<noteq> []) (take n (parts (CHR ''/'') p)) = take m (components p)"
    using filter_take unfolding components_def by blast
  then show thesis using f that by (cases "c = []") (auto simp: components_def)
qed

lemma parts_append_sep: "parts d (p @ d # q) = parts d p @ parts d q"
  by (induction p) auto

lemma components_append_slash: "components (p @ CHR ''/'' # q) = components p @ components q"
  by (simp add: components_def parts_append_sep)

text \<open>The names below which the file system has no regular file: those that end in two dots.\<close>

definition dots_are_directories :: "filesystem \<Rightarrow> bool" where
  "dots_are_directories fs \<longleftrightarrow>
     (\<forall>p. fs p \<noteq> None \<longrightarrow> components p = [] \<or> last (components p) \<noteq> ''..'')"

lemma index_html_valid:
  assumes "is_valid_path sub" and "last sub = CHR ''/''" and "sub \<noteq> []"
  shows "is_valid_path (sub @ ''index.html'')"
proof -
  obtain s where s: "sub = s @ [CHR ''/'']" using assms(2,3) by (metis append_butlast_last_id)
  have c: "components (sub @ ''index.html'') = components sub @ [''index.html'']"
    using components_append_slash [of s "''index.html''"] components_append_slash [of s "[]"]
    by (simp add: s components_def)
  let ?b = "[''x'']"
  have v: "\<forall>n. prefix ?b (resolve ?b (take n (components sub)))"
    using assms(1) is_valid_path_iff [of ?b sub] by simp
  have "prefix ?b (resolve ?b (take n (components sub @ [''index.html''])))" for n
  proof (cases "n \<le> length (components sub)")
    case True
    with v show ?thesis by simp
  next
    case False
    then have "take n (components sub @ [''index.html'']) = components sub @ [''index.html'']" by simp
    moreover have "prefix ?b (resolve ?b (components sub))" using v [THEN spec, of "length (components sub)"] by simp
    ultimately show ?thesis by (simp add: resolve_def go_def prefix_prefix)
  qed
  then show ?thesis using is_valid_path_iff [of ?b "sub @ ''index.html''"] c by simp
qed

text \<open>What a file name gives to the file system after the directory.\<close>

lemma file_name_inside:
  assumes "file_name e req_path = Some p"
  obtains sub where "p = base_dir e @ CHR ''/'' # sub" and "is_valid_path (CHR ''/'' # sub)"
proof -
  from assms obtain sub where s: "is_valid_path (CHR ''/'' # sub)"
    "p = (if last (CHR ''/'' # sub) = CHR ''/'' then (base_dir e @ CHR ''/'' # sub) @ ''index.html'' else base_dir e @ CHR ''/'' # sub)"
    by (auto simp: file_name_def Let_def split: if_splits)
  show thesis
  proof (cases "last (CHR ''/'' # sub) = CHR ''/''")
    case True
    with s index_html_valid [OF s(1) True] that [of "sub @ ''index.html''"] show ?thesis by simp
  next
    case False
    with s that [of sub] show ?thesis by simp
  qed
qed

lemma cut_path_inside:
  assumes "is_valid_path sub" and "prefix g sub" and "base \<noteq> []" and "components g = [] \<or> last (components g) \<noteq> ''..''"
  shows "prefix base (resolve base (take n (components g)))"
proof -
  have v: "prefix base (resolve base (take m (components sub)))" for m
    using assms(1,3) is_valid_path_iff by blast
  from assms(2) show ?thesis
  proof (cases rule: components_prefix)
    case (1 m)
    then show ?thesis using v [of "min n m"] by (simp add: min.commute)
  next
    case (2 m c)
    show ?thesis
    proof (cases "n \<le> length (take m (components sub))")
      case True
      then show ?thesis using v [of "min n m"] 2 by (simp add: min.commute)
    next
      case False
      then have "length (components g) \<le> n" unfolding 2 length_append list.size by linarith
      then have "take n (components g) = components g" by simp
      moreover have "c \<noteq> ''..''" using 2 assms(4) by simp
      ultimately show ?thesis using v [of m] 2 by (simp add: resolve_def go_def prefix_prefix)
    qed
  qed
qed

text \<open>
  C16: Whatever the path of a request is, dots, repeated slashes and coded zero bytes included, a file that is
  sent lies in one of the mounted directories: its name is that directory's and a rest that, followed
  from the directory, never leaves it. (A name that ends in two dots is a directory for the system, and
  no file; the check of the path does not see the part of a name that a zero byte cuts off.)
\<close>

theorem files_stay_inside:
  assumes "dots_are_directories fs" and "file_request_handler svr = None"
    and "\<forall>e \<in> set (base_dirs svr). CHR 0x00 \<notin> set (base_dir e)"
    and "handle_file_request fs svr req res is_head = Some res'"
  shows "\<exists>e \<in> set (base_dirs svr). \<exists>g. fs (base_dir e @ g) = Some (body res') \<and>
    (\<forall>base n. base \<noteq> [] \<longrightarrow> prefix base (resolve base (take n (components g))))"
proof -
  from assms(4) obtain e p content where e: "e \<in> set (base_dirs svr)" "file_name e (path req) = Some p"
    "fs (c_path p) = Some content" "res' = file_response svr e p content req res is_head"
    unfolding handle_file_request_def by (blast dest: file_in_mounts_Some)
  from file_name_inside [OF e(2)] obtain sub where
    s: "p = base_dir e @ CHR ''/'' # sub" "is_valid_path (CHR ''/'' # sub)" .
  let ?g = "CHR ''/'' # takeWhile (\<lambda>c. c \<noteq> CHR 0x00) sub"
  have "\<forall>c \<in> set (base_dir e). c \<noteq> CHR 0x00" using assms(3) e(1) by auto
  then have g: "c_path p = base_dir e @ ?g" by (simp add: c_path_def s(1) takeWhile_append2)
  have d: "components (base_dir e @ ?g) = components (base_dir e) @ components ?g"
    using components_append_slash components_slash by metis
  have "components ?g = [] \<or> last (components ?g) \<noteq> ''..''"
    using assms(1) e(3) unfolding dots_are_directories_def g by (metis d last_appendR append_is_Nil_conv option.distinct(1))
  moreover have "prefix ?g (CHR ''/'' # sub)" by (metis prefix_Cons takeWhile_is_prefix Cons_prefix_Cons)
  ultimately have "prefix base (resolve base (take n (components ?g)))" if "base \<noteq> []" for base n
    using cut_path_inside [OF s(2)] that by blast
  moreover have "fs (base_dir e @ ?g) = Some (body res')"
    using e(3,4) g assms(2) by (simp add: body_file_response)
  ultimately show ?thesis using e(1) by blast
qed

definition sample_mounts :: Server where
  "sample_mounts = snd (set_base_dir (\<lambda>d. True) ''www'' None new_Server)"

definition sample_page :: Request where
  "sample_page = \<lparr>req_method = ''GET'', target = ''/a/../'', path = ''/a/../'', version = ''HTTP/1.1'',
     req_headers = [], params = []\<rparr>"

theorem files_stay_inside_witness:
  "\<exists>res. handle_file_request [''www/a/../index.html'' \<mapsto> ''hello''] sample_mounts sample_page new_Response False = Some res \<and>
    (\<exists>e \<in> set (base_dirs sample_mounts). \<exists>g. [''www/a/../index.html'' \<mapsto> ''hello''] (base_dir e @ g) = Some (body res))"
proof -
  let ?fs = "[''www/a/../index.html'' \<mapsto> ''hello'']"
  have b: "base_dirs sample_mounts = [\<lparr>mount_point = ''/'', base_dir = ''www'', mount_headers = []\<rparr>]" by code_simp
  have f: "file_request_handler sample_mounts = None" by code_simp
  have n: "file_name \<lparr>mount_point = ''/'', base_dir = ''www'', mount_headers = []\<rparr> ''/a/../'' = Some ''www/a/../index.html''"
    by code_simp
  have c: "c_path ''www/a/../index.html'' = ''www/a/../index.html''" by code_simp
  obtain res where r: "handle_file_request ?fs sample_mounts sample_page new_Response False = Some res"
    by (simp add: handle_file_request_def b sample_page_def n c)
  have "components ''www/a/../index.html'' = [''www'', ''a'', ''..'', ''index.html'']" by code_simp
  then have "dots_are_directories ?fs" by (auto simp: dots_are_directories_def)
  from files_stay_inside [OF this f _ r] r show ?thesis by (auto simp: b split: if_splits)
qed

text \<open>The answer to any GET request for \<open>/s\<close> with one word.\<close>

lemma respond_search:
  assumes "req_method req = ''GET''" and "path req = ''/s''" and "params req = [(''word'', q)]"
    and "fs ''./wwwRoot/s'' = None" and "search en ix q = Inr json"
  shows "respond_get fs (program_server is_dir en ix) req =
    Inr \<lparr>status = 200, headers = [(''Content-Type'', ''application/json'')], body = json\<rparr>"
proof -
  let ?svr = "program_server is_dir en ix"
  have f: "file_name \<lparr>mount_point = ''/'', base_dir = rootPath, mount_headers = []\<rparr> ''/s'' = Some ''./wwwRoot/s''"
    by code_simp
  have c: "c_path ''./wwwRoot/s'' = ''./wwwRoot/s''" by code_simp
  have "base_dirs ?svr = (if is_dir rootPath then [\<lparr>mount_point = ''/'', base_dir = rootPath, mount_headers = []\<rparr>] else [])"
    by (simp add: program_server_def Get_def set_base_dir_def set_mount_point_def new_Server_def)
  then have "handle_file_request fs ?svr req new_Response False = None"
    by (simp add: handle_file_request_def f c assms)
  moreover have "search_handler en ix req new_Response =
      Inr \<lparr>status = -1, headers = [(''Content-Type'', ''application/json'')], body = json\<rparr>"
  proof -
    have "\<not> has_crlf ''application/json''" by code_simp
    then show ?thesis
      by (simp add: search_handler_def has_param_def get_param_value_def assms set_content_eq new_Response_def
          ci_emplace_def)
  qed
  moreover have "get_handlers ?svr = [(\<lambda>p. p = ''/s'', search_handler en ix)]"
    by (simp add: program_server_def Get_def set_base_dir_def set_mount_point_def new_Server_def)
  ultimately show ?thesis by (simp add: respond_get_def routing_get_def assms)
qed

text \<open>
  From the bytes of the request line to the answer: a GET of \<open>/s\<close> with the parameter \<open>word\<close>, as a client codes
  it, reaches the handler with exactly the searched text, and the response is the JSON of the search for
  it with status 200, unless the web directory has a file \<open>s\<close>, which goes first.
\<close>

theorem search_request_answered:
  assumes "v \<in> {''HTTP/1.0'', ''HTTP/1.1''}" and "query_safe (''word'', q)"
    and "fs ''./wwwRoot/s'' = None" and "search en ix q = Inr json"
  shows "\<exists>req. parse_request_line (''GET /s?word='' @ encode_url q @ '' '' @ v @ [CHR 13, CHR 10]) new_Request = Some req \<and>
    respond_get fs (program_server is_dir en ix) req =
      Inr \<lparr>status = 200, headers = [(''Content-Type'', ''application/json'')], body = json\<rparr>"
proof -
  have "\<forall>x \<in> set [(''word'', q)]. query_safe x \<and> set (fst x) \<inter> {CHR 13, CHR 10, CHR 0x00} = {}"
    using assms(2) by simp
  then obtain t where "parse_request_line (''GET /s?word='' @ encode_url q @ '' '' @ v @ [CHR 13, CHR 10]) new_Request =
      Some \<lparr>req_method = ''GET'', target = t, path = ''/s'', version = v, req_headers = [], params = [(''word'', q)]\<rparr>"
    using parse_request_line_get [of v "''/s''" "[(''word'', q)]"] assms(1) by auto
  then show ?thesis by (intro exI conjI, assumption) (simp add: respond_search assms(3,4))
qed

theorem search_request_answered_witness:
  "\<exists>json. search sample_search new_index ''a b'' = Inr json \<and>
    (\<exists>req. parse_request_line (''GET /s?word=a%20b HTTP/1.1'' @ [CHR 13, CHR 10]) new_Request = Some req \<and>
      respond_get Map.empty (program_server (\<lambda>d. True) sample_search new_index) req =
        Inr \<lparr>status = 200, headers = [(''Content-Type'', ''application/json'')], body = json\<rparr>)"
proof -
  have s: "search sample_search new_index ''a b'' = Inr (se_write sample_search [search_nothing])"
    by (rule search_new_index [OF sorts_sample])
  have "query_safe (''word'', ''a b'')" by (simp add: query_safe_def query_special_def)
  moreover have "encode_url ''a b'' = ''a%20b''" by code_simp
  ultimately show ?thesis
    using search_request_answered [of "''HTTP/1.1''" "''a b''" Map.empty sample_search new_index _ "\<lambda>d. True"] s by auto
qed

end
