(* ===== verification/HttpRanges.thy ===== *)
theory HttpRanges imports HttpMessages begin

text \<open>
  Range requests of \<open>httplib.h\<close>: the parser of the Range header, the bytes of the body that it asks for, the
  multipart body for more than one range, and \<open>apply_ranges\<close>.

  \<^item> A range is the pair of \<open>ssize_t\<close> of the code, -1 for a number that is missing. Its offset and length are
    64-bit words.
  \<^item> The two regular expressions are written out as what they match.
  \<^item> The makefile sets none of the macros of the compression libraries, so that \<open>encoding_type\<close> is always \<open>None\<close>; the
    handlers of the program set a body and no content provider, so that the branches for one are left out.
\<close>

section \<open>The header\<close>

type_synonym range = "int \<times> int"

text \<open>\<open>std::stoll\<close> of digits: it throws when the number does not fit.\<close>

definition stoll :: "string \<Rightarrow> int option" where
  "stoll s = (if digits_value 0 s < 2 ^ 63 then Some (digits_value 0 s) else None)"

definition range_end :: "string \<Rightarrow> int option" where
  "range_end s = (if s \<noteq> [] then stoll s else Some (-1))"

text \<open>\<open>(\d*)-(\d*)\<close>, with white space before it in \<open>re_another_range\<close>.\<close>

definition match_range :: "string \<Rightarrow> (string \<times> string) option" where
  "match_range s =
     (case dropWhile is_digit s of
        [] \<Rightarrow> None
      | c # b \<Rightarrow> if c = CHR ''-'' \<and> list_all is_digit b then Some (takeWhile is_digit s, b) else None)"

definition re_another_range :: "string \<Rightarrow> (string \<times> string) option" where
  "re_another_range s = match_range (dropWhile is_space s)"

text \<open>\<open>bytes=(\d*-\d*(?:,\s*\d*-\d*)*)\<close>: the pieces between commas are ranges. No piece has a comma in it.\<close>

definition re_first_range :: "string \<Rightarrow> string option" where
  "re_first_range s =
     (if prefix ''bytes='' s then
        (let t = drop 6 s
         in if match_range (hd (parts (CHR '','') t)) \<noteq> None \<and>
               list_all (\<lambda>p. re_another_range p \<noteq> None) (tl (parts (CHR '','') t))
            then Some t else None)
      else None)"

fun range_pieces :: "string list \<Rightarrow> range list \<Rightarrow> range list option" where
  "range_pieces [] ranges = Some ranges"
| "range_pieces (p # ps) ranges =
     (case re_another_range p of
        None \<Rightarrow> range_pieces ps ranges
      | Some (a, b) \<Rightarrow>
          (case (range_end a, range_end b) of
             (Some first, Some final) \<Rightarrow>
               if first \<noteq> -1 \<and> final \<noteq> -1 \<and> first > final then None
               else range_pieces ps (ranges @ [(first, final)])
           | _ \<Rightarrow> None))"

definition parse_range_header :: "string \<Rightarrow> range list \<Rightarrow> range list option" where
  "parse_range_header s ranges =
     (case re_first_range s of None \<Rightarrow> None | Some t \<Rightarrow> range_pieces (http_split t (CHR '','')) ranges)"

section \<open>The bytes of a range\<close>

definition get_range_offset_and_length :: "range list \<Rightarrow> nat \<Rightarrow> nat \<Rightarrow> u64 \<times> u64" where
  "get_range_offset_and_length ranges content_length index =
     (let (first, final) = ranges ! index
      in if first = -1 \<and> final = -1 then (0, word_of_nat content_length)
         else (let slen = int content_length;
                   (first, final) = (if first = -1 then (max 0 (slen - final), slen - 1) else (first, final));
                   final = (if final = -1 then slen - 1 else final)
               in (word_of_int first, word_of_int (final - first) + 1)))"

definition make_content_range_header_field :: "u64 \<Rightarrow> u64 \<Rightarrow> nat \<Rightarrow> string" where
  "make_content_range_header_field offset len content_length =
     ''bytes '' @ decimal (unat offset) @ ''-'' @ decimal (unat (offset + len - 1)) @ ''/'' @ decimal content_length"

text \<open>
  \<open>process_multipart_ranges_data\<close>: the tokens of the parts go to a callback, as do the contents, which may fail.
\<close>

definition part_tokens :: "string \<Rightarrow> string \<Rightarrow> u64 \<Rightarrow> u64 \<Rightarrow> nat \<Rightarrow> string list" where
  "part_tokens boundary content_type offset len sz =
     [''--'', boundary, [CHR 13, CHR 10]] @
     (if content_type \<noteq> [] then [''Content-Type: '', content_type, [CHR 13, CHR 10]] else []) @
     [''Content-Range: '', make_content_range_header_field offset len sz, [CHR 13, CHR 10], [CHR 13, CHR 10]]"

function process_multipart_ranges_data ::
  "range list \<Rightarrow> nat \<Rightarrow> string \<Rightarrow> string \<Rightarrow> ('a \<Rightarrow> string \<Rightarrow> 'a) \<Rightarrow> (u64 \<Rightarrow> u64 \<Rightarrow> 'a \<Rightarrow> bool \<times> 'a) \<Rightarrow> nat \<Rightarrow> 'a \<Rightarrow> bool \<times> 'a" where
  "process_multipart_ranges_data ranges sz boundary content_type token content i st =
     (if i < length ranges then
        (let (offset, len) = get_range_offset_and_length ranges sz i;
             (ok, st) = content offset len (foldl token st (part_tokens boundary content_type offset len sz))
         in if \<not> ok then (False, st)
            else process_multipart_ranges_data ranges sz boundary content_type token content (i + 1) (token st [CHR 13, CHR 10]))
      else (True, foldl token st [''--'', boundary, ''--'' @ [CHR 13, CHR 10]]))"
  by pat_completeness auto
termination
  by (relation "measure (\<lambda>(ranges, sz, boundary, content_type, token, content, i, st). length ranges - i)") auto

declare process_multipart_ranges_data.simps [simp del]

definition make_multipart_ranges_data :: "range list \<Rightarrow> string \<Rightarrow> string \<Rightarrow> string \<Rightarrow> bool \<times> string" where
  "make_multipart_ranges_data ranges bd boundary content_type =
     process_multipart_ranges_data ranges (length bd) boundary content_type (@)
       (\<lambda>offset len data.
          if unat offset < length bd then (True, data @ take (unat len) (drop (unat offset) bd)) else (False, data))
       0 []"

definition get_multipart_ranges_data_length :: "range list \<Rightarrow> string \<Rightarrow> string \<Rightarrow> string \<Rightarrow> nat" where
  "get_multipart_ranges_data_length ranges bd boundary content_type =
     snd (process_multipart_ranges_data ranges (length bd) boundary content_type (\<lambda>n token. n + length token)
       (\<lambda>offset len n. (True, n + unat len)) 0 0)"

section \<open>The answer\<close>

text \<open>
  \<open>make_multipart_data_boundary\<close>: \<open>engine\<close> gives the numbers of the random engine, one for each call.
\<close>

definition boundary_letters :: string where
  "boundary_letters = ''0123456789ABCDEFGHIJKLMNOPQRSTUVWXYZabcdefghijklmnopqrstuvwxyz''"

definition make_multipart_data_boundary :: "(nat \<Rightarrow> nat) \<Rightarrow> string" where
  "make_multipart_data_boundary engine =
     ''--cpp-httplib-multipart-data-'' @ map (\<lambda>i. boundary_letters ! (engine i mod length boundary_letters)) [0..<16]"

text \<open>\<open>headers.erase(headers.find(key))\<close>: the first of the values goes.\<close>

definition erase_header :: "multimap \<Rightarrow> string \<Rightarrow> string \<times> multimap" where
  "erase_header hs key =
     (let before = takeWhile (\<lambda>(k, v). \<not> ci_equal k key) hs; rest = dropWhile (\<lambda>(k, v). \<not> ci_equal k key) hs
      in case rest of [] \<Rightarrow> ([], hs) | (k, v) # rest \<Rightarrow> (v, before @ rest))"

definition multipart_headers :: "range list \<Rightarrow> string \<Rightarrow> Response \<Rightarrow> string \<times> Response" where
  "multipart_headers ranges boundary res =
     (if length ranges > 1 then
        (let (content_type, hs) = erase_header (headers res) ''Content-Type''
         in (content_type,
             res\<lparr>headers := ci_emplace ''Content-Type'' (''multipart/byteranges; boundary='' @ boundary) hs\<rparr>))
      else ([], res))"

definition apply_ranges :: "range list \<Rightarrow> string \<Rightarrow> Response \<Rightarrow> Response" where
  "apply_ranges ranges boundary res =
     (let (content_type, res) = multipart_headers ranges boundary res
      in if body res = [] then res
         else
           (let res =
              (if ranges = [] then res
               else if length ranges = 1 then
                 (let (offset, len) = get_range_offset_and_length ranges (length (body res)) 0;
                      res = set_header res ''Content-Range'' (make_content_range_header_field offset len (length (body res)))
                  in if unat offset < length (body res) then res\<lparr>body := take (unat len) (drop (unat offset) (body res))\<rparr>
                     else res\<lparr>body := [], status := 416\<rparr>)
               else
                 (let (ok, data) = make_multipart_ranges_data ranges (body res) boundary content_type
                  in if ok then res\<lparr>body := data\<rparr> else res\<lparr>body := [], status := 416\<rparr>))
            in set_header res ''Content-Length'' (decimal (length (body res)))))"

section \<open>What the header asks for\<close>

definition valid_range :: "range \<Rightarrow> bool" where
  "valid_range = (\<lambda>(a, b). -1 \<le> a \<and> a < 2 ^ 63 \<and> -1 \<le> b \<and> b < 2 ^ 63 \<and> (a = -1 \<or> b = -1 \<or> a \<le> b))"

definition show_end :: "int \<Rightarrow> string" where
  "show_end n = (if n = -1 then [] else decimal (nat n))"

definition show_range :: "range \<Rightarrow> string" where
  "show_range = (\<lambda>(a, b). show_end a @ ''-'' @ show_end b)"

fun show_ranges :: "range list \<Rightarrow> string" where
  "show_ranges [] = []"
| "show_ranges [r] = show_range r"
| "show_ranges (r # r' # rs) = show_range r @ '', '' @ show_ranges (r' # rs)"

lemma show_end_digits: "c \<in> set (show_end n) \<Longrightarrow> is_digit c"
  by (auto simp: show_end_def dest: decimal_digits split: if_splits)

lemma range_end_show: "-1 \<le> n \<Longrightarrow> n < 2 ^ 63 \<Longrightarrow> range_end (show_end n) = Some n"
  by (auto simp: range_end_def show_end_def stoll_def digits_value_decimal)

lemma match_show_range: "match_range (show_range (a, b)) = Some (show_end a, show_end b)"
proof -
  have "\<not> is_digit (CHR ''-'')" by code_simp
  then have "dropWhile is_digit (show_end a @ ''-'' @ show_end b) = ''-'' @ show_end b"
    "takeWhile is_digit (show_end a @ ''-'' @ show_end b) = show_end a"
    using show_end_digits by (subst dropWhile_append2 takeWhile_append2; force)+
  then show ?thesis using show_end_digits by (auto simp: match_range_def show_range_def list_all_iff)
qed

lemma match_show_range_not_None: "\<exists>a b. match_range (show_range r) = Some (a, b)"
  by (cases r) (simp add: match_show_range)

lemma set_show_range: "c \<in> set (show_range r) \<Longrightarrow> is_digit c \<or> c = CHR ''-''"
  by (auto simp: show_range_def split_beta dest: show_end_digits)

lemma show_range_plain:
  "c \<in> set (show_range r) \<Longrightarrow> \<not> is_space c \<and> \<not> is_space_or_tab c \<and> c \<noteq> CHR '',''"
  by (drule set_show_range) (auto simp: is_digit_def is_space_def is_space_or_tab_def)

lemma show_range_not_Nil: "show_range r \<noteq> []"
  by (simp add: show_range_def split_beta)

lemma parts_show_ranges:
  "rs \<noteq> [] \<Longrightarrow> parts (CHR '','') (show_ranges rs) = show_range (hd rs) # map (\<lambda>r. CHR '' '' # show_range r) (tl rs)"
proof (induction rs rule: show_ranges.induct)
  case (2 r)
  then show ?case using show_range_plain [of _ r] by (auto intro!: parts_single)
next
  case (3 r r' rs)
  have "parts (CHR '','') (show_range r @ CHR '','' # CHR '' '' # show_ranges (r' # rs)) =
      show_range r # parts (CHR '','') (CHR '' '' # show_ranges (r' # rs))"
    using show_range_plain [of "CHR '',''" r] by (intro parts_separated) blast
  with 3 show ?case by simp
qed simp

lemma re_another_show: "re_another_range (CHR '' '' # show_range r) = match_range (show_range r)"
  "re_another_range (show_range r) = match_range (show_range r)"
proof -
  have "dropWhile is_space (show_range r) = show_range r"
    using show_range_plain show_range_not_Nil by (metis dropWhile_eq_self_iff hd_in_set)
  moreover have "is_space (CHR '' '')" by code_simp
  ultimately show "re_another_range (CHR '' '' # show_range r) = match_range (show_range r)"
    "re_another_range (show_range r) = match_range (show_range r)" by (simp_all add: re_another_range_def)
qed

lemma split_show_ranges: "rs \<noteq> [] \<Longrightarrow> http_split (show_ranges rs) (CHR '','') = map show_range rs"
proof -
  assume "rs \<noteq> []"
  moreover have "http_trim_copy (CHR '' '' # show_range r) = show_range r" "http_trim_copy (show_range r) = show_range r" for r
    using show_range_plain [of _ r] show_range_not_Nil [of r] by (simp_all add: http_trim_copy_space http_trim_copy_id)
  moreover have "\<not> is_space_or_tab (CHR '','')" by code_simp
  ultimately show ?thesis by (cases rs) (simp_all add: http_split_eq parts_show_ranges comp_def show_range_not_Nil)
qed

lemma range_pieces_show:
  "\<forall>r \<in> set rs. valid_range r \<Longrightarrow> range_pieces (map show_range rs) rs0 = Some (rs0 @ rs)"
proof (induction rs arbitrary: rs0)
  case (Cons r rs)
  then have "valid_range r" by simp
  then have "range_end (show_end (fst r)) = Some (fst r)" "range_end (show_end (snd r)) = Some (snd r)"
    by (auto simp: valid_range_def split_beta range_end_show)
  with Cons show ?case by (cases r) (auto simp: re_another_show match_show_range valid_range_def)
qed simp

text \<open>
  The Range header that a client writes for a list of ranges is parsed to those ranges: numbers below
  \<open>2 ^ 63\<close> or left out, and no first number above its last one.
\<close>

theorem range_header_roundtrip:
  assumes "rs \<noteq> []" and "\<forall>r \<in> set rs. valid_range r"
  shows "parse_range_header (''bytes='' @ show_ranges rs) [] = Some rs"
proof -
  have "re_first_range (''bytes='' @ show_ranges rs) = Some (show_ranges rs)"
    using assms(1) match_show_range_not_None by (auto simp: re_first_range_def parts_show_ranges list_all_iff re_another_show)
  then show ?thesis using range_pieces_show [OF assms(2)] by (simp add: parse_range_header_def split_show_ranges assms(1))
qed

theorem range_header_roundtrip_witness:
  "parse_range_header ''bytes=0-99, 200-, -50'' [] = Some [(0, 99), (200, -1), (-1, 50)]"
proof -
  have "''bytes=0-99, 200-, -50'' = ''bytes='' @ show_ranges [(0, 99), (200, -1), (-1, 50)]" by code_simp
  then show ?thesis using range_header_roundtrip [of "[(0, 99), (200, -1), (-1, 50)]"] by (simp add: valid_range_def)
qed

section \<open>What a range gets\<close>

text \<open>The bytes that a range asks for, of a content of \<open>n\<close> bytes: from the first on and before the second.\<close>

definition wanted :: "nat \<Rightarrow> range \<Rightarrow> nat \<times> nat" where
  "wanted n = (\<lambda>(a, b).
     if a = -1 then (if b = -1 then (0, n) else (n - nat b, n)) else (nat a, if b = -1 then n else nat b + 1))"

lemma unat_diff: "lo \<le> n \<Longrightarrow> n \<le> 2 ^ 63 \<Longrightarrow> unat (word_of_nat n - word_of_nat lo :: u64) = n - lo"
proof -
  assume "lo \<le> n" "n \<le> 2 ^ 63"
  then have "word_of_nat n - word_of_nat lo = (word_of_nat (n - lo) :: u64)" by (simp add: of_nat_diff)
  with \<open>n \<le> 2 ^ 63\<close> show ?thesis by (simp add: unat_of_nat)
qed

lemma range_offset:
  assumes "valid_range (ranges ! i)" and "n < 2 ^ 63" and "wanted n (ranges ! i) = (lo, hi)"
  shows "\<exists>len. get_range_offset_and_length ranges n i = (word_of_nat lo, len) \<and> (lo < n \<longrightarrow> unat len = hi - lo) \<and>
    lo < 2 ^ 63 \<and> hi \<le> 2 ^ 63 \<and> (lo < n \<longrightarrow> lo < hi)"
proof -
  obtain a b where r: "ranges ! i = (a, b)" by fastforce
  have v: "-1 \<le> a" "a < 2 ^ 63" "-1 \<le> b" "b < 2 ^ 63" "a = -1 \<or> b = -1 \<or> a \<le> b"
    using assms(1) by (simp_all add: valid_range_def r)
  consider "a = -1" "b = -1" | "a = -1" "0 \<le> b" | "0 \<le> a" "b = -1" | "0 \<le> a" "a \<le> b" using v by linarith
  then show ?thesis
  proof cases
    case 1
    then show ?thesis using assms(2,3) by (auto simp: r get_range_offset_and_length_def wanted_def unat_of_nat)
  next
    case 2
    then have w: "lo = n - nat b" "hi = n" using assms(3) by (auto simp: r wanted_def)
    have "max 0 (int n - b) = int lo" using 2 w by (simp add: nat_le_iff max_def of_nat_diff)
    then have "get_range_offset_and_length ranges n i = (word_of_nat lo, word_of_nat n - word_of_nat lo)"
      using 2 by (simp add: r get_range_offset_and_length_def Let_def)
    moreover have "unat (word_of_nat n - word_of_nat lo :: u64) = n - lo" using w assms(2) by (intro unat_diff) auto
    ultimately show ?thesis using w assms(2) by auto
  next
    case 3
    define k where "k = nat a"
    have "a = int k" using 3 by (simp add: k_def)
    then show ?thesis using assms(2,3) v 3 unat_diff [of k n]
      by (auto simp: r get_range_offset_and_length_def wanted_def)
  next
    case 4
    define k m where "k = nat a" and "m = nat b"
    have "a = int k" "b = int m" using 4 by (simp_all add: k_def m_def)
    moreover from this have "unat (word_of_nat m - word_of_nat k + 1 :: u64) = Suc m - k"
      using unat_diff [of k "Suc m"] v 4 by (simp add: algebra_simps)
    ultimately show ?thesis using assms(2,3) v 4 by (auto simp: r get_range_offset_and_length_def wanted_def)
  qed
qed

lemma decimal_plain: "set (decimal n) \<inter> {CHR 0x00, CHR 13, CHR 10} = {}"
  using decimal_digits [of "CHR 0x00" n] decimal_digits [of "CHR 13" n] decimal_digits [of "CHR 10" n]
  by (auto simp: is_digit_def)

lemma has_crlf_plain: "set s \<inter> {CHR 13, CHR 10} = {} \<Longrightarrow> \<not> has_crlf s"
  by (auto simp: has_crlf_def list_ex_iff dest: set_takeWhileD)

lemma set_content_range: "\<not> has_crlf (make_content_range_header_field offset len n)"
  using decimal_plain by (intro has_crlf_plain) (auto simp: make_content_range_header_field_def)

lemma decimal_no_crlf: "\<not> has_crlf (decimal n)"
  using decimal_plain [of n] by (intro has_crlf_plain) auto

lemma header_names: "\<not> has_crlf ''Content-Length''" "\<not> has_crlf ''Content-Range''" "\<not> has_crlf ''Content-Type''"
  by code_simp+

lemma headers_set_header: "\<not> has_crlf k \<Longrightarrow> \<not> has_crlf v \<Longrightarrow> mset (headers (set_header res k v)) = add_mset (k, v) (mset (headers res))"
  by (simp add: set_header_def mset_ci_emplace)

text \<open>
  C39: The answer to a single range is the bytes that it asks for, as far as the body has them, or the status 416 with
  no body when the body ends before the range. Its Content-Length is that of the bytes that are sent; but its
  Content-Range has the last byte that was asked for, even when the body is shorter.
\<close>

theorem single_range_answered:
  assumes "valid_range r" and "body res \<noteq> []" and "length (body res) < 2 ^ 63"
    and "wanted (length (body res)) r = (lo, hi)" and "ans = apply_ranges [r] boundary res"
  shows "body ans = slice (body res) lo hi \<and>
    (if lo < length (body res)
     then status ans = status res \<and> body ans \<noteq> [] \<and>
       mset (headers ans) = mset (headers res) + {#(''Content-Length'', decimal (length (slice (body res) lo hi))),
         (''Content-Range'', ''bytes '' @ decimal lo @ ''-'' @ decimal (hi - 1) @ ''/'' @ decimal (length (body res)))#}
     else status ans = 416)"
proof -
  let ?n = "length (body res)"
  obtain len where g: "get_range_offset_and_length [r] ?n 0 = (word_of_nat lo, len)"
    and len: "lo < ?n \<Longrightarrow> unat len = hi - lo" "lo < ?n \<Longrightarrow> lo < hi" and b: "lo < 2 ^ 63" "hi \<le> 2 ^ 63"
    using range_offset [of "[r]" 0 ?n lo hi] assms(1,3,4) by auto
  have lo: "unat (word_of_nat lo :: u64) = lo" using b by (simp add: unat_of_nat)
  let ?r = "set_header res ''Content-Range'' (make_content_range_header_field (word_of_nat lo) len ?n)"
  have a: "ans = (let res = (if lo < ?n then ?r\<lparr>body := take (unat len) (drop lo (body res))\<rparr> else ?r\<lparr>body := [], status := 416\<rparr>)
      in set_header res ''Content-Length'' (decimal (length (body res))))"
    using assms(2) by (simp add: assms(5) apply_ranges_def multipart_headers_def g lo)
  show ?thesis
  proof (cases "lo < ?n")
    case True
    have "len = word_of_nat (hi - lo)" using len(1) [OF True, symmetric] by simp
    then have "word_of_nat lo + len - 1 = (word_of_nat (hi - 1) :: u64)" using len(2) [OF True] by (simp add: of_nat_diff)
    moreover have "unat (word_of_nat (hi - 1) :: u64) = hi - 1" using b by (simp add: unat_of_nat)
    ultimately have f: "make_content_range_header_field (word_of_nat lo) len ?n =
        ''bytes '' @ decimal lo @ ''-'' @ decimal (hi - 1) @ ''/'' @ decimal ?n"
      by (simp add: make_content_range_header_field_def lo)
    have "slice (body res) lo hi \<noteq> []" using True len(2) by (auto simp: slice_def)
    moreover have "mset (headers ans) = mset (headers res) + {#(''Content-Length'', decimal (length (slice (body res) lo hi))),
         (''Content-Range'', ''bytes '' @ decimal lo @ ''-'' @ decimal (hi - 1) @ ''/'' @ decimal ?n)#}"
      using True set_content_range [of "word_of_nat lo" len ?n, unfolded f]
      by (simp add: a f len(1) slice_def Let_def headers_set_header decimal_no_crlf header_names)
    ultimately show ?thesis using True by (simp add: a f len(1) slice_def Let_def)
  next
    case False
    then show ?thesis by (simp add: a slice_def Let_def)
  qed
qed

theorem single_range_answered_witness:
  "body (apply_ranges [(6, -1)] [] \<lparr>status = 206, headers = [], body = ''hello world''\<rparr>) = ''world''"
proof -
  have "slice ''hello world'' 6 11 = ''world''" by (simp add: slice_def)
  then show ?thesis
    using single_range_answered [of "(6, -1)" "\<lparr>status = 206, headers = [], body = ''hello world''\<rparr>" 6 11 _ "[]", OF _ _ _ _ refl]
    by (simp add: valid_range_def wanted_def)
qed

text \<open>One part of a multipart answer, and the whole of it.\<close>

definition part_text :: "string \<Rightarrow> string \<Rightarrow> string \<Rightarrow> range \<Rightarrow> string" where
  "part_text bd boundary content_type r =
     (let (lo, hi) = wanted (length bd) r
      in ''--'' @ boundary @ [CHR 13, CHR 10] @
         (if content_type \<noteq> [] then ''Content-Type: '' @ content_type @ [CHR 13, CHR 10] else []) @
         ''Content-Range: bytes '' @ decimal lo @ ''-'' @ decimal (hi - 1) @ ''/'' @ decimal (length bd) @
         [CHR 13, CHR 10, CHR 13, CHR 10] @ slice bd lo hi @ [CHR 13, CHR 10])"

definition satisfiable :: "nat \<Rightarrow> range \<Rightarrow> bool" where
  "satisfiable n r \<longleftrightarrow> fst (wanted n r) < n"

lemma range_step:
  assumes "valid_range (ranges ! i)" and "length bd < 2 ^ 63"
  obtains offset len where "get_range_offset_and_length ranges (length bd) i = (offset, len)"
    and "unat offset < length bd \<longleftrightarrow> satisfiable (length bd) (ranges ! i)"
    and "satisfiable (length bd) (ranges ! i) \<Longrightarrow>
      concat (part_tokens boundary content_type offset len (length bd)) @ take (unat len) (drop (unat offset) bd) @ [CHR 13, CHR 10] =
        part_text bd boundary content_type (ranges ! i)"
    and "satisfiable (length bd) (ranges ! i) \<Longrightarrow> snd (wanted (length bd) (ranges ! i)) \<le> length bd \<Longrightarrow>
      length (take (unat len) (drop (unat offset) bd)) = unat len"
proof -
  let ?n = "length bd"
  obtain lo hi where w: "wanted ?n (ranges ! i) = (lo, hi)" by fastforce
  then obtain len where g: "get_range_offset_and_length ranges ?n i = (word_of_nat lo, len)"
    and len: "lo < ?n \<Longrightarrow> unat len = hi - lo" "lo < ?n \<Longrightarrow> lo < hi" and b: "lo < 2 ^ 63" "hi \<le> 2 ^ 63"
    using range_offset [OF assms(1,2)] by blast
  have lo: "unat (word_of_nat lo :: u64) = lo" using b by (simp add: unat_of_nat)
  have f: "unat (word_of_nat lo + len - 1) = hi - 1" if "lo < ?n"
  proof -
    have "len = word_of_nat (hi - lo)" using len(1) [OF that, symmetric] by simp
    then have "word_of_nat lo + len - 1 = (word_of_nat (hi - 1) :: u64)" using len(2) [OF that] by (simp add: of_nat_diff)
    then show ?thesis using b by (simp add: unat_of_nat)
  qed
  show thesis
    by (rule that [OF g])
      (use len f in \<open>simp_all add: satisfiable_def w lo part_tokens_def part_text_def make_content_range_header_field_def slice_def\<close>)
qed

lemma foldl_tokens: "foldl (@) st ts = st @ concat ts"
  by (induction ts arbitrary: st) auto

lemma multipart_parts:
  assumes "\<forall>r \<in> set ranges. valid_range r" and "length bd < 2 ^ 63"
  shows "fst (process_multipart_ranges_data ranges (length bd) boundary content_type (@)
       (\<lambda>offset len data. if unat offset < length bd then (True, data @ take (unat len) (drop (unat offset) bd)) else (False, data)) i st)
     \<longleftrightarrow> list_all (satisfiable (length bd)) (drop i ranges)" (is "fst (?m i st) \<longleftrightarrow> _")
    and "list_all (satisfiable (length bd)) (drop i ranges) \<Longrightarrow>
      snd (process_multipart_ranges_data ranges (length bd) boundary content_type (@)
        (\<lambda>offset len data. if unat offset < length bd then (True, data @ take (unat len) (drop (unat offset) bd)) else (False, data)) i st)
      = st @ concat (map (part_text bd boundary content_type) (drop i ranges)) @ ''--'' @ boundary @ ''--'' @ [CHR 13, CHR 10]"
proof -
  have "(fst (?m i st) \<longleftrightarrow> list_all (satisfiable (length bd)) (drop i ranges)) \<and>
    (list_all (satisfiable (length bd)) (drop i ranges) \<longrightarrow>
      snd (?m i st) = st @ concat (map (part_text bd boundary content_type) (drop i ranges)) @ ''--'' @ boundary @ ''--'' @ [CHR 13, CHR 10])"
  proof (induction "length ranges - i" arbitrary: i st)
    case 0
    then show ?case by (subst (1 2) process_multipart_ranges_data.simps) (simp add: foldl_tokens)
  next
    case (Suc k)
    then have i: "i < length ranges" and k: "k = length ranges - (i + 1)" by auto
    then have d: "drop i ranges = ranges ! i # drop (i + 1) ranges" by (simp add: Cons_nth_drop_Suc)
    obtain offset len where g: "get_range_offset_and_length ranges (length bd) i = (offset, len)"
      and ok: "unat offset < length bd \<longleftrightarrow> satisfiable (length bd) (ranges ! i)"
      and tx: "satisfiable (length bd) (ranges ! i) \<Longrightarrow>
        concat (part_tokens boundary content_type offset len (length bd)) @ take (unat len) (drop (unat offset) bd) @ [CHR 13, CHR 10] =
        part_text bd boundary content_type (ranges ! i)"
      using range_step [of ranges i bd boundary content_type] assms i by (metis nth_mem)
    show ?case
    proof (cases "satisfiable (length bd) (ranges ! i)")
      case True
      then have "?m i st = ?m (i + 1) (st @ part_text bd boundary content_type (ranges ! i))"
        using i g ok by (subst process_multipart_ranges_data.simps) (simp add: foldl_tokens tx [OF True, symmetric])
      then show ?thesis using Suc.hyps(1) [OF k] True by (simp add: d)
    next
      case False
      then show ?thesis using i g ok by (subst (1 2) process_multipart_ranges_data.simps) (simp add: d)
    qed
  qed
  then show "fst (?m i st) \<longleftrightarrow> list_all (satisfiable (length bd)) (drop i ranges)"
    and "list_all (satisfiable (length bd)) (drop i ranges) \<Longrightarrow>
      snd (?m i st) = st @ concat (map (part_text bd boundary content_type) (drop i ranges)) @ ''--'' @ boundary @ ''--'' @ [CHR 13, CHR 10]"
    by blast+
qed

text \<open>
  The answer to more than one range is the parts in the order of the request, each with its bytes, and a closing
  boundary; when one of the ranges starts after the end of the body, the status is 416 with no body at all.
\<close>

theorem multiple_ranges_answered:
  assumes "\<forall>r \<in> set ranges. valid_range r" and "1 < length ranges" and "body res \<noteq> []" and "length (body res) < 2 ^ 63"
    and "ans = apply_ranges ranges boundary res" and "content_type = fst (erase_header (headers res) ''Content-Type'')"
  shows "if list_all (satisfiable (length (body res))) ranges
    then status ans = status res \<and>
      body ans = concat (map (part_text (body res) boundary content_type) ranges) @ ''--'' @ boundary @ ''--'' @ [CHR 13, CHR 10]
    else status ans = 416 \<and> body ans = []"
proof -
  obtain ok data where m: "make_multipart_ranges_data ranges (body res) boundary content_type = (ok, data)" by fastforce
  note p = multipart_parts [OF assms(1,4), where boundary = boundary and content_type = content_type and i = 0 and st = "[]"]
  have ok: "ok \<longleftrightarrow> list_all (satisfiable (length (body res))) ranges"
    and data: "ok \<Longrightarrow> data = concat (map (part_text (body res) boundary content_type) ranges) @ ''--'' @ boundary @ ''--'' @ [CHR 13, CHR 10]"
    using p m unfolding make_multipart_ranges_data_def by (metis drop_0 fst_conv, metis append_Nil drop_0 fst_conv snd_conv)
  have "ranges \<noteq> []" "length ranges \<noteq> 1" using assms(2) by auto
  then show ?thesis
    using assms(2,3) m ok data
    by (simp add: assms(5) apply_ranges_def multipart_headers_def assms(6) split_beta Let_def)
qed

text \<open>
  The length that is computed without the data is the length of the data, when no range passes the end. For a content
  provider, its only use, the code computes it with the size of the empty body.
\<close>

lemma foldl_token_lengths: "foldl (\<lambda>n token. n + length token) n ts = n + length (concat ts)"
  by (induction ts arbitrary: n) auto

lemma multipart_length:
  assumes "\<forall>r \<in> set ranges. valid_range r \<and> satisfiable (length bd) r \<and> snd (wanted (length bd) r) \<le> length bd"
    and "length bd < 2 ^ 63"
  shows "get_multipart_ranges_data_length ranges bd boundary content_type =
    length (snd (make_multipart_ranges_data ranges bd boundary content_type))"
proof -
  let ?l = "process_multipart_ranges_data ranges (length bd) boundary content_type (\<lambda>n token. n + length token)
    (\<lambda>offset len n. (True, n + unat len))"
  have "snd (?l i n) = n + length (concat (map (part_text bd boundary content_type) (drop i ranges)) @ ''--'' @ boundary @ ''--'' @ [CHR 13, CHR 10])" for i n
  proof (induction "length ranges - i" arbitrary: i n)
    case 0
    then show ?case by (subst process_multipart_ranges_data.simps) (simp add: foldl_token_lengths)
  next
    case (Suc k)
    then have i: "i < length ranges" and k: "k = length ranges - (i + 1)" by auto
    then have d: "drop i ranges = ranges ! i # drop (i + 1) ranges" by (simp add: Cons_nth_drop_Suc)
    have r: "valid_range (ranges ! i)" "satisfiable (length bd) (ranges ! i)" "snd (wanted (length bd) (ranges ! i)) \<le> length bd"
      using assms(1) i by auto
    obtain offset len where g: "get_range_offset_and_length ranges (length bd) i = (offset, len)"
      and tx: "concat (part_tokens boundary content_type offset len (length bd)) @ take (unat len) (drop (unat offset) bd) @ [CHR 13, CHR 10] =
        part_text bd boundary content_type (ranges ! i)"
      and l: "length (take (unat len) (drop (unat offset) bd)) = unat len"
      using range_step [OF r(1) assms(2), of boundary content_type] r(2,3) by metis
    have "?l i n = ?l (i + 1) (n + length (part_text bd boundary content_type (ranges ! i)))"
      using i g by (subst process_multipart_ranges_data.simps) (simp add: foldl_token_lengths tx [symmetric] l add.assoc del: length_take length_drop)
    then show ?case using Suc.hyps(1) [OF k] by (simp add: d)
  qed
  from this [of 0 0] show ?thesis
    using multipart_parts(2) [OF _ assms(2), of ranges 0 boundary content_type "[]"] assms(1)
    by (simp add: get_multipart_ranges_data_length_def make_multipart_ranges_data_def list_all_iff)
qed

theorem multiple_ranges_answered_witness:
  "status (apply_ranges [(0, 1), (20, -1)] ''x'' \<lparr>status = 206, headers = [], body = ''hello world''\<rparr>) = 416"
proof -
  have "\<not> list_all (satisfiable (length ''hello world'')) [(0, 1), (20, -1)]" by (simp add: satisfiable_def wanted_def)
  then show ?thesis
    using multiple_ranges_answered [of "[(0, 1), (20, -1)]" "\<lparr>status = 206, headers = [], body = ''hello world''\<rparr>" _ "''x''", OF _ _ _ _ refl refl]
    by (simp add: valid_range_def)
qed

end
