(* ===== verification/HttpContent.thy ===== *)
theory HttpContent imports HttpMessages begin

text \<open>
  Reading and writing of bodies in \<open>httplib.h\<close>: bodies of a known length, bodies up to the end of the stream, and
  bodies in chunks.

  \<^item> A stream is the bytes that are still to come, until the peer closes it. How many bytes one read gives is up to the
    network: \<open>recv\<close> chooses it from the number of bytes that are left.
  \<^item> A receiver is a function on the state of its caller; it gives whether to go on.
  \<^item> The makefile sets none of the macros of the compression libraries: coded bodies are refused, and the compressor
    copies.
\<close>

section \<open>Streams and numbers\<close>

type_synonym 'a receiver = "string \<Rightarrow> 'a \<Rightarrow> bool \<times> 'a"

definition stream_read :: "(nat \<Rightarrow> nat) \<Rightarrow> string \<Rightarrow> nat \<Rightarrow> string \<times> string" where
  "stream_read recv s n = (let k = min (max 1 (recv (length s))) n in (take k s, drop k s))"

definition RECV_BUFSIZ :: nat where "RECV_BUFSIZ = 4096"

definition ULONG_MAX :: nat where "ULONG_MAX = 2 ^ 64 - 1"

text \<open>
  \<open>std::strtoul\<close> after white space and a sign: \<open>digits\<close> gives the digits that it takes, in the base \<open>b\<close>. Without
  digits it gives 0 and leaves the end where it started, which is \<open>None\<close>.
\<close>

definition strtoul_of :: "nat \<Rightarrow> (string \<Rightarrow> nat list) \<Rightarrow> string \<Rightarrow> nat option" where
  "strtoul_of b digits s =
     (let s = dropWhile is_space s;
          neg = (s \<noteq> [] \<and> hd s = CHR ''-'');
          ds = digits (if s \<noteq> [] \<and> (hd s = CHR ''-'' \<or> hd s = CHR ''+'') then tl s else s);
          v = foldl (\<lambda>v d. b * v + d) 0 ds
      in if ds = [] then None
         else Some (if v > ULONG_MAX then ULONG_MAX else if neg then (2 ^ 64 - v) mod 2 ^ 64 else v))"

definition digits16 :: "string \<Rightarrow> nat list" where
  "digits16 s =
     (let t = (if length s > 2 \<and> take 2 s \<in> {''0x'', ''0X''} \<and> is_hex (s ! 2) \<noteq> None then drop 2 s else s)
      in map (\<lambda>c. nat (the (is_hex c))) (takeWhile (\<lambda>c. is_hex c \<noteq> None) t))"

definition digits10 :: "string \<Rightarrow> nat list" where
  "digits10 s = map (\<lambda>c. of_char c - 48) (takeWhile is_digit s)"

definition strtoul16 :: "string \<Rightarrow> nat option" where
  "strtoul16 = strtoul_of 16 digits16"

definition strtoull10 :: "string \<Rightarrow> nat" where
  "strtoull10 s = (case strtoul_of 10 digits10 s of None \<Rightarrow> 0 | Some v \<Rightarrow> v)"

section \<open>Reading\<close>

function read_content_with_length ::
  "(nat \<Rightarrow> nat) \<Rightarrow> string \<Rightarrow> nat \<Rightarrow> 'a receiver \<Rightarrow> nat \<Rightarrow> 'a \<Rightarrow> bool \<times> 'a \<times> string" where
  "read_content_with_length recv s len out r st =
     (if r < len then
        (let (buf, rest) = stream_read recv s (min (len - r) RECV_BUFSIZ)
         in if buf = [] then (False, st, rest)
            else (case out buf st of
                    (False, st) \<Rightarrow> (False, st, rest)
                  | (True, st) \<Rightarrow> read_content_with_length recv rest len out (r + length buf) st))
      else (True, st, s))"
  by pat_completeness auto
termination
  by (relation "measure (\<lambda>(recv, s, len, out, r, st). length s)") (auto simp: stream_read_def Let_def)

function skip_content_with_length :: "(nat \<Rightarrow> nat) \<Rightarrow> string \<Rightarrow> nat \<Rightarrow> nat \<Rightarrow> string" where
  "skip_content_with_length recv s len r =
     (if r < len then
        (let (buf, rest) = stream_read recv s (min (len - r) RECV_BUFSIZ)
         in if buf = [] then rest else skip_content_with_length recv rest len (r + length buf))
      else s)"
  by pat_completeness auto
termination
  by (relation "measure (\<lambda>(recv, s, len, r). length s)") (auto simp: stream_read_def Let_def)

function read_content_without_length ::
  "(nat \<Rightarrow> nat) \<Rightarrow> string \<Rightarrow> 'a receiver \<Rightarrow> 'a \<Rightarrow> bool \<times> 'a \<times> string" where
  "read_content_without_length recv s out st =
     (let (buf, rest) = stream_read recv s RECV_BUFSIZ
      in if buf = [] then (True, st, rest)
         else (case out buf st of
                 (False, st) \<Rightarrow> (False, st, rest)
               | (True, st) \<Rightarrow> read_content_without_length recv rest out st))"
  by pat_completeness auto
termination
  by (relation "measure (\<lambda>(recv, s, out, st). length s)") (auto simp: stream_read_def Let_def)

declare read_content_with_length.simps [simp del] skip_content_with_length.simps [simp del]
  read_content_without_length.simps [simp del]

text \<open>The test against the line \<open>"\r\n"\<close>, which \<open>strcmp\<close> makes up to the first zero byte.\<close>

definition is_crlf :: "string \<Rightarrow> bool" where
  "is_crlf line \<longleftrightarrow> takeWhile (\<lambda>c. c \<noteq> CHR 0x00) line = [CHR 13, CHR 10]"

text \<open>The loop of \<open>read_content_chunked\<close> at a line with the length of a chunk.\<close>

lemma stream_getline_shorter: "stream_getline s = Some (line, rest) \<Longrightarrow> length rest < length s"
  by (auto simp: stream_getline_def Let_def split: if_splits)

lemma read_content_with_length_shorter:
  "read_content_with_length recv s len out r st = (ok, st', rest) \<Longrightarrow> length rest \<le> length s"
proof (induction recv s len out r st rule: read_content_with_length.induct)
  case (1 recv s len out r st)
  obtain buf t where b: "stream_read recv s (min (len - r) RECV_BUFSIZ) = (buf, t)" by fastforce
  then have t: "length t \<le> length s" by (auto simp: stream_read_def Let_def)
  obtain go st1 where o: "out buf st = (go, st1)" by fastforce
  show ?case
  proof (cases "r < len \<and> buf \<noteq> [] \<and> go")
    case True
    then have "read_content_with_length recv t len out (r + length buf) st1 = (ok, st', rest)"
      using "1.prems" b o by (subst (asm) read_content_with_length.simps) simp
    from "1.IH" [OF _ refl, OF _ b [symmetric] _ o [symmetric] _ this] True t show ?thesis by auto
  next
    case False
    then show ?thesis using "1.prems" b o t by (subst (asm) read_content_with_length.simps) (auto split: if_splits)
  qed
qed

function chunk_loop :: "(nat \<Rightarrow> nat) \<Rightarrow> string \<Rightarrow> string \<Rightarrow> 'a receiver \<Rightarrow> 'a \<Rightarrow> bool \<times> 'a \<times> string" where
  "chunk_loop recv line s out st =
     (case strtoul16 line of
        None \<Rightarrow> (False, st, s)
      | Some chunk_len \<Rightarrow>
          if chunk_len = ULONG_MAX then (False, st, s)
          else if chunk_len = 0 then
            (case stream_getline s of None \<Rightarrow> (False, st, []) | Some (l, rest) \<Rightarrow> (is_crlf l, st, rest))
          else
            (case read_content_with_length recv s chunk_len out 0 st of
               (False, st, rest) \<Rightarrow> (False, st, rest)
             | (True, st, rest) \<Rightarrow>
                 (case stream_getline rest of
                    None \<Rightarrow> (False, st, [])
                  | Some (l, rest) \<Rightarrow>
                      if \<not> is_crlf l then (True, st, rest)
                      else (case stream_getline rest of
                              None \<Rightarrow> (False, st, [])
                            | Some (l, rest) \<Rightarrow> chunk_loop recv l rest out st))))"
  by pat_completeness auto
termination
  by (relation "measure (\<lambda>(recv, line, s, out, st). length s)")
    (auto dest!: stream_getline_shorter sym [THEN read_content_with_length_shorter])

declare chunk_loop.simps [simp del]

definition read_content_chunked :: "(nat \<Rightarrow> nat) \<Rightarrow> string \<Rightarrow> 'a receiver \<Rightarrow> 'a \<Rightarrow> bool \<times> 'a \<times> string" where
  "read_content_chunked recv s out st =
     (case stream_getline s of None \<Rightarrow> (False, st, []) | Some (line, rest) \<Rightarrow> chunk_loop recv line rest out st)"

definition is_chunked_transfer_encoding :: "multimap \<Rightarrow> bool" where
  "is_chunked_transfer_encoding hs \<longleftrightarrow> ci_equal (get_header_value hs ''Transfer-Encoding'' 0 []) ''chunked''"

text \<open>\<open>read_content\<close>, for the receivers that are called without progress: its result with the status that it sets.\<close>

definition coded_content :: "multimap \<Rightarrow> bool" where
  "coded_content hs \<longleftrightarrow>
     (let encoding = get_header_value hs ''Content-Encoding'' 0 []
      in find_str encoding ''gzip'' \<noteq> None \<or> find_str encoding ''deflate'' \<noteq> None \<or> find_str encoding ''br'' \<noteq> None)"

definition content_length :: "multimap \<Rightarrow> nat" where
  "content_length hs = (if headers_have hs ''Content-Length'' then strtoull10 (get_header_value hs ''Content-Length'' 0 []) else 0)"

definition read_content ::
  "(nat \<Rightarrow> nat) \<Rightarrow> nat \<Rightarrow> multimap \<Rightarrow> string \<Rightarrow> 'a receiver \<Rightarrow> int \<Rightarrow> 'a \<Rightarrow> bool \<times> int \<times> 'a \<times> string" where
  "read_content recv payload_max_length hs s out stat st =
     (if coded_content hs then (False, 415, st, s)
      else if \<not> is_chunked_transfer_encoding hs \<and> headers_have hs ''Content-Length'' \<and> content_length hs > payload_max_length
        then (False, 413, st, skip_content_with_length recv s (content_length hs) 0)
      else
        (let (ok, st, rest) =
           (if is_chunked_transfer_encoding hs then read_content_chunked recv s out st
            else if \<not> headers_have hs ''Content-Length'' then read_content_without_length recv s out st
            else if content_length hs > 0 then read_content_with_length recv s (content_length hs) out 0 st
            else (True, st, s))
         in (ok, if ok then stat else 400, st, rest)))"

section \<open>Writing in chunks\<close>

datatype sink_op = SinkWrite string | SinkDone

record chunk_state =
  ck_offset :: nat
  ck_available :: bool
  ck_out :: string

text \<open>
  What a content provider may do with its sink: \<open>write\<close> and \<open>done\<close>. Writing to the stream does not fail here, so that
  \<open>ok\<close> stays set.
\<close>

definition chunk_text :: "string \<Rightarrow> string" where
  "chunk_text payload = from_i_to_hex (length payload) @ [CHR 13, CHR 10] @ payload @ [CHR 13, CHR 10]"

fun sink_step :: "sink_op \<Rightarrow> chunk_state \<Rightarrow> chunk_state" where
  "sink_step (SinkWrite d) st =
     st\<lparr>ck_available := length d > 0, ck_offset := ck_offset st + length d,
        ck_out := ck_out st @ (if d \<noteq> [] then chunk_text d else [])\<rparr>"
| "sink_step SinkDone st = st\<lparr>ck_available := False, ck_out := ck_out st @ ''0'' @ [CHR 13, CHR 10, CHR 13, CHR 10]\<rparr>"

text \<open>
  The loop over the provider, which is called with the offset. The server is shut down when it is asked for
  the time \<open>rounds + 1\<close>.
\<close>

fun chunk_rounds :: "nat \<Rightarrow> (nat \<Rightarrow> sink_op list \<times> bool) \<Rightarrow> chunk_state \<Rightarrow> bool \<times> chunk_state" where
  "chunk_rounds 0 provider st = (True, st)"
| "chunk_rounds (Suc rounds) provider st =
     (if ck_available st then
        (let (ops, ok) = provider (ck_offset st); st = fold sink_step ops st
         in if \<not> ok then (False, st) else chunk_rounds rounds provider st)
      else (True, st))"

definition write_content_chunked :: "nat \<Rightarrow> (nat \<Rightarrow> sink_op list \<times> bool) \<Rightarrow> bool \<times> string" where
  "write_content_chunked rounds provider =
     (let (ok, st) = chunk_rounds rounds provider \<lparr>ck_offset = 0, ck_available = True, ck_out = []\<rparr> in (ok, ck_out st))"

section \<open>Bodies of a known length\<close>

text \<open>The receiver of \<open>Server::read_content\<close>, which appends to the body.\<close>

definition append_to :: "string receiver" where
  "append_to buf bd = (True, bd @ buf)"

lemma stream_read_some:
  assumes "s \<noteq> []" and "0 < n"
  obtains k where "stream_read recv s n = (take k s, drop k s)" and "0 < k" and "k \<le> n" and "k \<le> length s"
proof
  let ?k = "min (min (max 1 (recv (length s))) n) (length s)"
  have "take ?k s = take (min (max 1 (recv (length s))) n) s" "drop ?k s = drop (min (max 1 (recv (length s))) n) s"
    by (auto simp: min_def)
  then show "stream_read recv s n = (take ?k s, drop ?k s)" by (simp add: stream_read_def Let_def)
  show "0 < ?k" "?k \<le> n" "?k \<le> length s" using assms by auto
qed

lemma stream_read_end: "stream_read recv [] n = ([], [])"
  by (simp add: stream_read_def)

lemma RECV_BUFSIZ_pos: "0 < RECV_BUFSIZ"
  by (simp add: RECV_BUFSIZ_def)

lemma take_drop_split: "k \<le> m \<Longrightarrow> take k s @ take (m - k) (drop k s) = take m s"
  by (metis le_add_diff_inverse take_add)

lemma read_with_length_app:
  "read_content_with_length recv s len append_to r bd =
     (len - r \<le> length s, bd @ take (len - r) s, drop (len - r) s)"
proof (induction "length s" arbitrary: s r bd rule: less_induct)
  case less
  show ?case
  proof (cases "r < len \<and> s \<noteq> []")
    case True
    then obtain k where k: "stream_read recv s (min (len - r) RECV_BUFSIZ) = (take k s, drop k s)" "0 < k" "k \<le> len - r" "k \<le> length s"
      using stream_read_some [of s "min (len - r) RECV_BUFSIZ" recv] RECV_BUFSIZ_pos by auto
    have "read_content_with_length recv s len append_to r bd =
        read_content_with_length recv (drop k s) len append_to (r + k) (bd @ take k s)"
      using True k by (subst read_content_with_length.simps) (simp add: append_to_def)
    also have "\<dots> = (len - r - k \<le> length s - k, bd @ (take k s @ take (len - r - k) (drop k s)), drop (len - r) s)"
      using True k by (subst less) auto
    finally show ?thesis using k(3,4) take_drop_split [OF k(3), of s] by (simp only: le_diff_iff)
  next
    case False
    then show ?thesis by (subst read_content_with_length.simps) (auto simp: stream_read_end)
  qed
qed

lemma skip_with_length: "skip_content_with_length recv s len r = drop (len - r) s"
proof (induction "length s" arbitrary: s r rule: less_induct)
  case less
  show ?case
  proof (cases "r < len \<and> s \<noteq> []")
    case True
    then obtain k where k: "stream_read recv s (min (len - r) RECV_BUFSIZ) = (take k s, drop k s)" "0 < k" "k \<le> len - r" "k \<le> length s"
      using stream_read_some [of s "min (len - r) RECV_BUFSIZ" recv] RECV_BUFSIZ_pos by auto
    have "skip_content_with_length recv s len r = skip_content_with_length recv (drop k s) len (r + k)"
      using True k by (subst skip_content_with_length.simps) simp
    also have "\<dots> = drop (len - r) s" using True k by (subst less) auto
    finally show ?thesis .
  next
    case False
    then show ?thesis by (subst skip_content_with_length.simps) (auto simp: stream_read_end)
  qed
qed

lemma read_without_length_app: "read_content_without_length recv s append_to bd = (True, bd @ s, [])"
proof (induction "length s" arbitrary: s bd rule: less_induct)
  case less
  show ?case
  proof (cases "s = []")
    case False
    then obtain k where k: "stream_read recv s RECV_BUFSIZ = (take k s, drop k s)" "0 < k" "k \<le> length s"
      using stream_read_some [of s RECV_BUFSIZ recv] RECV_BUFSIZ_pos by auto
    then have "read_content_without_length recv s append_to bd = read_content_without_length recv (drop k s) append_to (bd @ take k s)"
      using False by (subst read_content_without_length.simps) (simp add: append_to_def)
    also have "\<dots> = (True, (bd @ take k s) @ drop k s, [])" using False k by (intro less) simp
    finally show ?thesis by simp
  next
    case True
    then show ?thesis by (subst read_content_without_length.simps) (simp add: stream_read_end)
  qed
qed

text \<open>
  A body with a Content-Length is exactly that many bytes of the stream, however the network cuts them, and what
  follows is left in the stream. When the peer closes too early the answer is 400; a body above the limit is skipped
  and answered with 413.
\<close>

theorem content_length_body:
  assumes "\<not> coded_content hs" and "\<not> is_chunked_transfer_encoding hs" and "headers_have hs ''Content-Length''"
    and "n = content_length hs"
  shows "read_content recv limit hs s append_to stat [] =
    (if limit < n then (False, 413, [], drop n s)
     else if n \<le> length s then (True, stat, take n s, drop n s)
     else (False, 400, s, []))"
  using assms by (auto simp: read_content_def read_with_length_app skip_with_length)

theorem content_length_body_witness:
  "read_content (\<lambda>n. 3) 100 [(''content-length'', '' 5x'')] ''helloGET '' append_to (-1) [] = (True, -1, ''hello'', ''GET '')"
proof -
  let ?hs = "[(''content-length'', '' 5x'')]"
  have h: "\<not> coded_content ?hs" "\<not> is_chunked_transfer_encoding ?hs" "headers_have ?hs ''Content-Length''"
    and "get_header_value ?hs ''Content-Length'' 0 [] = '' 5x''" "dropWhile is_space '' 5x'' = ''5x''" "digits10 ''5x'' = [5]"
    by code_simp+
  then have "5 = content_length ?hs"
    by (simp add: content_length_def strtoull10_def strtoul_of_def Let_def ULONG_MAX_def)
  from content_length_body [OF h this, of "\<lambda>n. 3" 100 "''helloGET ''" "-1"] show ?thesis by simp
qed

section \<open>Chunks\<close>

lemma from_i_to_hex_step: "from_i_to_hex n = (if n < 16 then [] else from_i_to_hex (n div 16)) @ [''0123456789abcdef'' ! (n mod 16)]"
  by (subst from_i_to_hex.simps) (auto simp: div_greater_zero_iff)

definition lower_hex :: "char set" where
  "lower_hex = set ''0123456789abcdef''"

lemma set_from_i_to_hex: "c \<in> set (from_i_to_hex n) \<Longrightarrow> c \<in> lower_hex"
proof (induction n rule: from_i_to_hex.induct)
  case (1 n)
  have "''0123456789abcdef'' ! (n mod 16) \<in> lower_hex" unfolding lower_hex_def by (intro nth_mem) simp
  then show ?case using 1 by (subst (asm) (2) from_i_to_hex_step) (auto split: if_splits simp: div_greater_zero_iff)
qed

lemma from_i_to_hex_not_Nil: "from_i_to_hex n \<noteq> []"
  by (subst from_i_to_hex_step) simp

lemma lower_hex_digit: "c \<in> lower_hex \<Longrightarrow> is_hex c \<noteq> None \<and> \<not> is_space c \<and> c \<notin> {CHR ''-'', CHR ''+'', CHR ''x'', CHR ''X'', CHR 10}"
  by (auto simp: lower_hex_def is_hex_def is_space_def)

lemma hex_digit_value: "d < 16 \<Longrightarrow> is_hex (''0123456789abcdef'' ! d) = Some (int d)"
proof -
  have "\<forall>d \<in> set [0..<16]. is_hex (''0123456789abcdef'' ! d) = Some (int d)" by code_simp
  then show "d < 16 \<Longrightarrow> is_hex (''0123456789abcdef'' ! d) = Some (int d)" by simp
qed

lemma hex_value: "foldl (\<lambda>v d. 16 * v + d) 0 (map (\<lambda>c. nat (the (is_hex c))) (from_i_to_hex n)) = n"
proof (induction n rule: from_i_to_hex.induct)
  case (1 n)
  have "foldl (\<lambda>v d. 16 * v + d) 0 (map (\<lambda>c. nat (the (is_hex c))) (from_i_to_hex n)) = 16 * (n div 16) + n mod 16"
    using 1 by (subst from_i_to_hex_step) (simp add: hex_digit_value div_greater_zero_iff)
  then show ?case by simp
qed

lemma strtoul16_hex: "n \<le> ULONG_MAX \<Longrightarrow> strtoul16 (from_i_to_hex n @ [CHR 13, CHR 10]) = Some n"
proof -
  let ?h = "from_i_to_hex n" and ?e = "[CHR 13, CHR 10]"
  obtain c cs where h: "?h = c # cs" using from_i_to_hex_not_Nil by (cases ?h) auto
  have c: "d \<in> lower_hex" if "d \<in> set ?h" for d using that by (rule set_from_i_to_hex)
  have sp: "\<not> is_space c" "c \<noteq> CHR ''-''" "c \<noteq> CHR ''+''" using lower_hex_digit [OF c, of c] by (auto simp: h)
  have x: "take 2 (?h @ ?e) \<notin> {''0x'', ''0X''}"
  proof (cases cs)
    case (Cons d ds)
    then have "d \<noteq> CHR ''x''" "d \<noteq> CHR ''X''" using lower_hex_digit [OF c, of d] by (auto simp: h)
    then show ?thesis by (simp add: h Cons)
  qed (simp add: h)
  have "takeWhile (\<lambda>c. is_hex c \<noteq> None) (?h @ ?e) = ?h"
  proof -
    have "is_hex (CHR 13) = None" by code_simp
    then show ?thesis using lower_hex_digit c by (subst takeWhile_append2) auto
  qed
  then have d: "digits16 (?h @ ?e) = map (\<lambda>c. nat (the (is_hex c))) ?h"
    using x unfolding digits16_def Let_def by (simp only: if_False simp_thms)
  have "dropWhile is_space (?h @ ?e) = ?h @ ?e" "?h @ ?e \<noteq> []" "hd (?h @ ?e) = c" using sp by (simp_all add: h)
  then have "strtoul16 (?h @ ?e) = (let v = n in if v > ULONG_MAX then Some ULONG_MAX else Some v)"
    unfolding strtoul16_def strtoul_of_def Let_def using sp d hex_value [of n] from_i_to_hex_not_Nil by simp
  then show "n \<le> ULONG_MAX \<Longrightarrow> strtoul16 (?h @ ?e) = Some n" by simp
qed

lemma getline_crlf: "CHR 10 \<notin> set l \<Longrightarrow> stream_getline (l @ CHR 13 # CHR 10 # rest) = Some (l @ [CHR 13, CHR 10], rest)"
  using stream_getline_line [of "l @ [CHR 13]" rest] by simp

lemma getline_hex: "stream_getline (from_i_to_hex n @ CHR 13 # CHR 10 # rest) = Some (from_i_to_hex n @ [CHR 13, CHR 10], rest)"
  using set_from_i_to_hex lower_hex_digit by (intro getline_crlf) blast

lemma chunk_loop_chunk:
  assumes "d \<noteq> []" and "length d < ULONG_MAX"
  shows "chunk_loop recv (from_i_to_hex (length d) @ [CHR 13, CHR 10]) (d @ [CHR 13, CHR 10] @ rest) append_to bd =
    read_content_chunked recv rest append_to (bd @ d)"
proof -
  have "stream_getline (CHR 13 # CHR 10 # rest) = Some ([CHR 13, CHR 10], rest)" using getline_crlf [of "[]"] by simp
  moreover have "strtoul16 (from_i_to_hex (length d) @ [CHR 13, CHR 10]) = Some (length d)" using assms(2) by (intro strtoul16_hex) simp
  ultimately show ?thesis using assms
    by (subst chunk_loop.simps) (simp add: read_with_length_app is_crlf_def read_content_chunked_def split: option.split)
qed

lemma read_chunk:
  assumes "d \<noteq> []" and "length d < ULONG_MAX"
  shows "read_content_chunked recv (chunk_text d @ rest) append_to bd = read_content_chunked recv rest append_to (bd @ d)"
proof -
  have "read_content_chunked recv (chunk_text d @ rest) append_to bd =
      chunk_loop recv (from_i_to_hex (length d) @ [CHR 13, CHR 10]) (d @ [CHR 13, CHR 10] @ rest) append_to bd"
    by (simp add: read_content_chunked_def chunk_text_def getline_hex)
  then show ?thesis by (simp only: chunk_loop_chunk [OF assms])
qed

lemma read_last_chunk: "read_content_chunked recv (''0'' @ [CHR 13, CHR 10, CHR 13, CHR 10] @ rest) append_to bd = (True, bd, rest)"
proof -
  have g: "stream_getline (CHR ''0'' # CHR 13 # CHR 10 # s) = Some (''0'' @ [CHR 13, CHR 10], s)"
    "stream_getline (CHR 13 # CHR 10 # s) = Some ([CHR 13, CHR 10], s)" for s
    using getline_crlf [of "''0''" s] getline_crlf [of "[]" s] by simp_all
  have "from_i_to_hex 0 = ''0''" by (subst from_i_to_hex_step) simp
  then have "strtoul16 (''0'' @ [CHR 13, CHR 10]) = Some 0" using strtoul16_hex [of 0] by simp
  then show ?thesis
    by (simp add: read_content_chunked_def g) (subst chunk_loop.simps, simp add: g ULONG_MAX_def is_crlf_def)
qed

lemma read_chunks:
  "\<forall>d \<in> set ds. d \<noteq> [] \<and> length d < ULONG_MAX \<Longrightarrow>
   read_content_chunked recv (concat (map chunk_text ds) @ ''0'' @ [CHR 13, CHR 10, CHR 13, CHR 10] @ rest) append_to bd =
     (True, bd @ concat ds, rest)"
proof (induction ds arbitrary: bd)
  case Nil
  then show ?case using read_last_chunk by simp
next
  case (Cons d ds)
  then show ?case by (simp add: read_chunk)
qed

text \<open>A provider that gives a content piece by piece from the offset on, and then says that it is done.\<close>

definition provides :: "string \<Rightarrow> (nat \<Rightarrow> sink_op list \<times> bool) \<Rightarrow> bool" where
  "provides c provider \<longleftrightarrow> provider (length c) = ([SinkDone], True) \<and>
     (\<forall>i < length c. \<exists>d. d \<noteq> [] \<and> prefix d (drop i c) \<and> provider i = ([SinkWrite d], True))"

lemma chunk_rounds_provides:
  assumes "provides c provider" and "i \<le> length c" and "length c - i < rounds"
  shows "\<exists>ds st. chunk_rounds rounds provider \<lparr>ck_offset = i, ck_available = True, ck_out = out\<rparr> = (True, st) \<and>
    concat ds = drop i c \<and> (\<forall>d \<in> set ds. d \<noteq> []) \<and>
    ck_out st = out @ concat (map chunk_text ds) @ ''0'' @ [CHR 13, CHR 10, CHR 13, CHR 10]"
  using assms(2,3)
proof (induction rounds arbitrary: i out)
  case (Suc rounds)
  show ?case
  proof (cases "i = length c")
    case True
    then have "provider i = ([SinkDone], True)" using assms(1) by (simp add: provides_def)
    moreover have "chunk_rounds rounds provider \<lparr>ck_offset = i, ck_available = False, ck_out = o'\<rparr> =
        (True, \<lparr>ck_offset = i, ck_available = False, ck_out = o'\<rparr>)" for o' by (cases rounds) simp_all
    ultimately show ?thesis using True by (intro exI [of _ "[]"]) simp
  next
    case False
    with Suc.prems(1) have "i < length c" by simp
    then obtain d where d: "d \<noteq> []" "prefix d (drop i c)" "provider i = ([SinkWrite d], True)"
      using assms(1) unfolding provides_def by blast
    from d(2) obtain t where t: "drop i c = d @ t" by (auto simp: prefix_def)
    then have "length c - i = length d + length t" by (metis length_append length_drop)
    with d(1) Suc.prems False have l: "i + length d \<le> length c" "length c - (i + length d) < rounds" by (cases d; simp)+
    have t': "t = drop (i + length d) c" using t by (metis add.commute append_eq_conv_conj drop_drop)
    obtain ds st where "chunk_rounds rounds provider \<lparr>ck_offset = i + length d, ck_available = True, ck_out = out @ chunk_text d\<rparr> = (True, st)"
      "concat ds = drop (i + length d) c" "\<forall>d \<in> set ds. d \<noteq> []"
      "ck_out st = (out @ chunk_text d) @ concat (map chunk_text ds) @ ''0'' @ [CHR 13, CHR 10, CHR 13, CHR 10]"
      using Suc.IH [OF l] by blast
    then show ?thesis using d t t' by (intro exI [of _ "d # ds"] exI [of _ st]) simp
  qed
qed simp

text \<open>
  A content that is sent in chunks arrives: when the server is not shut down before, the writer ends well, and a
  reader gets the content and leaves in the stream what follows it, however the provider and the network cut it.
\<close>

theorem chunked_roundtrip:
  assumes "provides c provider" and "length c < ULONG_MAX" and "length c < rounds"
  shows "\<exists>out. write_content_chunked rounds provider = (True, out) \<and>
    (\<forall>recv rest. read_content_chunked recv (out @ rest) append_to [] = (True, c, rest))"
proof -
  obtain ds st where r: "chunk_rounds rounds provider \<lparr>ck_offset = 0, ck_available = True, ck_out = []\<rparr> = (True, st)"
    and ds: "concat ds = c" "\<forall>d \<in> set ds. d \<noteq> []"
    and o: "ck_out st = concat (map chunk_text ds) @ ''0'' @ [CHR 13, CHR 10, CHR 13, CHR 10]"
    using chunk_rounds_provides [OF assms(1), of 0 rounds "[]"] assms(3) by auto
  have "length d \<le> length c" if "d \<in> set ds" for d
    using member_le_sum_list [of "length d" "map length ds"] that by (simp add: ds(1) [symmetric] length_concat)
  with assms(2) ds(2) have "\<forall>d \<in> set ds. d \<noteq> [] \<and> length d < ULONG_MAX" by fastforce
  from read_chunks [OF this, where bd = "[]"] show ?thesis by (simp add: write_content_chunked_def r o ds(1))
qed

definition two_bytes :: "string \<Rightarrow> nat \<Rightarrow> sink_op list \<times> bool" where
  "two_bytes c i = (if i < length c then [SinkWrite (take 2 (drop i c))] else [SinkDone], True)"

theorem chunked_roundtrip_witness:
  "\<exists>out. write_content_chunked 9 (two_bytes ''boost'') = (True, out) \<and>
    read_content_chunked (\<lambda>n. 1) (out @ ''GET'') append_to [] = (True, ''boost'', ''GET'')"
proof -
  have "provides ''boost'' (two_bytes ''boost'')"
    by (auto simp: provides_def two_bytes_def intro!: take_is_prefix)
  from chunked_roundtrip [OF this, of 9] show ?thesis by (auto simp: ULONG_MAX_def)
qed

text \<open>
  A chunk with more data than its length says is taken for the end of the body: the loop breaks, and as the length is
  not zero the reader succeeds, without the rest of the content.
\<close>

lemma chunk_overrun_accepted:
  assumes "d \<noteq> []" and "length d < ULONG_MAX" and "stream_getline s = Some (l, rest)" and "\<not> is_crlf l"
  shows "read_content_chunked recv (from_i_to_hex (length d) @ [CHR 13, CHR 10] @ d @ s) append_to bd = (True, bd @ d, rest)"
proof -
  have "strtoul16 (from_i_to_hex (length d) @ [CHR 13, CHR 10]) = Some (length d)" using assms(2) by (intro strtoul16_hex) simp
  then show ?thesis using assms
    by (simp add: read_content_chunked_def getline_hex) (subst chunk_loop.simps, simp add: read_with_length_app)
qed

end
