(* ===== verification/HttpMultipart.thy ===== *)
theory HttpMultipart imports HttpContent begin

text \<open>
  Multipart bodies of \<open>httplib.h\<close>: the parser of form data that the server feeds with what each read gives, and the
  body that the client writes.

  \<^item> The parser is the record of its members; \<open>off_\<close> is left out, as nothing reads it.
  \<^item> The two callbacks are functions on the state of the caller. For the server that state is the list of the files in
    the order of their arrival, the last of them the one that \<open>cur\<close> points to.
  \<^item> The regular expression for the content disposition is written out as what it matches: a name that is as short as
    possible, then the optional file name.
\<close>

section \<open>The parser\<close>

record MultipartFormData =
  mf_name :: string
  mf_content :: string
  mf_filename :: string
  mf_content_type :: string

record MultipartFormDataParser =
  mp_boundary :: string
  mp_buf :: string
  mp_state :: nat
  mp_is_valid :: bool
  mp_file :: MultipartFormData

definition no_file :: MultipartFormData where
  "no_file = \<lparr>mf_name = [], mf_content = [], mf_filename = [], mf_content_type = []\<rparr>"

definition new_parser :: "string \<Rightarrow> MultipartFormDataParser" where
  "new_parser boundary = \<lparr>mp_boundary = boundary, mp_buf = [], mp_state = 0, mp_is_valid = False, mp_file = no_file\<rparr>"

definition clear_file_info :: "MultipartFormData \<Rightarrow> MultipartFormData" where
  "clear_file_info f = f\<lparr>mf_name := [], mf_filename := [], mf_content_type := []\<rparr>"

abbreviation crlf :: string where
  "crlf \<equiv> [CHR 13, CHR 10]"

text \<open>\<open>(.*?)"\<close> and what follows: the shortest text on the line that lets the rest match.\<close>

fun lazy_quoted :: "(string \<Rightarrow> 'b option) \<Rightarrow> string \<Rightarrow> (string \<times> 'b) option" where
  "lazy_quoted k [] = None"
| "lazy_quoted k (c # cs) =
     (case if c = CHR 34 then k cs else None of
        Some r \<Rightarrow> Some ([], r)
      | None \<Rightarrow> if c = CHR 13 \<or> c = CHR 10 then None else map_option (\<lambda>(q, r). (c # q, r)) (lazy_quoted k cs))"

text \<open>A fixed text without regard to case, after white space.\<close>

definition skip_text :: "string \<Rightarrow> string \<Rightarrow> string option" where
  "skip_text pat s = (if start_with s pat then Some (drop (length pat) s) else None)"

definition only_space :: "string \<Rightarrow> unit option" where
  "only_space s = (if list_all is_space s then Some () else None)"

definition filename_part :: "string \<Rightarrow> string option" where
  "filename_part s =
     (case skip_text '';'' s of
        None \<Rightarrow> None
      | Some t \<Rightarrow>
          (case skip_text (''filename='' @ [CHR 34]) (dropWhile is_space t) of
             None \<Rightarrow> None
           | Some u \<Rightarrow> map_option fst (lazy_quoted only_space u)))"

definition disposition_end :: "string \<Rightarrow> string option" where
  "disposition_end s =
     (case filename_part s of Some f \<Rightarrow> Some f | None \<Rightarrow> (if list_all is_space s then Some [] else None))"

definition re_content_disposition :: "string \<Rightarrow> (string \<times> string) option" where
  "re_content_disposition s =
     (case skip_text ''Content-Disposition:'' s of
        None \<Rightarrow> None
      | Some t \<Rightarrow>
          (case skip_text ''form-data;'' (dropWhile is_space t) of
             None \<Rightarrow> None
           | Some u \<Rightarrow>
               (case skip_text (''name='' @ [CHR 34]) (dropWhile is_space u) of
                  None \<Rightarrow> None
                | Some v \<Rightarrow> lazy_quoted disposition_end v)))"

definition part_header :: "string \<Rightarrow> MultipartFormData \<Rightarrow> MultipartFormData" where
  "part_header header f =
     (if start_with header ''content-type:'' then f\<lparr>mf_content_type := http_trim_copy (drop 13 header)\<rparr>
      else (case re_content_disposition header of
              Some (name, filename) \<Rightarrow> f\<lparr>mf_name := name, mf_filename := filename\<rparr>
            | None \<Rightarrow> f))"

lemma find_str_shorter: "find_str s pat = Some i \<Longrightarrow> pat \<noteq> [] \<Longrightarrow> length (drop (i + k) s) < length s \<or> k = 0"
  by (cases s) (auto simp: find_str_Some)

text \<open>The lines of the headers, up to the empty one, or as far as the buffer has them.\<close>

function header_lines :: "string \<Rightarrow> MultipartFormData \<Rightarrow> bool \<times> string \<times> MultipartFormData" where
  "header_lines buf f =
     (case find_str buf crlf of
        None \<Rightarrow> (False, buf, f)
      | Some pos \<Rightarrow>
          if pos = 0 then (True, buf, f)
          else header_lines (drop (pos + 2) buf) (part_header (take pos buf) f))"
  by pat_completeness auto
termination
  by (relation "measure (\<lambda>(buf, f). length buf)") (auto dest: find_str_shorter [where k = 2])

declare header_lines.simps [simp del]

text \<open>One round of the loop of \<open>parse\<close>: \<open>Some r\<close> when it returns \<open>r\<close>.\<close>

type_synonym 'a header_receiver = "MultipartFormData \<Rightarrow> 'a \<Rightarrow> bool \<times> 'a"

definition parse_boundary_line :: "MultipartFormDataParser \<Rightarrow> bool option \<times> MultipartFormDataParser" where
  "parse_boundary_line p =
     (let pattern = ''--'' @ mp_boundary p @ crlf
      in if length pattern > length (mp_buf p) then (Some True, p)
         else if find_str (mp_buf p) pattern \<noteq> Some 0 then (Some False, p)
         else (None, p\<lparr>mp_buf := drop (length pattern) (mp_buf p), mp_state := 1\<rparr>))"

definition parse_headers ::
  "'a header_receiver \<Rightarrow> MultipartFormDataParser \<Rightarrow> 'a \<Rightarrow> bool option \<times> MultipartFormDataParser \<times> 'a" where
  "parse_headers header_callback p st =
     (let (ended, buf, f) = header_lines (mp_buf p) (mp_file p); p = p\<lparr>mp_buf := buf, mp_file := f\<rparr>
      in if \<not> ended then (Some True, p, st)
         else (case header_callback f st of
                 (False, st) \<Rightarrow> (Some False, p\<lparr>mp_is_valid := False\<rparr>, st)
               | (True, st) \<Rightarrow> (None, p\<lparr>mp_buf := drop 2 buf, mp_state := 3\<rparr>, st)))"

definition may_end :: "char \<Rightarrow> bool" where
  "may_end c \<longleftrightarrow> c = CHR 13 \<or> c = CHR 10 \<or> c = CHR ''-''"

definition parse_body ::
  "'a receiver \<Rightarrow> MultipartFormDataParser \<Rightarrow> 'a \<Rightarrow> bool option \<times> MultipartFormDataParser \<times> 'a" where
  "parse_body content_callback p st =
     (let buf = mp_buf p; dash = crlf @ ''--''; pattern = dash @ mp_boundary p
      in if length dash > length buf then (Some True, p, st)
         else
           (let pos = (case find_str buf dash of
                         Some pos \<Rightarrow> pos | None \<Rightarrow> length buf - length (takeWhile may_end (rev buf)))
            in case content_callback (take pos buf) st of
                 (False, st) \<Rightarrow> (Some False, p\<lparr>mp_is_valid := False\<rparr>, st)
               | (True, st) \<Rightarrow>
                   (let buf = drop pos buf
                    in if length pattern > length buf then (Some True, p\<lparr>mp_buf := buf\<rparr>, st)
                       else
                         (let found = find_str buf pattern;
                              pos = (case found of Some pos \<Rightarrow> pos | None \<Rightarrow> length pattern)
                          in case content_callback (take pos buf) st of
                               (False, st) \<Rightarrow> (Some False, p\<lparr>mp_buf := buf, mp_is_valid := False\<rparr>, st)
                             | (True, st) \<Rightarrow>
                                 (None,
                                  if found = None then p\<lparr>mp_buf := drop pos buf\<rparr>
                                  else p\<lparr>mp_buf := drop (pos + length pattern) buf, mp_state := 4\<rparr>, st)))))"

definition parse_boundary_end :: "MultipartFormDataParser \<Rightarrow> bool option \<times> MultipartFormDataParser" where
  "parse_boundary_end p =
     (let buf = mp_buf p
      in if length crlf > length buf then (Some True, p)
         else if take 2 buf = crlf then (None, p\<lparr>mp_buf := drop 2 buf, mp_state := 1\<rparr>)
         else if length (''--'' @ crlf) > length buf then (Some True, p)
         else if take 4 buf = ''--'' @ crlf then (None, p\<lparr>mp_buf := drop 4 buf, mp_is_valid := True, mp_state := 5\<rparr>)
         else (Some True, p))"

definition parse_round ::
  "'a receiver \<Rightarrow> 'a header_receiver \<Rightarrow> MultipartFormDataParser \<Rightarrow> 'a \<Rightarrow> bool option \<times> MultipartFormDataParser \<times> 'a" where
  "parse_round content_callback header_callback p st =
     (if mp_state p = 0 then (let (r, p) = parse_boundary_line p in (r, p, st))
      else if mp_state p = 1 then (None, p\<lparr>mp_file := clear_file_info (mp_file p), mp_state := 2\<rparr>, st)
      else if mp_state p = 2 then parse_headers header_callback p st
      else if mp_state p = 3 then parse_body content_callback p st
      else if mp_state p = 4 then (let (r, p) = parse_boundary_end p in (r, p, st))
      else (Some False, p\<lparr>mp_is_valid := False\<rparr>, st))"

text \<open>Every round shortens the buffer, or it starts a new entry.\<close>

lemma header_lines_shorter: "header_lines buf f = (ended, buf', f') \<Longrightarrow> length buf' \<le> length buf"
proof (induction buf f rule: header_lines.induct)
  case (1 buf f)
  show ?case
  proof (cases "find_str buf crlf")
    case (Some pos)
    then show ?thesis using 1 by (subst (asm) (2) header_lines.simps) (fastforce split: if_splits)
  qed (use 1 in \<open>subst (asm) (2) header_lines.simps, simp\<close>)
qed

lemma header_lines_ended: "header_lines buf f = (True, buf', f') \<Longrightarrow> buf' \<noteq> []"
proof (induction buf f rule: header_lines.induct)
  case (1 buf f)
  have "find_str [] crlf = None" by code_simp
  then show ?case
    using 1 by (cases "find_str buf crlf"; subst (asm) (2) header_lines.simps) (auto split: if_splits)
qed

definition parser_measure :: "MultipartFormDataParser \<Rightarrow> nat" where
  "parser_measure p = 2 * length (mp_buf p) + (if mp_state p = 1 then 1 else 0)"

lemma parse_round_decreases:
  assumes "parse_round content_callback header_callback p st = (None, p', st')" and "mp_buf p \<noteq> []"
  shows "parser_measure p' < parser_measure p"
proof -
  consider "mp_state p = 0" | "mp_state p = 1" | "mp_state p = 2" | "mp_state p = 3" | "mp_state p = 4" | "mp_state p > 4" by linarith
  then show ?thesis
  proof cases
    case 1
    then show ?thesis using assms by (auto simp: parse_round_def parse_boundary_line_def parser_measure_def Let_def split: if_splits)
  next
    case 3
    obtain ended buf f where h: "header_lines (mp_buf p) (mp_file p) = (ended, buf, f)" by (cases "header_lines (mp_buf p) (mp_file p)")
    obtain ok st1 where c: "header_callback f st = (ok, st1)" by fastforce
    have "ended" "p' = p\<lparr>mp_buf := drop 2 buf, mp_file := f, mp_state := 3\<rparr>"
      using assms 3 h c by (auto simp: parse_round_def parse_headers_def Let_def split: if_splits bool.splits)
    then show ?thesis using header_lines_shorter [OF h] header_lines_ended [of "mp_buf p" "mp_file p" buf f] h 3
      by (cases buf) (auto simp: parser_measure_def)
  next
    case 4
    then show ?thesis using assms
      by (auto simp: parse_round_def parse_body_def parser_measure_def Let_def split: if_splits prod.splits bool.splits)
  next
    case 5
    then show ?thesis using assms by (auto simp: parse_round_def parse_boundary_end_def parser_measure_def Let_def split: if_splits)
  qed (use assms in \<open>auto simp: parse_round_def parser_measure_def\<close>)
qed

function parse_loop ::
  "'a receiver \<Rightarrow> 'a header_receiver \<Rightarrow> MultipartFormDataParser \<Rightarrow> 'a \<Rightarrow> bool \<times> MultipartFormDataParser \<times> 'a" where
  "parse_loop content_callback header_callback p st =
     (if mp_buf p = [] then (True, p, st)
      else (case parse_round content_callback header_callback p st of
              (Some r, p, st) \<Rightarrow> (r, p, st)
            | (None, p, st) \<Rightarrow> parse_loop content_callback header_callback p st))"
  by pat_completeness auto
termination
  by (relation "measure (\<lambda>(content_callback, header_callback, p, st). parser_measure p)")
    (auto intro: parse_round_decreases [OF sym])

declare parse_loop.simps [simp del]

definition mp_parse ::
  "'a receiver \<Rightarrow> 'a header_receiver \<Rightarrow> string \<Rightarrow> MultipartFormDataParser \<Rightarrow> 'a \<Rightarrow> bool \<times> MultipartFormDataParser \<times> 'a" where
  "mp_parse content_callback header_callback buf p st =
     parse_loop content_callback header_callback (p\<lparr>mp_buf := mp_buf p @ buf\<rparr>) st"

section \<open>The files of a request, and the body that a client writes\<close>

text \<open>The callbacks of \<open>Server::read_content\<close>: \<open>req.files.emplace(file.name, file)\<close>, and appending to its content.\<close>

definition add_file :: "MultipartFormData list header_receiver" where
  "add_file f files = (True, files @ [f])"

definition add_content :: "MultipartFormData list receiver" where
  "add_content buf files = (True, butlast files @ [last files\<lparr>mf_content := mf_content (last files) @ buf\<rparr>])"

definition multipart_item :: "string \<Rightarrow> MultipartFormData \<Rightarrow> string" where
  "multipart_item boundary item =
     ''--'' @ boundary @ crlf @
     ''Content-Disposition: form-data; name='' @ [CHR 34] @ mf_name item @ [CHR 34] @
     (if mf_filename item \<noteq> [] then ''; filename='' @ [CHR 34] @ mf_filename item @ [CHR 34] else []) @ crlf @
     (if mf_content_type item \<noteq> [] then ''Content-Type: '' @ mf_content_type item @ crlf else []) @ crlf @
     mf_content item @ crlf"

definition multipart_body :: "MultipartFormData list \<Rightarrow> string \<Rightarrow> string" where
  "multipart_body items boundary = concat (map (multipart_item boundary) items) @ ''--'' @ boundary @ ''--'' @ crlf"

text \<open>\<open>ClientImpl::Post\<close> for form data: the body with its content type, if the boundary has only plain characters.\<close>

definition boundary_char :: "char \<Rightarrow> bool" where
  "boundary_char c \<longleftrightarrow> is_alnum c \<or> c = CHR ''-'' \<or> c = CHR ''_''"

definition multipart_post :: "MultipartFormData list \<Rightarrow> string \<Rightarrow> (string \<times> string) option" where
  "multipart_post items boundary =
     (if list_all boundary_char boundary
      then Some (multipart_body items boundary, ''multipart/form-data; boundary='' @ boundary) else None)"

section \<open>What the parser reads of a body that the client wrote\<close>

definition item_safe :: "string \<Rightarrow> MultipartFormData \<Rightarrow> bool" where
  "item_safe boundary item \<longleftrightarrow>
     set (mf_name item) \<inter> {CHR 34, CHR 13, CHR 10} = {} \<and> set (mf_filename item) \<inter> {CHR 34, CHR 13, CHR 10} = {} \<and>
     CHR 13 \<notin> set (mf_content_type item) \<and>
     (mf_content_type item \<noteq> [] \<longrightarrow>
       \<not> is_space_or_tab (hd (mf_content_type item)) \<and> \<not> is_space_or_tab (last (mf_content_type item))) \<and>
     \<not> sublist (crlf @ ''--'' @ boundary) (mf_content item)"

lemma find_str_first:
  assumes "CHR 13 \<notin> set pat" and "\<not> sublist (CHR 13 # pat) s"
  shows "find_str (s @ CHR 13 # pat @ t) (CHR 13 # pat) = Some (length s)"
proof -
  let ?p = "CHR 13 # pat"
  have "\<not> prefix ?p (drop j (s @ ?p @ t))" if "j < length s" for j
  proof
    assume pre: "prefix ?p (drop j (s @ ?p @ t))"
    show False
    proof (cases "j + length ?p \<le> length s")
      case True
      moreover have "prefix ?p (drop j s @ ?p @ t)" using pre that by simp
      ultimately have "prefix ?p (drop j s)" by (intro prefix_length_prefix [of ?p _ "drop j s"]) auto
      then show False using assms(2) by (meson prefix_imp_sublist sublist_drop sublist_order.order.trans)
    next
      case False
      let ?m = "length s - j"
      have m: "?m < length ?p" "?m = Suc (?m - 1)" using False that by auto
      then have k: "?m - 1 < length pat" by simp
      have "prefix ?p (drop j s @ ?p @ t)" using pre that by simp
      then have "?p ! ?m = (drop j s @ ?p @ t) ! ?m" using m(1) by (metis nth_append prefixE)
      also have "\<dots> = CHR 13" by (simp add: nth_append)
      finally have "pat ! (?m - 1) = CHR 13" using m(2) by (metis nth_Cons_Suc)
      then show False using assms(1) k nth_mem by metis
    qed
  qed
  then show ?thesis by (simp add: find_str_Some)
qed

lemma find_crlf: "CHR 13 \<notin> set l \<Longrightarrow> find_str (l @ CHR 13 # CHR 10 # t) crlf = Some (length l)"
proof -
  assume l: "CHR 13 \<notin> set l"
  then have "\<not> sublist crlf l" by (auto simp: sublist_def)
  with find_str_first [of "[CHR 10]" l t] show ?thesis by simp
qed

lemma header_lines_line:
  "l \<noteq> [] \<Longrightarrow> CHR 13 \<notin> set l \<Longrightarrow> header_lines (l @ CHR 13 # CHR 10 # t) f = header_lines t (part_header l f)"
  by (subst header_lines.simps) (simp add: find_crlf)

lemma header_lines_end: "header_lines (CHR 13 # CHR 10 # t) f = (True, CHR 13 # CHR 10 # t, f)"
  using find_crlf [of "[]" t] by (subst header_lines.simps) simp

lemma skip_text_append: "skip_text pat (pat @ s) = Some s"
  by (simp add: skip_text_def start_with_def list_all2_refl)

lemma lazy_quoted_first:
  "set q \<inter> {CHR 34, CHR 13, CHR 10} = {} \<Longrightarrow> k t = Some r \<Longrightarrow> lazy_quoted k (q @ CHR 34 # t) = Some (q, r)"
  by (induction q) auto

lemma disposition_end_none: "disposition_end [] = Some []"
  by code_simp

lemma skip_space: "\<not> is_space (hd t) \<Longrightarrow> t \<noteq> [] \<Longrightarrow> dropWhile is_space (CHR '' '' # t) = t"
proof -
  assume t: "\<not> is_space (hd t)" "t \<noteq> []"
  have "is_space (CHR '' '')" by code_simp
  with t show ?thesis by (cases t) simp_all
qed

lemma disposition_end_filename:
  "set q \<inter> {CHR 34, CHR 13, CHR 10} = {} \<Longrightarrow> disposition_end (''; filename='' @ [CHR 34] @ q @ [CHR 34]) = Some q"
proof -
  assume q: "set q \<inter> {CHR 34, CHR 13, CHR 10} = {}"
  let ?t = "(''filename='' @ [CHR 34]) @ q @ [CHR 34]"
  have s: "skip_text '';'' ('';'' @ CHR '' '' # ?t) = Some (CHR '' '' # ?t)" by (rule skip_text_append)
  have "\<not> is_space (CHR ''f'')" by code_simp
  then have "dropWhile is_space (CHR '' '' # ?t) = ?t" using skip_space [of ?t] by simp
  moreover have "lazy_quoted only_space (q @ [CHR 34]) = Some (q, ())"
    using q by (intro lazy_quoted_first) (simp_all add: only_space_def)
  ultimately have "filename_part ('';'' @ CHR '' '' # ?t) = Some q"
    unfolding filename_part_def s by (simp only: option.case skip_text_append) simp
  then show ?thesis by (simp add: disposition_end_def)
qed

text \<open>The headers of an item, read line by line.\<close>

definition disposition_line :: "MultipartFormData \<Rightarrow> string" where
  "disposition_line item =
     ''Content-Disposition: form-data; name='' @ [CHR 34] @ mf_name item @ [CHR 34] @
     (if mf_filename item \<noteq> [] then ''; filename='' @ [CHR 34] @ mf_filename item @ [CHR 34] else [])"

lemma disposition_line_not_Nil: "disposition_line item \<noteq> []"
  by (simp add: disposition_line_def)

definition type_lines :: "MultipartFormData \<Rightarrow> string" where
  "type_lines item = (if mf_content_type item \<noteq> [] then ''Content-Type: '' @ mf_content_type item @ crlf else [])"

lemma re_disposition_line:
  assumes "item_safe boundary item"
  shows "re_content_disposition (disposition_line item) = Some (mf_name item, mf_filename item)"
proof -
  let ?e = "if mf_filename item \<noteq> [] then ''; filename='' @ [CHR 34] @ mf_filename item @ [CHR 34] else []"
  let ?v = "mf_name item @ CHR 34 # ?e"
  let ?u = "(''name='' @ [CHR 34]) @ ?v" and ?t = "''form-data;'' @ CHR '' '' # (''name='' @ [CHR 34]) @ ?v"
  have q: "set (mf_name item) \<inter> {CHR 34, CHR 13, CHR 10} = {}" "set (mf_filename item) \<inter> {CHR 34, CHR 13, CHR 10} = {}"
    using assms by (simp_all add: item_safe_def)
  have "disposition_end ?e = Some (mf_filename item)" using disposition_end_filename [OF q(2)] disposition_end_none by auto
  then have l: "lazy_quoted disposition_end ?v = Some (mf_name item, mf_filename item)" by (rule lazy_quoted_first [OF q(1)])
  have sp: "\<not> is_space (CHR ''f'')" "\<not> is_space (CHR ''n'')" by code_simp+
  have d: "dropWhile is_space (CHR '' '' # ?t) = ?t" "dropWhile is_space (CHR '' '' # ?u) = ?u"
    using skip_space [of ?t] skip_space [of ?u] sp by simp_all
  have "disposition_line item = ''Content-Disposition:'' @ CHR '' '' # ?t" by (simp add: disposition_line_def)
  then have "skip_text ''Content-Disposition:'' (disposition_line item) = Some (CHR '' '' # ?t)" by (simp only: skip_text_append)
  then show ?thesis unfolding re_content_disposition_def by (simp only: option.case d skip_text_append l)
qed

lemma part_header_disposition:
  assumes "item_safe boundary item"
  shows "part_header (disposition_line item) f = f\<lparr>mf_name := mf_name item, mf_filename := mf_filename item\<rparr>"
proof -
  have "tolower (CHR ''D'') \<noteq> tolower (CHR ''t'')" by code_simp
  then have "\<not> start_with (disposition_line item) ''content-type:''" by (simp add: start_with_def disposition_line_def)
  then show ?thesis by (simp add: part_header_def re_disposition_line [OF assms])
qed

lemma part_header_type:
  assumes "item_safe boundary item" and "mf_content_type item \<noteq> []"
  shows "part_header (''Content-Type: '' @ mf_content_type item) f = f\<lparr>mf_content_type := mf_content_type item\<rparr>"
proof -
  have "map tolower ''Content-Type:'' = map tolower ''content-type:''" by code_simp
  then have "start_with (''Content-Type: '' @ mf_content_type item) ''content-type:''"
    by (simp add: start_with_def)
  then show ?thesis using assms by (simp add: part_header_def item_safe_def http_trim_copy_space)
qed

lemma header_lines_item:
  assumes "item_safe boundary item"
  shows "header_lines (disposition_line item @ crlf @ type_lines item @ crlf @ t) (clear_file_info f) =
    (True, crlf @ t, item\<lparr>mf_content := mf_content f\<rparr>)"
proof -
  let ?f = "(clear_file_info f)\<lparr>mf_name := mf_name item, mf_filename := mf_filename item\<rparr>"
  have "CHR 13 \<notin> set (disposition_line item)" using assms by (auto simp: disposition_line_def item_safe_def)
  then have "header_lines (disposition_line item @ crlf @ type_lines item @ crlf @ t) (clear_file_info f) =
      header_lines (type_lines item @ crlf @ t) ?f"
    using header_lines_line [of "disposition_line item" "type_lines item @ crlf @ t"] disposition_line_not_Nil [of item]
    by (simp add: part_header_disposition [OF assms])
  also have "\<dots> = header_lines (crlf @ t) (?f\<lparr>mf_content_type := mf_content_type item\<rparr>)"
  proof (cases "mf_content_type item = []")
    case True
    then show ?thesis by (cases f) (simp add: type_lines_def clear_file_info_def)
  next
    case False
    have "CHR 13 \<notin> set (''Content-Type: '' @ mf_content_type item)" using assms by (simp add: item_safe_def)
    with False show ?thesis using header_lines_line [of "''Content-Type: '' @ mf_content_type item" "crlf @ t" ?f]
      part_header_type [OF assms False, of ?f] by (simp add: type_lines_def)
  qed
  finally show ?thesis by (simp add: header_lines_end clear_file_info_def)
qed

text \<open>The loop over a body in one piece.\<close>

abbreviation parse_files :: "MultipartFormDataParser \<Rightarrow> MultipartFormData list \<Rightarrow> bool \<times> MultipartFormDataParser \<times> MultipartFormData list" where
  "parse_files \<equiv> parse_loop add_content add_file"

lemma parse_files_step:
  "mp_buf p \<noteq> [] \<Longrightarrow> parse_round add_content add_file p files = (None, p', files') \<Longrightarrow> parse_files p files = parse_files p' files'"
  by (subst parse_loop.simps) simp

definition parser_at :: "string \<Rightarrow> nat \<Rightarrow> string \<Rightarrow> MultipartFormData \<Rightarrow> MultipartFormDataParser" where
  "parser_at boundary state buf f =
     \<lparr>mp_boundary = boundary, mp_buf = buf, mp_state = state, mp_is_valid = False, mp_file = f\<rparr>"

lemma parse_files_new_entry: "buf \<noteq> [] \<Longrightarrow> parse_files (parser_at b 1 buf f) files = parse_files (parser_at b 2 buf (clear_file_info f)) files"
  by (rule parse_files_step) (simp_all add: parse_round_def parser_at_def)

lemma parse_files_headers:
  assumes "item_safe b item" and "mf_content f = []"
  shows "parse_files (parser_at b 2 (disposition_line item @ crlf @ type_lines item @ crlf @ t) (clear_file_info f)) files =
    parse_files (parser_at b 3 t (item\<lparr>mf_content := []\<rparr>)) (files @ [item\<lparr>mf_content := []\<rparr>])"
  using header_lines_item [OF assms(1), of t f] assms(2)
  by (intro parse_files_step) (simp_all add: parse_round_def parser_at_def parse_headers_def add_file_def disposition_line_def)

lemma parse_files_body:
  assumes "item_safe b item" and "CHR 13 \<notin> set b"
  shows "parse_files (parser_at b 3 (mf_content item @ crlf @ ''--'' @ b @ t) f) (files @ [item\<lparr>mf_content := []\<rparr>]) =
    parse_files (parser_at b 4 t f) (files @ [item])"
proof (rule parse_files_step)
  let ?c = "mf_content item" and ?d = "CHR 13 # CHR 10 # ''--''" and ?rest = "crlf @ ''--'' @ b @ t"
  let ?pat = "CHR 13 # CHR 10 # ''--'' @ b"
  have "\<not> sublist ?pat ?c" using assms(1) by (simp add: item_safe_def)
  obtain i where i: "find_str (?c @ ?rest) ?d = Some i"
  proof -
    have "sublist ?d (?c @ ?rest)" by (auto simp: sublist_def)
    then show thesis using that find_str_None [of "?c @ ?rest" ?d] by (cases "find_str (?c @ ?rest) ?d") auto
  qed
  have "i \<le> length ?c"
  proof (rule ccontr)
    assume "\<not> i \<le> length ?c"
    then have "\<not> prefix ?d (drop (length ?c) (?c @ ?rest))" using i unfolding find_str_Some not_le by blast
    then show False by simp
  qed
  have "\<not> sublist ?pat (drop i ?c)" using \<open>\<not> sublist ?pat ?c\<close> by (meson sublist_drop sublist_order.order.trans)
  then have f: "find_str (drop i ?c @ ?pat @ t) ?pat = Some (length (drop i ?c))"
    using assms(2) find_str_first [of "CHR 10 # ''--'' @ b" "drop i ?c" t] by simp
  have d: "drop (4 + length b) (CHR 13 # CHR 10 # CHR ''-'' # CHR ''-'' # b @ t) = t" by (simp add: numeral_eq_Suc)
  have l: "\<not> length ?c + (length b + length t) - i < length b" using \<open>i \<le> length ?c\<close> by linarith
  show "parse_round add_content add_file (parser_at b 3 (?c @ ?rest) f) (files @ [item\<lparr>mf_content := []\<rparr>]) =
      (None, parser_at b 4 t f, files @ [item])"
    using i f \<open>i \<le> length ?c\<close> d l
    by (simp add: parse_round_def parse_body_def parser_at_def add_content_def Let_def)
qed (simp add: parser_at_def)

text \<open>What follows the first two dashes and the boundary.\<close>

fun after_boundary :: "string \<Rightarrow> MultipartFormData list \<Rightarrow> string" where
  "after_boundary b [] = ''--'' @ crlf"
| "after_boundary b (item # items) =
     crlf @ disposition_line item @ crlf @ type_lines item @ crlf @ mf_content item @ crlf @ ''--'' @ b @ after_boundary b items"

lemma multipart_body_eq: "multipart_body items b = ''--'' @ b @ after_boundary b items"
proof (induction items)
  case (Cons item items)
  have "multipart_body (item # items) b = multipart_item b item @ multipart_body items b" by (simp add: multipart_body_def)
  also have "\<dots> = ''--'' @ b @ crlf @ disposition_line item @ crlf @ type_lines item @ crlf @ mf_content item @ crlf @
      ''--'' @ b @ after_boundary b items"
    unfolding Cons multipart_item_def disposition_line_def type_lines_def by simp
  finally show ?case by simp
qed (simp add: multipart_body_def)

lemma parse_files_items:
  assumes "\<forall>item \<in> set items. item_safe b item" and "CHR 13 \<notin> set b" and "mf_content f = []"
  shows "\<exists>f'. parse_files (parser_at b 4 (after_boundary b items) f) files =
    (True, (parser_at b 5 [] f')\<lparr>mp_is_valid := True\<rparr>, files @ items)"
  using assms(1,3)
proof (induction items arbitrary: f files)
  case Nil
  have "parse_files (parser_at b 4 (''--'' @ crlf) f) files = parse_files ((parser_at b 5 [] f)\<lparr>mp_is_valid := True\<rparr>) files"
    by (rule parse_files_step) (simp_all add: parse_round_def parse_boundary_end_def parser_at_def Let_def)
  also have "\<dots> = (True, (parser_at b 5 [] f)\<lparr>mp_is_valid := True\<rparr>, files)"
    by (subst parse_loop.simps) (simp add: parser_at_def)
  finally show ?case by auto
next
  case (Cons item items)
  let ?t = "mf_content item @ crlf @ ''--'' @ b @ after_boundary b items" and ?f = "item\<lparr>mf_content := []\<rparr>"
  let ?s = "disposition_line item @ crlf @ type_lines item @ crlf @ ?t"
  have i: "item_safe b item" using Cons.prems by simp
  have "parse_files (parser_at b 4 (crlf @ ?s) f) files = parse_files (parser_at b 1 ?s f) files"
    by (rule parse_files_step) (simp_all add: parse_round_def parse_boundary_end_def parser_at_def Let_def)
  also have "\<dots> = parse_files (parser_at b 2 ?s (clear_file_info f)) files"
    by (rule parse_files_new_entry) (simp add: disposition_line_not_Nil)
  also have "\<dots> = parse_files (parser_at b 3 ?t ?f) (files @ [?f])"
    by (rule parse_files_headers [OF i Cons.prems(2)])
  also have "\<dots> = parse_files (parser_at b 4 (after_boundary b items) ?f) (files @ [item])"
    by (rule parse_files_body [OF i assms(2)])
  finally show ?case using Cons.IH [of ?f "files @ [item]"] Cons.prems(1) by simp
qed

lemma parse_whole_body:
  assumes "items \<noteq> []" and "\<forall>item \<in> set items. item_safe b item" and "CHR 13 \<notin> set b"
  shows "\<exists>p. mp_parse add_content add_file (multipart_body items b) (new_parser b) [] = (True, p, items) \<and> mp_is_valid p"
proof -
  obtain item rest where items: "items = item # rest" using assms(1) by (cases items) auto
  let ?t = "disposition_line item @ crlf @ type_lines item @ crlf @ mf_content item @ crlf @ ''--'' @ b @ after_boundary b rest"
  let ?p = "parser_at b 0 (multipart_body items b) no_file"
  have m: "multipart_body items b = ''--'' @ b @ crlf @ ?t" by (simp add: multipart_body_eq items)
  have "parse_files ?p [] = parse_files (parser_at b 1 ?t no_file) []"
  proof (rule parse_files_step)
    have "find_str (''--'' @ b @ crlf @ ?t) (''--'' @ b @ crlf) = Some 0" by (simp add: find_str_Some)
    then show "parse_round add_content add_file ?p [] = (None, parser_at b 1 ?t no_file, [])"
      unfolding m by (simp add: parse_round_def parse_boundary_line_def parser_at_def Let_def)
  qed (simp add: m parser_at_def)
  also have "\<dots> = parse_files (parser_at b 4 (after_boundary b items) no_file) []"
    by (rule parse_files_step [symmetric])
      (simp_all add: parse_round_def parse_boundary_end_def parser_at_def Let_def items)
  finally show ?thesis
    using parse_files_items [OF assms(2,3), of no_file "[]"]
    by (auto simp: mp_parse_def new_parser_def parser_at_def no_file_def)
qed

text \<open>
  The form that a client posts gives the server back its boundary from the content type and its fields from the body,
  in their order, with names, file names, types and contents, when the body is read in one piece.
\<close>

theorem multipart_roundtrip:
  assumes "multipart_post items b = Some (text, content_type)" and "items \<noteq> []" and "b \<noteq> []"
    and "\<forall>item \<in> set items. item_safe b item"
  shows "parse_multipart_boundary content_type = Some b \<and>
    (\<exists>p. mp_parse add_content add_file text (new_parser b) [] = (True, p, items) \<and> mp_is_valid p)"
proof -
  have b: "list_all boundary_char b" "text = multipart_body items b" "content_type = ''multipart/form-data; boundary='' @ b"
    using assms(1) by (auto simp: multipart_post_def split: if_splits)
  have n: "\<not> boundary_char (CHR 13)" "\<not> boundary_char (CHR 34)" by code_simp+
  then have "CHR 13 \<notin> set b" "hd b \<noteq> CHR 34" using b(1) hd_in_set [OF assms(3)] unfolding list_all_iff by metis+
  moreover have "find_str content_type ''boundary='' = Some 21" by (simp add: b(3) find_str_def)
  ultimately show ?thesis using parse_whole_body [OF assms(2,4)] assms(3) b by (simp add: parse_multipart_boundary_def)
qed

definition sample_items :: "MultipartFormData list" where
  "sample_items = [\<lparr>mf_name = ''a'', mf_content = ''x--'' @ crlf @ ''--y'', mf_filename = ''f.txt'', mf_content_type = ''text/plain''\<rparr>,
     \<lparr>mf_name = ''b'', mf_content = [], mf_filename = [], mf_content_type = []\<rparr>]"

theorem multipart_roundtrip_witness:
  "\<exists>text content_type. multipart_post sample_items ''q1'' = Some (text, content_type) \<and> parse_multipart_boundary content_type = Some ''q1'' \<and>
    (\<exists>p. mp_parse add_content add_file text (new_parser ''q1'') [] = (True, p, sample_items) \<and> mp_is_valid p)"
proof -
  have "item_safe ''q1'' item" if "item \<in> set sample_items" for item
    using that by (auto simp: sample_items_def item_safe_def is_space_or_tab_def sublist_def append_eq_Cons_conv Cons_eq_append_conv)
  moreover have "list_all boundary_char ''q1''" by code_simp
  then have "multipart_post sample_items ''q1'' = Some (multipart_body sample_items ''q1'', ''multipart/form-data; boundary=q1'')"
    by (simp add: multipart_post_def)
  ultimately show ?thesis using multipart_roundtrip [of sample_items "''q1''"] by (simp add: sample_items_def)
qed

text \<open>
  In more pieces it can be lost: when the content has a line break with two dashes shortly before the boundary, and a read
  ends inside the boundary, the parser gives the start of the boundary to the content and never finds the end of the form.
\<close>

lemma multipart_cut_loses_form:
  "let body = multipart_body [\<lparr>mf_name = ''a'', mf_content = crlf @ ''--'', mf_filename = [], mf_content_type = []\<rparr>] ''q'';
       (r1, p, files) = mp_parse add_content add_file (take 57 body) (new_parser ''q'') [];
       (r2, p, files) = mp_parse add_content add_file (drop 57 body) p files
   in length body = 62 \<and> r1 \<and> r2 \<and> \<not> mp_is_valid p"
  by code_simp

end
