(* ===== verification/HttpConnection.thy ===== *)
theory HttpConnection imports HttpRouting HttpRanges HttpMultipart begin

text \<open>
  A connection of \<open>httplib::Server\<close>: reading a request with its body, routing it, writing the response, and the loop
  over the requests that come on one connection.

  \<^item> The input is the bytes that the peer sends until it closes its side; what is written is the text of the answer.
    Writing succeeds.
  \<^item> The record of the environment has what is not in these bytes: how the network cuts them, the address of the peer,
    the numbers of the random engine, and whether the peer keeps quiet for too long.
  \<^item> The server has handlers for GET alone, and no error handler, logger or handler of Expect, as that of the program;
    the tables of the other methods are empty.
\<close>

section \<open>Reading a request\<close>

record http_env =
  he_recv :: "nat \<Rightarrow> nat"
  he_payload_max :: nat
  he_fd_too_big :: bool
  he_remote_addr :: string
  he_remote_port :: nat
  he_engine :: "nat \<Rightarrow> nat"
  he_keep_alive_max :: nat
  he_keep_alive_timeout :: nat
  he_alive :: "nat \<Rightarrow> bool"

record server_request =
  sr_req :: Request
  sr_body :: string
  sr_files :: "MultipartFormData list"
  sr_ranges :: "range list"

definition header_of :: "server_request \<Rightarrow> string \<Rightarrow> string" where
  "header_of q key = Request_get_header_value (sr_req q) key"

definition is_multipart_form_data :: "server_request \<Rightarrow> bool" where
  "is_multipart_form_data q \<longleftrightarrow> find_str (header_of q ''Content-Type'') ''multipart/form-data'' = Some 0"

text \<open>The receiver that feeds the parser of form data.\<close>

definition feed_parser :: "(MultipartFormDataParser \<times> MultipartFormData list) receiver" where
  "feed_parser buf st =
     (let (r, p, files) = mp_parse add_content add_file buf (fst st) (snd st) in (r, p, files))"

definition read_content_core ::
  "http_env \<Rightarrow> server_request \<Rightarrow> Response \<Rightarrow> string \<Rightarrow> bool \<times> server_request \<times> Response \<times> string" where
  "read_content_core he q res s =
     (let req = sr_req q; no_content = (req_method req = ''DELETE'' \<and> \<not> Request_has_header req ''Content-Length'')
      in if is_multipart_form_data q then
           (case parse_multipart_boundary (header_of q ''Content-Type'') of
              None \<Rightarrow> (False, q, res\<lparr>status := 400\<rparr>, s)
            | Some bnd \<Rightarrow>
                if no_content then (True, q, res, s)
                else (let (ok, stat, (p, files), s) =
                        read_content (he_recv he) (he_payload_max he) (req_headers req) s feed_parser (status res)
                          (new_parser bnd, sr_files q);
                          q = q\<lparr>sr_files := files\<rparr>; res = res\<lparr>status := stat\<rparr>
                      in if ok \<and> \<not> mp_is_valid p then (False, q, res\<lparr>status := 400\<rparr>, s) else (ok, q, res, s)))
         else if no_content then (True, q, res, s)
         else (let (ok, stat, bd, s) =
                 read_content (he_recv he) (he_payload_max he) (req_headers req) s append_to (status res) (sr_body q)
               in (ok, q\<lparr>sr_body := bd\<rparr>, res\<lparr>status := stat\<rparr>, s)))"

definition Server_read_content ::
  "http_env \<Rightarrow> server_request \<Rightarrow> Response \<Rightarrow> string \<Rightarrow> bool \<times> server_request \<times> Response \<times> string" where
  "Server_read_content he q res s =
     (case read_content_core he q res s of
        (False, q, res, s) \<Rightarrow> (False, q, res, s)
      | (True, q, res, s) \<Rightarrow>
          (True,
           if find_str (header_of q ''Content-Type'') ''application/x-www-form-urlencoded'' = Some 0
           then q\<lparr>sr_req := (sr_req q)\<lparr>params := parse_query_text (sr_body q) (params (sr_req q))\<rparr>\<rparr> else q,
           res, s))"

definition routing ::
  "http_env \<Rightarrow> filesystem \<Rightarrow> Server \<Rightarrow> server_request \<Rightarrow> Response \<Rightarrow> string \<Rightarrow>
     fault + bool \<times> server_request \<times> Response \<times> string" where
  "routing he fs svr q res s =
     (let req = sr_req q
      in if req_method req = ''GET'' \<or> req_method req = ''HEAD'' then
           (case routing_get fs svr req res of Inl e \<Rightarrow> Inl e | Inr (ok, res) \<Rightarrow> Inr (ok, q, res, s))
         else
           (let (ok, q, res, s) = (if expect_content req then Server_read_content he q res s else (True, q, res, s))
            in if \<not> ok \<or> req_method req \<in> {''POST'', ''PUT'', ''DELETE'', ''OPTIONS'', ''PATCH''} then Inr (False, q, res, s)
               else Inr (False, q, res\<lparr>status := 400\<rparr>, s)))"

section \<open>Writing a response\<close>

definition status_line :: "int \<Rightarrow> string" where
  "status_line stat = ''HTTP/1.1 '' @ decimal (nat stat) @ '' '' @ status_message stat @ crlf"

definition write_response_core :: "http_env \<Rightarrow> bool \<Rightarrow> server_request \<Rightarrow> Response \<Rightarrow> bool \<Rightarrow> string" where
  "write_response_core he close_connection q res need_apply_ranges =
     (let res = (if need_apply_ranges then apply_ranges (sr_ranges q) (make_multipart_data_boundary (he_engine he)) res else res);
          res = (if close_connection \<or> header_of q ''Connection'' = ''close'' then set_header res ''Connection'' ''close''
                 else set_header res ''Keep-Alive''
                   (''timeout='' @ decimal (he_keep_alive_timeout he) @ '', max='' @ decimal (he_keep_alive_max he)));
          res = (if \<not> has_header res ''Content-Type'' \<and> body res \<noteq> [] then set_header res ''Content-Type'' ''text/plain'' else res);
          res = (if \<not> has_header res ''Content-Length'' \<and> body res = [] then set_header res ''Content-Length'' ''0'' else res);
          res = (if \<not> has_header res ''Accept-Ranges'' \<and> req_method (sr_req q) = ''HEAD'' then set_header res ''Accept-Ranges'' ''bytes'' else res)
      in status_line (status res) @ write_headers (headers res) @
         (if req_method (sr_req q) \<noteq> ''HEAD'' then body res else []))"

definition write_response :: "http_env \<Rightarrow> bool \<Rightarrow> server_request \<Rightarrow> Response \<Rightarrow> string" where
  "write_response he close_connection q res = write_response_core he close_connection q res False"

definition write_response_with_content :: "http_env \<Rightarrow> bool \<Rightarrow> server_request \<Rightarrow> Response \<Rightarrow> string" where
  "write_response_with_content he close_connection q res = write_response_core he close_connection q res True"

section \<open>A request and its answer\<close>

definition REQUEST_URI_MAX_LENGTH :: nat where "REQUEST_URI_MAX_LENGTH = 8192"

definition new_server_request :: server_request where
  "new_server_request = \<lparr>sr_req = new_Request, sr_body = [], sr_files = [], sr_ranges = []\<rparr>"

text \<open>The end of \<open>process_request\<close>, once the head of the request is read: what is written, and the rest of the input.\<close>

definition answer_request ::
  "http_env \<Rightarrow> filesystem \<Rightarrow> Server \<Rightarrow> bool \<Rightarrow> server_request \<Rightarrow> string \<Rightarrow> fault + string \<times> string" where
  "answer_request he fs svr close_connection q s =
     (let continue = (if header_of q ''Expect'' = ''100-continue'' then ''HTTP/1.1 100 '' @ status_message 100 @ crlf @ crlf else [])
      in case routing he fs svr q new_Response s of
           Inl e \<Rightarrow> Inl e
         | Inr (True, q, res, s) \<Rightarrow>
             (let res = (if status res = -1 then res\<lparr>status := (if sr_ranges q = [] then 200 else 206)\<rparr> else res)
              in Inr (continue @ write_response_with_content he close_connection q res, s))
         | Inr (False, q, res, s) \<Rightarrow>
             (let res = (if status res = -1 then res\<lparr>status := 404\<rparr> else res)
              in Inr (continue @ write_response he close_connection q res, s)))"

definition remote_headers :: "http_env \<Rightarrow> Request \<Rightarrow> Request" where
  "remote_headers he req =
     Request_set_header (Request_set_header req ''REMOTE_ADDR'' (he_remote_addr he)) ''REMOTE_PORT'' (decimal (he_remote_port he))"

text \<open>
  \<open>process_request\<close>: whether it succeeded, whether the connection is to be closes, the text that is written, and the
  rest of the input.
\<close>

definition process_request ::
  "http_env \<Rightarrow> filesystem \<Rightarrow> Server \<Rightarrow> bool \<Rightarrow> string \<Rightarrow> fault + bool \<times> bool \<times> string \<times> string" where
  "process_request he fs svr close_connection s =
     (let fail = (\<lambda>q stat. write_response he close_connection q (new_Response\<lparr>status := stat\<rparr>))
      in case stream_getline s of
           None \<Rightarrow> Inr (False, False, [], [])
         | Some (line, s) \<Rightarrow>
             if he_fd_too_big he then Inr (True, False, fail new_server_request 500, snd (snd (read_headers s [])))
             else if length line > REQUEST_URI_MAX_LENGTH
               then Inr (True, False, fail new_server_request 414, snd (snd (read_headers s [])))
             else (case parse_request_line line new_Request of
                     None \<Rightarrow> Inr (True, False, fail new_server_request 400, s)
                   | Some req \<Rightarrow>
                       (let (ok, hs, s) = read_headers s (req_headers req);
                            q = new_server_request\<lparr>sr_req := req\<lparr>req_headers := hs\<rparr>\<rparr>;
                            connection = header_of q ''Connection'';
                            closes = (connection = ''close'' \<or> version req = ''HTTP/1.0'' \<and> connection \<noteq> ''Keep-Alive'');
                            q' = q\<lparr>sr_req := remote_headers he (sr_req q)\<rparr>;
                            ranges = (if Request_has_header (sr_req q') ''Range''
                                      then parse_range_header (header_of q' ''Range'') [] else Some [])
                        in if \<not> ok then Inr (True, False, fail q 400, s)
                           else (case ranges of
                                   None \<Rightarrow> Inr (True, closes, fail q' 416, s)
                                 | Some rs \<Rightarrow>
                                     (case answer_request he fs svr close_connection (q'\<lparr>sr_ranges := rs\<rparr>) s of
                                        Inl e \<Rightarrow> Inl e
                                      | Inr (out, s) \<Rightarrow> Inr (True, closes, out, s))))))"

section \<open>The connection\<close>

text \<open>\<open>process_server_socket_core\<close>: the loop with its count, and the texts that it writes.\<close>

fun server_loop ::
  "http_env \<Rightarrow> filesystem \<Rightarrow> Server \<Rightarrow> nat \<Rightarrow> bool \<Rightarrow> string \<Rightarrow> fault + bool \<times> string list \<times> string" where
  "server_loop he fs svr 0 ret s = Inr (ret, [], s)"
| "server_loop he fs svr (Suc n) ret s =
     (if \<not> he_alive he (Suc n) then Inr (ret, [], s)
      else (case process_request he fs svr (Suc n = 1) s of
              Inl e \<Rightarrow> Inl e
            | Inr (ret, closes, out, s) \<Rightarrow>
                if \<not> ret \<or> closes then Inr (ret, [out], s)
                else (case server_loop he fs svr n ret s of
                        Inl e \<Rightarrow> Inl e
                      | Inr (ret, outs, s) \<Rightarrow> Inr (ret, out # outs, s))))"

text \<open>\<open>None\<close> is the failed assertion on the count.\<close>

definition process_and_close_socket ::
  "http_env \<Rightarrow> filesystem \<Rightarrow> Server \<Rightarrow> string \<Rightarrow> (fault + bool \<times> string list \<times> string) option" where
  "process_and_close_socket he fs svr s =
     (if he_keep_alive_max he > 0 then Some (server_loop he fs svr (he_keep_alive_max he) False s) else None)"

section \<open>Lines that are no request\<close>

text \<open>The answer to a line that is not parsed.\<close>

definition bad_answer :: "http_env \<Rightarrow> bool \<Rightarrow> string" where
  "bad_answer he close_connection = write_response he close_connection new_server_request (new_Response\<lparr>status := 400\<rparr>)"

definition bad_line :: "string \<Rightarrow> bool" where
  "bad_line l \<longleftrightarrow> NL \<notin> set l \<and> length l < REQUEST_URI_MAX_LENGTH \<and> parse_request_line (l @ [NL]) new_Request = None"

lemma process_bad_line:
  assumes "bad_line l" and "\<not> he_fd_too_big he"
  shows "process_request he fs svr c (l @ NL # s) = Inr (True, False, bad_answer he c, s)"
  using assms by (simp add: process_request_def bad_line_def bad_answer_def stream_getline_line)


definition sample_http :: http_env where
  "sample_http = \<lparr>he_recv = (\<lambda>n. 1000), he_payload_max = 1000, he_fd_too_big = False, he_remote_addr = ''::1'',
     he_remote_port = 80, he_engine = (\<lambda>i. i), he_keep_alive_max = 5, he_keep_alive_timeout = 5, he_alive = (\<lambda>n. True)\<rparr>"


section \<open>Requests with GET\<close>

type_synonym get_request = "string \<times> multimap \<times> multimap"

text \<open>The request line and the text that a client sends for a path, parameters and headers.\<close>

definition get_line :: "get_request \<Rightarrow> string" where
  "get_line = (\<lambda>(p, ps, hs). ''GET '' @ p @ ''?'' @ params_to_query_str ps @ '' '' @ ''HTTP/1.1'' @ crlf)"

definition get_text :: "get_request \<Rightarrow> string" where
  "get_text g = get_line g @ write_headers (snd (snd g))"

definition get_wf :: "get_request \<Rightarrow> bool" where
  "get_wf = (\<lambda>(p, ps, hs). set p \<inter> {CHR ''?'', CHR ''%'', CHR 0x00, NL} = {} \<and> p \<noteq> [] \<and>
     (\<forall>x \<in> set ps. query_safe x \<and> set (fst x) \<inter> {CHR 13, CHR 10, CHR 0x00} = {}) \<and> sorted (map fst ps) \<and>
     (\<forall>h \<in> set hs. header_safe h \<and> \<not> ci_equal (fst h) ''Range'' \<and> \<not> ci_equal (fst h) ''Expect'') \<and>
     length (get_line (p, ps, hs)) \<le> REQUEST_URI_MAX_LENGTH)"

definition get_safe :: "get_request \<Rightarrow> bool" where
  "get_safe g \<longleftrightarrow> get_wf g \<and> (\<forall>h \<in> set (snd (snd g)). \<not> ci_equal (fst h) ''Connection'')"

definition get_parsed :: "http_env \<Rightarrow> get_request \<Rightarrow> Request" where
  "get_parsed he g = remote_headers he
     ((the (parse_request_line (get_line g) new_Request))\<lparr>req_headers := foldl (\<lambda>m (k, v). ci_emplace k v m) [] (snd (snd g))\<rparr>)"

definition get_answer :: "http_env \<Rightarrow> bool \<Rightarrow> get_request \<Rightarrow> Response \<Rightarrow> string" where
  "get_answer he close_connection g res =
     write_response_with_content he close_connection (new_server_request\<lparr>sr_req := get_parsed he g\<rparr>) res"

lemma set_params_no_newline:
  "\<forall>x \<in> set ps. query_safe x \<and> set (fst x) \<inter> {CHR 13, CHR 10, CHR 0x00} = {} \<Longrightarrow>
   set (params_to_query_str ps) \<inter> {CHR 13, CHR 10, CHR 0x00} = {}"
proof (induction ps rule: params_to_query_str.induct)
  case (2 k v)
  then show ?case using set_encode_url_lines [of v] by (simp add: Int_Un_distrib2)
next
  case (3 k v p ps)
  then show ?case using set_encode_url_lines [of v] by (simp add: Int_Un_distrib2)
qed simp

lemma get_line_parsed:
  assumes "get_wf (p, ps, hs)"
  shows "\<exists>t. parse_request_line (get_line (p, ps, hs)) new_Request =
    Some \<lparr>req_method = ''GET'', target = t, path = p, version = ''HTTP/1.1'', req_headers = [], params = ps\<rparr>"
  using parse_request_line_get [of "''HTTP/1.1''" p ps] assms by (auto simp: get_wf_def get_line_def)

lemma getline_get:
  assumes "get_wf (p, ps, hs)"
  shows "stream_getline (get_line (p, ps, hs) @ s) = Some (get_line (p, ps, hs), s)"
proof -
  have "set (params_to_query_str ps) \<inter> {CHR 13, CHR 10, CHR 0x00} = {}"
    using assms by (intro set_params_no_newline) (simp add: get_wf_def)
  then have "NL \<notin> set (''GET '' @ p @ ''?'' @ params_to_query_str ps @ '' '' @ ''HTTP/1.1'')"
    using assms by (auto simp: get_wf_def)
  from getline_crlf [OF this, of s] show ?thesis by (simp add: get_line_def)
qed

text \<open>Reading a header of a request that has headers of other names.\<close>

lemma header_absent:
  "\<forall>h \<in> set hs. \<not> ci_equal (fst h) key \<Longrightarrow> \<not> headers_have hs key \<and> get_header_value hs key 0 def = def"
  by (auto simp: headers_have_def get_header_value_def list_ex_iff filter_empty_conv Let_def)

lemma set_ci_emplace: "set (ci_emplace k v m) = insert (k, v) (set m)"
  using mset_ci_emplace [of k v m] by (metis set_mset_add_mset_insert set_mset_mset)

lemma set_ci_emplace_all: "set (foldl (\<lambda>m (k, v). ci_emplace k v m) m hs) = set m \<union> set hs"
  by (induction hs arbitrary: m) (auto simp: set_ci_emplace)

lemma set_remote_headers:
  "set (req_headers (remote_headers he req)) \<subseteq>
    set (req_headers req) \<union> {(''REMOTE_ADDR'', he_remote_addr he), (''REMOTE_PORT'', decimal (he_remote_port he))}"
  by (auto simp: remote_headers_def Request_set_header_def set_ci_emplace)

lemma remote_names:
  "\<not> ci_equal ''REMOTE_ADDR'' ''Connection''" "\<not> ci_equal ''REMOTE_PORT'' ''Connection''"
  "\<not> ci_equal ''REMOTE_ADDR'' ''Range''" "\<not> ci_equal ''REMOTE_PORT'' ''Range''"
  "\<not> ci_equal ''REMOTE_ADDR'' ''Expect''" "\<not> ci_equal ''REMOTE_PORT'' ''Expect''"
  by code_simp+

lemma remote_request: "req_method (remote_headers he req) = req_method req" "path (remote_headers he req) = path req"
  "params (remote_headers he req) = params req"
  by (simp_all add: remote_headers_def Request_set_header_def)

definition get_connection :: "get_request \<Rightarrow> string" where
  "get_connection = (\<lambda>(p, ps, hs). get_header_value (foldl (\<lambda>m (k, v). ci_emplace k v m) [] hs) ''Connection'' 0 [])"

lemma get_header_value_emplace:
  "\<not> ci_equal k key \<Longrightarrow> get_header_value (ci_emplace k v m) key i def = get_header_value m key i def"
  by (simp add: get_header_value_def filter_ci_emplace)

lemma get_header_value_remote:
  "key \<in> {''Connection'', ''Range'', ''Expect''} \<Longrightarrow>
   Request_get_header_value (remote_headers he req) key = Request_get_header_value req key"
  using remote_names
  by (auto simp: remote_headers_def Request_set_header_def Request_get_header_value_def get_header_value_emplace)

lemma get_parsed_eq:
  assumes "get_wf (p, ps, hs)"
  shows "req_method (get_parsed he (p, ps, hs)) = ''GET''" and "path (get_parsed he (p, ps, hs)) = p" and "params (get_parsed he (p, ps, hs)) = ps"
    and "key \<in> {''Range'', ''Expect''} \<Longrightarrow>
      \<not> Request_has_header (get_parsed he (p, ps, hs)) key \<and> Request_get_header_value (get_parsed he (p, ps, hs)) key = []"
    and "Request_get_header_value (get_parsed he (p, ps, hs)) ''Connection'' = get_connection (p, ps, hs)"
proof -
  obtain t where r: "parse_request_line (get_line (p, ps, hs)) new_Request =
      Some \<lparr>req_method = ''GET'', target = t, path = p, version = ''HTTP/1.1'', req_headers = [], params = ps\<rparr>"
    using get_line_parsed [OF assms] by blast
  then show "req_method (get_parsed he (p, ps, hs)) = ''GET''" "path (get_parsed he (p, ps, hs)) = p" "params (get_parsed he (p, ps, hs)) = ps"
    by (simp_all add: get_parsed_def remote_request)
  show "Request_get_header_value (get_parsed he (p, ps, hs)) ''Connection'' = get_connection (p, ps, hs)"
    by (simp add: get_parsed_def get_header_value_remote) (simp add: r get_connection_def Request_get_header_value_def)
  let ?hs = "req_headers (get_parsed he (p, ps, hs))"
  have "set ?hs \<subseteq> set hs \<union> {(''REMOTE_ADDR'', he_remote_addr he), (''REMOTE_PORT'', decimal (he_remote_port he))}"
    using set_remote_headers [of he] by (fastforce simp: get_parsed_def set_ci_emplace_all)
  moreover assume "key \<in> {''Range'', ''Expect''}"
  ultimately have "\<forall>h \<in> set ?hs. \<not> ci_equal (fst h) key" using assms remote_names by (fastforce simp: get_wf_def)
  then show "\<not> Request_has_header (get_parsed he (p, ps, hs)) key \<and> Request_get_header_value (get_parsed he (p, ps, hs)) key = []"
    using header_absent by (simp add: Request_has_header_def Request_get_header_value_def)
qed

lemma get_safe_connection: "get_safe g \<Longrightarrow> get_wf g \<and> get_connection g = []"
  using header_absent by (cases g) (auto simp: get_safe_def get_connection_def set_ci_emplace_all)

lemma dispatch_none: "dispatch_request hs req res = Inr (False, res') \<Longrightarrow> res' = res"
  by (induction hs req res rule: dispatch_request.induct) (auto split: if_splits sum.splits)

lemma routing_get_none: "routing_get fs svr req res = Inr (False, res') \<Longrightarrow> res' = res"
  by (auto simp: routing_get_def Let_def dest: dispatch_none split: option.splits)

lemma apply_no_ranges: "body res = [] \<Longrightarrow> apply_ranges [] b res = res"
  by (simp add: apply_ranges_def multipart_headers_def)

lemma write_no_content:
  "body res = [] \<Longrightarrow> sr_ranges q = [] \<Longrightarrow> write_response he c q res = write_response_with_content he c q res"
  unfolding write_response_def write_response_with_content_def write_response_core_def
  by (simp only: apply_no_ranges if_True if_False)

lemma answer_get:
  assumes "req_method (sr_req q) = ''GET''" and "header_of q ''Expect'' = []" and "sr_ranges q = []"
    and "respond_get fs svr (sr_req q) = Inr res"
  shows "answer_request he fs svr c q s = Inr (write_response_with_content he c q res, s)"
proof (cases "routing_get fs svr (sr_req q) new_Response")
  case (Inr r)
  obtain ok res' where r: "r = (ok, res')" by (cases r)
  show ?thesis
  proof (cases ok)
    case True
    with assms Inr r show ?thesis by (auto simp: answer_request_def routing_def respond_get_def)
  next
    case False
    with Inr r have "res' = new_Response" using routing_get_none [of fs svr "sr_req q" new_Response res'] by simp
    with False assms Inr r show ?thesis
      by (auto simp: answer_request_def routing_def respond_get_def new_Response_def write_no_content)
  qed
qed (use assms(4) in \<open>simp add: respond_get_def\<close>)

lemma process_get:
  assumes "get_wf g" and "\<not> he_fd_too_big he" and "respond_get fs svr (get_parsed he g) = Inr res"
  shows "process_request he fs svr c (get_text g @ s) = Inr (True, get_connection g = ''close'', get_answer he c g res, s)"
proof -
  obtain p ps hs where g: "g = (p, ps, hs)" by (cases g)
  have wf: "get_wf (p, ps, hs)" using assms(1) g by simp
  obtain t where r: "parse_request_line (get_line g) new_Request =
      Some \<lparr>req_method = ''GET'', target = t, path = p, version = ''HTTP/1.1'', req_headers = [], params = ps\<rparr>" (is "_ = Some ?req")
    using get_line_parsed [OF wf] g by blast
  let ?hs = "foldl (\<lambda>m (k, v). ci_emplace k v m) [] hs"
  have gl: "stream_getline (get_text g @ s) = Some (get_line g, write_headers hs @ s)"
    using getline_get [OF wf] by (simp add: get_text_def g)
  have rh: "read_headers (write_headers hs @ s) [] = (True, ?hs, s)"
    using wf by (intro read_headers_written) (auto simp: get_wf_def)
  have co: "get_header_value ?hs ''Connection'' 0 [] = get_connection g" by (simp add: get_connection_def g)
  have pr: "remote_headers he (?req\<lparr>req_headers := ?hs\<rparr>) = get_parsed he g" by (simp add: get_parsed_def r [unfolded g] g)
  have ab: "\<not> Request_has_header (get_parsed he g) ''Range''" "Request_get_header_value (get_parsed he g) ''Expect'' = []"
    "req_method (get_parsed he g) = ''GET''" using get_parsed_eq [OF wf] g by simp_all
  have "answer_request he fs svr c (new_server_request\<lparr>sr_req := get_parsed he g\<rparr>) s = Inr (get_answer he c g res, s)"
    unfolding get_answer_def using assms(3) ab(2,3) by (intro answer_get) (simp_all add: header_of_def new_server_request_def)
  moreover have "length (get_line g) \<le> REQUEST_URI_MAX_LENGTH" using wf g by (simp add: get_wf_def)
  ultimately show ?thesis using assms(2) ab(1)
    by (simp add: process_request_def gl r rh Let_def header_of_def Request_get_header_value_def co pr [simplified])
       (simp add: new_server_request_def co)
qed

text \<open>The answers to GET requests on a connection that has room for \<open>n\<close> of them: the last of these closes it.\<close>

fun get_answers :: "http_env \<Rightarrow> (get_request \<Rightarrow> Response) \<Rightarrow> nat \<Rightarrow> get_request list \<Rightarrow> string list" where
  "get_answers he resp n [] = []"
| "get_answers he resp n (g # gs) = get_answer he (n = 1) g (resp g) # get_answers he resp (n - 1) gs"



section \<open>A search over a connection\<close>

lemma no_zero_decimal: "takeWhile (\<lambda>c. c \<noteq> CHR 0x00) (decimal n) = decimal n"
  using decimal_plain [of n] by (intro takeWhile_eq_all_conv [THEN iffD2]) auto

lemma search_header_order:
  "tolower (CHR ''T'') \<noteq> tolower (CHR ''L'')" "\<not> tolower (CHR ''T'') < tolower (CHR ''L'')" "tolower (CHR ''C'') < tolower (CHR ''K'')"
  by code_simp+

text \<open>The headers of the answer to a search, on a connection that goes on or is closed.\<close>

definition search_headers :: "http_env \<Rightarrow> bool \<Rightarrow> string \<Rightarrow> multimap" where
  "search_headers he closing json =
     (if closing then [(''Connection'', ''close''), (''Content-Length'', decimal (length json)), (''Content-Type'', ''application/json'')]
      else [(''Content-Length'', decimal (length json)), (''Content-Type'', ''application/json''),
        (''Keep-Alive'', ''timeout='' @ decimal (he_keep_alive_timeout he) @ '', max='' @ decimal (he_keep_alive_max he))])"

definition search_response :: "string \<Rightarrow> Response" where
  "search_response json = \<lparr>status = 200, headers = [(''Content-Type'', ''application/json'')], body = json\<rparr>"

lemma get_answer_search:
  assumes "get_wf g" and "json \<noteq> []"
  shows "get_answer he c g (search_response json) =
    status_line 200 @ write_headers (search_headers he (c \<or> get_connection g = ''close'') json) @ json"
proof -
  let ?len = "(''Content-Length'', decimal (length json))" and ?type = "(''Content-Type'', ''application/json'')"
  define k where "k = ''timeout='' @ decimal (he_keep_alive_timeout he) @ '', max='' @ decimal (he_keep_alive_max he)"
  let ?q = "new_server_request\<lparr>sr_req := get_parsed he g\<rparr>" and ?res = "search_response json"
  let ?hs = "search_headers he (c \<or> get_connection g = ''close'') json"
  obtain p ps hs where g: "g = (p, ps, hs)" by (cases g)
  have q: "header_of ?q ''Connection'' = get_connection g" "req_method (get_parsed he g) = ''GET''" "sr_ranges ?q = []"
    using get_parsed_eq(1,5) [of p ps hs he] assms(1) g by (simp_all add: header_of_def new_server_request_def)
  have r: "apply_ranges [] (make_multipart_data_boundary (he_engine he)) ?res = ?res\<lparr>headers := [?len, ?type]\<rparr>"
    using assms(2)
    by (simp add: search_response_def apply_ranges_def multipart_headers_def set_header_def header_names decimal_no_crlf
        ci_emplace_def search_header_order)
  have names: "\<not> has_crlf ''Keep-Alive''" "\<not> has_crlf ''Connection''" "\<not> has_crlf ''close''" by code_simp+
  have "\<not> has_crlf k" unfolding k_def using decimal_plain by (intro has_crlf_plain) auto
  then have k: "set_header (?res\<lparr>headers := [?len, ?type]\<rparr>) ''Keep-Alive'' k = ?res\<lparr>headers := [?len, ?type, (''Keep-Alive'', k)]\<rparr>"
    using names by (simp add: set_header_def ci_emplace_def search_header_order search_response_def)
  have "map tolower ''Content-Length'' > map tolower ''Connection''" by code_simp
  then have cl: "set_header (?res\<lparr>headers := [?len, ?type]\<rparr>) ''Connection'' ''close'' = ?res\<lparr>headers := [(''Connection'', ''close''), ?len, ?type]\<rparr>"
    using names unfolding set_header_def ci_emplace_def search_response_def by (simp only: simp_thms if_True Response.simps takeWhile.simps dropWhile.simps case_prod_conv not_le [symmetric] if_False append_Nil)
  have has: "has_header (?res\<lparr>headers := ?hs\<rparr>) ''Content-Type''" "has_header (?res\<lparr>headers := ?hs\<rparr>) ''Content-Length''"
    by (simp_all add: search_headers_def has_header_def headers_have_def ci_equal_def)
  show ?thesis
  proof (cases "c \<or> get_connection g = ''close''")
    case True
    then show ?thesis using has
      by (auto simp: get_answer_def write_response_with_content_def write_response_core_def q r cl search_headers_def)
        (simp_all add: search_response_def Let_def q)
  next
    case False
    then have hs: "?hs = [?len, ?type, (''Keep-Alive'', k)]" by (simp add: search_headers_def k_def)
    show ?thesis using False has
      unfolding get_answer_def write_response_with_content_def write_response_core_def hs k_def [symmetric]
      by (simp add: q r k) (simp add: search_response_def Let_def q)
  qed
qed

lemma process_search:
  assumes "get_wf (''/s'', [(''word'', q)], hs)" and "fs ''./wwwRoot/s'' = None" and "search en ix q = Inr json" and "json \<noteq> []"
    and "\<not> he_fd_too_big he"
  shows "process_request he fs (program_server is_dir en ix) c (get_text (''/s'', [(''word'', q)], hs) @ s) =
    Inr (True, get_connection (''/s'', [(''word'', q)], hs) = ''close'',
      status_line 200 @ write_headers (search_headers he (c \<or> get_connection (''/s'', [(''word'', q)], hs) = ''close'') json) @ json, s)"
proof -
  have "respond_get fs (program_server is_dir en ix) (get_parsed he (''/s'', [(''word'', q)], hs)) = Inr (search_response json)"
    unfolding search_response_def by (rule respond_search) (use get_parsed_eq [OF assms(1)] assms(2,3) in simp_all)
  from process_get [OF assms(1,5) this] show ?thesis by (simp add: get_answer_search [OF assms(1,4)])
qed



end
