(* ===== verification/HttpHandlers.thy ===== *)
theory HttpHandlers imports HttpConnection begin

text \<open>
  The whole of \<open>httplib::Server\<close>: handlers for every method, handlers that read the content themselves, content providers
  in answers, the handlers of errors and of \<open>Expect\<close>, and exceptions.

  \<^item> A handler gives its answer or throws; \<open>Response\<close> is the record of \<open>HttpMessages\<close> with the content provider.
  \<^item> A handler that reads the content is a tree: it answers, throws, or calls the reader with its functions and goes on
    with the result. The type \<open>'st\<close> is that of the variables of its functions.
  \<^item> \<open>rounds\<close> is how often a loop over a provider may ask whether the server is shutting down before it is.
  \<^item> The logger, which only looks at the answer, is left out. Writing to the stream succeeds.
  \<^item> With only handlers for GET that throw nothing, this is the server of \<open>HttpConnection\<close>: \<open>full_server_extends\<close>.
\<close>

section \<open>Answers and handlers\<close>

datatype server_fault = HandlerFault fault | AssertFailure | UncaughtException

datatype content =
    NoContent
  | WithLength nat "nat \<Rightarrow> nat \<Rightarrow> string list \<times> bool"
  | WithoutLength "nat \<Rightarrow> sink_op list \<times> bool"
  | InChunks "nat \<Rightarrow> sink_op list \<times> bool"

record full_response =
  fr_res :: Response
  fr_content :: content

definition new_full_response :: full_response where
  "new_full_response = \<lparr>fr_res = new_Response, fr_content = NoContent\<rparr>"

definition set_full_header :: "string \<Rightarrow> string \<Rightarrow> full_response \<Rightarrow> full_response" where
  "set_full_header k v r = r\<lparr>fr_res := set_header (fr_res r) k v\<rparr>"

definition set_full_content :: "string \<Rightarrow> string \<Rightarrow> full_response \<Rightarrow> full_response" where
  "set_full_content s content_type r = r\<lparr>fr_res := set_content (fr_res r) s content_type\<rparr>"

text \<open>\<open>None\<close> is the failed assertion.\<close>

definition set_content_provider ::
  "nat \<Rightarrow> string \<Rightarrow> (nat \<Rightarrow> nat \<Rightarrow> string list \<times> bool) \<Rightarrow> full_response \<Rightarrow> full_response option" where
  "set_content_provider in_length content_type prov r =
     (if in_length > 0
      then Some ((set_full_header ''Content-Type'' content_type r)\<lparr>fr_content := WithLength in_length prov\<rparr>) else None)"

definition set_content_provider_without_length ::
  "string \<Rightarrow> (nat \<Rightarrow> sink_op list \<times> bool) \<Rightarrow> full_response \<Rightarrow> full_response" where
  "set_content_provider_without_length content_type prov r =
     (set_full_header ''Content-Type'' content_type r)\<lparr>fr_content := WithoutLength prov\<rparr>"

definition set_chunked_content_provider ::
  "string \<Rightarrow> (nat \<Rightarrow> sink_op list \<times> bool) \<Rightarrow> full_response \<Rightarrow> full_response" where
  "set_chunked_content_provider content_type prov r =
     (set_full_header ''Content-Type'' content_type r)\<lparr>fr_content := InChunks prov\<rparr>"

text \<open>How a handler ends: with the response, with an exception, whose text is known for a \<open>std::exception\<close>, or not at all.\<close>

datatype handled = Returned full_response | Raised "string option" full_response | Failed fault

type_synonym full_handler = "server_request \<Rightarrow> full_response \<Rightarrow> handled"

type_synonym full_handlers = "((string \<Rightarrow> bool) \<times> full_handler) list"

text \<open>Reading with one function, or with one for the headers of the parts and one for their contents.\<close>

datatype 'st reading =
    Ends handled
  | ReadsContent "'st receiver" 'st full_response "bool \<Rightarrow> 'st \<Rightarrow> full_response \<Rightarrow> 'st reading"
  | ReadsParts "'st header_receiver" "'st receiver" 'st full_response "bool \<Rightarrow> 'st \<Rightarrow> full_response \<Rightarrow> 'st reading"

type_synonym 'st reader_handler = "server_request \<Rightarrow> full_response \<Rightarrow> 'st reading"

type_synonym 'st reader_handlers = "((string \<Rightarrow> bool) \<times> 'st reader_handler) list"

text \<open>\<open>fv_files\<close> has the mounted directories, the content types and the handler of files; its handlers of GET are not used.\<close>

record 'st full_server =
  fv_files :: Server
  fv_get :: full_handlers
  fv_post :: full_handlers
  fv_post_reader :: "'st reader_handlers"
  fv_put :: full_handlers
  fv_put_reader :: "'st reader_handlers"
  fv_patch :: full_handlers
  fv_patch_reader :: "'st reader_handlers"
  fv_delete :: full_handlers
  fv_delete_reader :: "'st reader_handlers"
  fv_options :: full_handlers
  fv_error :: "full_handler option"
  fv_expect :: "(server_request \<Rightarrow> full_response \<Rightarrow> int \<times> full_response) option"

definition new_full_server :: "'st full_server" where
  "new_full_server = \<lparr>fv_files = new_Server, fv_get = [], fv_post = [], fv_post_reader = [], fv_put = [], fv_put_reader = [],
     fv_patch = [], fv_patch_reader = [], fv_delete = [], fv_delete_reader = [], fv_options = [], fv_error = None, fv_expect = None\<rparr>"

definition Server_Get where
  "Server_Get pattern h svr = svr\<lparr>fv_get := fv_get svr @ [(pattern, h)]\<rparr>"

definition Server_Post where
  "Server_Post pattern h svr = svr\<lparr>fv_post := fv_post svr @ [(pattern, h)]\<rparr>"

definition Server_Post_reader where
  "Server_Post_reader pattern h svr = svr\<lparr>fv_post_reader := fv_post_reader svr @ [(pattern, h)]\<rparr>"

definition Server_Put where
  "Server_Put pattern h svr = svr\<lparr>fv_put := fv_put svr @ [(pattern, h)]\<rparr>"

definition Server_Put_reader where
  "Server_Put_reader pattern h svr = svr\<lparr>fv_put_reader := fv_put_reader svr @ [(pattern, h)]\<rparr>"

definition Server_Patch where
  "Server_Patch pattern h svr = svr\<lparr>fv_patch := fv_patch svr @ [(pattern, h)]\<rparr>"

definition Server_Patch_reader where
  "Server_Patch_reader pattern h svr = svr\<lparr>fv_patch_reader := fv_patch_reader svr @ [(pattern, h)]\<rparr>"

definition Server_Delete where
  "Server_Delete pattern h svr = svr\<lparr>fv_delete := fv_delete svr @ [(pattern, h)]\<rparr>"

definition Server_Delete_reader where
  "Server_Delete_reader pattern h svr = svr\<lparr>fv_delete_reader := fv_delete_reader svr @ [(pattern, h)]\<rparr>"

definition Server_Options where
  "Server_Options pattern h svr = svr\<lparr>fv_options := fv_options svr @ [(pattern, h)]\<rparr>"

definition set_error_handler where
  "set_error_handler h svr = svr\<lparr>fv_error := Some h\<rparr>"

definition set_expect_100_continue_handler where
  "set_expect_100_continue_handler h svr = svr\<lparr>fv_expect := Some h\<rparr>"

definition set_keep_alive_max_count :: "nat \<Rightarrow> http_env \<Rightarrow> http_env" where
  "set_keep_alive_max_count n he = he\<lparr>he_keep_alive_max := n\<rparr>"

definition set_keep_alive_timeout :: "nat \<Rightarrow> http_env \<Rightarrow> http_env" where
  "set_keep_alive_timeout n he = he\<lparr>he_keep_alive_timeout := n\<rparr>"

definition set_payload_max_length :: "nat \<Rightarrow> http_env \<Rightarrow> http_env" where
  "set_payload_max_length n he = he\<lparr>he_payload_max := n\<rparr>"

section \<open>Reading by a handler\<close>

text \<open>A function that may be null; a call of it then throws, which the flag remembers.\<close>

fun call_or_throw :: "('x \<Rightarrow> 'st \<Rightarrow> bool \<times> 'st) option \<Rightarrow> 'x \<Rightarrow> bool \<times> 'st \<Rightarrow> bool \<times> bool \<times> 'st" where
  "call_or_throw (Some f) x (thrown, st) = (let (ok, st) = f x st in (ok, thrown, st))"
| "call_or_throw None x (thrown, st) = (False, True, st)"

text \<open>The receiver that feeds the parser of form data, with its two functions.\<close>

definition feed_parser_with ::
  "'st receiver \<Rightarrow> 'st header_receiver \<Rightarrow> (MultipartFormDataParser \<times> 'st) receiver" where
  "feed_parser_with content_cb header_cb buf st =
     (let (r, p, s) = mp_parse content_cb header_cb buf (fst st) (snd st) in (r, p, s))"

text \<open>\<open>read_content_with_content_receiver\<close>: success, the variables of the functions, the status, and the rest of the input.\<close>

definition read_with_receivers ::
  "http_env \<Rightarrow> server_request \<Rightarrow> int \<Rightarrow> string \<Rightarrow> 'st receiver option \<Rightarrow> 'st header_receiver option \<Rightarrow>
     'st receiver option \<Rightarrow> 'st \<Rightarrow> server_fault + bool \<times> 'st \<times> int \<times> string" where
  "read_with_receivers he q stat s receiver header_cb content_cb st =
     (let req = sr_req q; no_content = (req_method req = ''DELETE'' \<and> \<not> Request_has_header req ''Content-Length'')
      in if is_multipart_form_data q then
           (case parse_multipart_boundary (header_of q ''Content-Type'') of
              None \<Rightarrow> Inr (False, st, 400, s)
            | Some bnd \<Rightarrow>
                if no_content then Inr (True, st, stat, s)
                else (let (ok, stat, (p, thrown, st), s) =
                        read_content (he_recv he) (he_payload_max he) (req_headers req) s
                          (feed_parser_with (call_or_throw content_cb) (call_or_throw header_cb)) stat (new_parser bnd, False, st)
                      in if thrown then Inl UncaughtException
                         else if ok \<and> \<not> mp_is_valid p then Inr (False, st, 400, s) else Inr (ok, st, stat, s)))
         else if no_content then Inr (True, st, stat, s)
         else (let (ok, stat, (thrown, st), s) =
                 read_content (he_recv he) (he_payload_max he) (req_headers req) s (call_or_throw receiver) stat (False, st)
               in if thrown then Inl UncaughtException else Inr (ok, st, stat, s)))"

definition with_status :: "int \<Rightarrow> full_response \<Rightarrow> full_response" where
  "with_status stat r = r\<lparr>fr_res := (fr_res r)\<lparr>status := stat\<rparr>\<rparr>"

text \<open>A handler that reads: its response, and the rest of the input. No exception is caught here.\<close>

primrec run_reading ::
  "'st reading \<Rightarrow> http_env \<Rightarrow> server_request \<Rightarrow> string \<Rightarrow> server_fault + full_response \<times> string" where
  "run_reading (Ends h) he q s =
     (case h of Returned r \<Rightarrow> Inr (r, s) | Raised what r \<Rightarrow> Inl UncaughtException | Failed e \<Rightarrow> Inl (HandlerFault e))"
| "run_reading (ReadsContent receiver st r k) he q s =
     (case read_with_receivers he q (status (fr_res r)) s (Some receiver) None None st of
        Inl e \<Rightarrow> Inl e
      | Inr (ok, st, stat, s) \<Rightarrow> run_reading (k ok st (with_status stat r)) he q s)"
| "run_reading (ReadsParts header_cb content_cb st r k) he q s =
     (case read_with_receivers he q (status (fr_res r)) s None (Some header_cb) (Some content_cb) st of
        Inl e \<Rightarrow> Inl e
      | Inr (ok, st, stat, s) \<Rightarrow> run_reading (k ok st (with_status stat r)) he q s)"

section \<open>Dispatch\<close>

fun dispatch_handlers :: "full_handlers \<Rightarrow> server_request \<Rightarrow> full_response \<Rightarrow> server_fault + bool \<times> full_response" where
  "dispatch_handlers [] q r = Inr (False, r)"
| "dispatch_handlers ((pattern, h) # hs) q r =
     (if pattern (path (sr_req q)) then
        (case h q r of
           Returned r \<Rightarrow> Inr (True, r)
         | Raised what r \<Rightarrow>
             Inr (False, set_full_header ''EXCEPTION_WHAT'' (case what of Some w \<Rightarrow> w | None \<Rightarrow> ''UNKNOWN'') (with_status 500 r))
         | Failed e \<Rightarrow> Inl (HandlerFault e))
      else dispatch_handlers hs q r)"

fun dispatch_request_for_content_reader ::
  "http_env \<Rightarrow> 'st reader_handlers \<Rightarrow> server_request \<Rightarrow> full_response \<Rightarrow> string \<Rightarrow>
     server_fault + (full_response \<times> string) option" where
  "dispatch_request_for_content_reader he [] q r s = Inr None"
| "dispatch_request_for_content_reader he ((pattern, h) # hs) q r s =
     (if pattern (path (sr_req q)) then map_sum id Some (run_reading (h q r) he q s)
      else dispatch_request_for_content_reader he hs q r s)"

definition reader_handlers_of :: "'st full_server \<Rightarrow> string \<Rightarrow> 'st reader_handlers" where
  "reader_handlers_of svr meth =
     (if meth = ''POST'' then fv_post_reader svr else if meth = ''PUT'' then fv_put_reader svr
      else if meth = ''PATCH'' then fv_patch_reader svr else if meth = ''DELETE'' then fv_delete_reader svr else [])"

definition handlers_of :: "'st full_server \<Rightarrow> string \<Rightarrow> full_handlers option" where
  "handlers_of svr meth =
     (if meth = ''GET'' \<or> meth = ''HEAD'' then Some (fv_get svr) else if meth = ''POST'' then Some (fv_post svr)
      else if meth = ''PUT'' then Some (fv_put svr) else if meth = ''DELETE'' then Some (fv_delete svr)
      else if meth = ''OPTIONS'' then Some (fv_options svr) else if meth = ''PATCH'' then Some (fv_patch svr) else None)"

text \<open>The end of \<open>routing\<close>, once the content is read.\<close>

definition regular_routing ::
  "'st full_server \<Rightarrow> server_request \<Rightarrow> full_response \<Rightarrow> string \<Rightarrow>
     server_fault + bool \<times> server_request \<times> full_response \<times> string" where
  "regular_routing svr q r s =
     (case handlers_of svr (req_method (sr_req q)) of
        None \<Rightarrow> Inr (False, q, with_status 400 r, s)
      | Some hs \<Rightarrow> (case dispatch_handlers hs q r of Inl e \<Rightarrow> Inl e | Inr (ok, r) \<Rightarrow> Inr (ok, q, r, s)))"

definition full_routing ::
  "http_env \<Rightarrow> filesystem \<Rightarrow> 'st full_server \<Rightarrow> server_request \<Rightarrow> full_response \<Rightarrow> string \<Rightarrow>
     server_fault + bool \<times> server_request \<times> full_response \<times> string" where
  "full_routing he fs svr q r s =
     (let req = sr_req q; is_head_request = (req_method req = ''HEAD'');
          file = (if req_method req = ''GET'' \<or> is_head_request
                  then handle_file_request fs (fv_files svr) req (fr_res r) is_head_request else None)
      in case file of
           Some res \<Rightarrow> Inr (True, q, r\<lparr>fr_res := res\<rparr>, s)
         | None \<Rightarrow>
             if expect_content req then
               (case dispatch_request_for_content_reader he (reader_handlers_of svr (req_method req)) q r s of
                  Inl e \<Rightarrow> Inl e
                | Inr (Some (r, s)) \<Rightarrow> Inr (True, q, r, s)
                | Inr None \<Rightarrow>
                    (let (ok, q, res, s) = Server_read_content he q (fr_res r) s; r = r\<lparr>fr_res := res\<rparr>
                     in if \<not> ok then Inr (False, q, r, s) else regular_routing svr q r s))
             else regular_routing svr q r s)"

section \<open>Writing an answer\<close>

text \<open>\<open>write_content\<close>: success, the rounds that are left, and the output. The offsets are 64-bit words.\<close>

fun write_length_rounds ::
  "nat \<Rightarrow> (nat \<Rightarrow> nat \<Rightarrow> string list \<times> bool) \<Rightarrow> u64 \<Rightarrow> u64 \<Rightarrow> string \<Rightarrow> bool \<times> nat \<times> string" where
  "write_length_rounds 0 prov ofs end_ofs out = (True, 0, out)"
| "write_length_rounds (Suc rounds) prov ofs end_ofs out =
     (if ofs < end_ofs then
        (let (ws, ok) = prov (unat ofs) (unat (end_ofs - ofs)); out = out @ concat ws
         in if \<not> ok then (False, rounds, out)
            else write_length_rounds rounds prov (ofs + word_of_nat (length (concat ws))) end_ofs out)
      else (True, Suc rounds, out))"

definition write_content ::
  "nat \<Rightarrow> (nat \<Rightarrow> nat \<Rightarrow> string list \<times> bool) \<Rightarrow> u64 \<Rightarrow> u64 \<Rightarrow> string \<Rightarrow> bool \<times> nat \<times> string" where
  "write_content rounds prov ofs sz out = write_length_rounds rounds prov ofs (ofs + sz) out"

text \<open>\<open>write_content_without_length\<close>; here a write of no bytes does not end the loop.\<close>

fun plain_step :: "sink_op \<Rightarrow> chunk_state \<Rightarrow> chunk_state" where
  "plain_step (SinkWrite d) st = st\<lparr>ck_offset := ck_offset st + length d, ck_out := ck_out st @ d\<rparr>"
| "plain_step SinkDone st = st\<lparr>ck_available := False\<rparr>"

fun plain_rounds :: "nat \<Rightarrow> (nat \<Rightarrow> sink_op list \<times> bool) \<Rightarrow> chunk_state \<Rightarrow> bool \<times> chunk_state" where
  "plain_rounds 0 prov st = (True, st)"
| "plain_rounds (Suc rounds) prov st =
     (if ck_available st then
        (let (ops, ok) = prov (ck_offset st); st = fold plain_step ops st
         in if \<not> ok then (False, st) else plain_rounds rounds prov st)
      else (True, st))"

definition write_content_without_length :: "nat \<Rightarrow> (nat \<Rightarrow> sink_op list \<times> bool) \<Rightarrow> bool \<times> string" where
  "write_content_without_length rounds prov =
     (let (ok, st) = plain_rounds rounds prov \<lparr>ck_offset = 0, ck_available = True, ck_out = []\<rparr> in (ok, ck_out st))"

text \<open>\<open>write_multipart_ranges_data\<close>, which takes the size of the body, empty here, for that of the content.\<close>

definition write_multipart_ranges_data ::
  "nat \<Rightarrow> range list \<Rightarrow> string \<Rightarrow> string \<Rightarrow> string \<Rightarrow> (nat \<Rightarrow> nat \<Rightarrow> string list \<times> bool) \<Rightarrow> bool \<times> string" where
  "write_multipart_ranges_data rounds ranges bd bnd content_type prov =
     (let (ok, left, out) = process_multipart_ranges_data ranges (length bd) bnd content_type
            (\<lambda>(n, out) token. (n, out @ token)) (\<lambda>ofs sz (n, out). write_content n prov ofs sz out) 0 (rounds, [])
      in (ok, out))"

definition provided_content ::
  "nat \<Rightarrow> range list \<Rightarrow> string \<Rightarrow> string \<Rightarrow> full_response \<Rightarrow> bool \<times> string" where
  "provided_content rounds ranges bnd content_type r =
     (case fr_content r of
        NoContent \<Rightarrow> (True, [])
      | WithLength n prov \<Rightarrow>
          if ranges = [] then (let (ok, left, out) = write_content rounds prov 0 (word_of_nat n) [] in (ok, out))
          else if length ranges = 1 then
            (let (ofs, sz) = get_range_offset_and_length ranges n 0; (ok, left, out) = write_content rounds prov ofs sz []
             in (ok, out))
          else write_multipart_ranges_data rounds ranges (body (fr_res r)) bnd content_type prov
      | WithoutLength prov \<Rightarrow> write_content_without_length rounds prov
      | InChunks prov \<Rightarrow> write_content_chunked rounds prov)"

text \<open>\<open>apply_ranges\<close> with the content type of the parts that it keeps for the writer.\<close>

definition apply_all_ranges :: "range list \<Rightarrow> string \<Rightarrow> full_response \<Rightarrow> string \<times> full_response" where
  "apply_all_ranges ranges bnd r =
     (let (content_type, res) = multipart_headers ranges bnd (fr_res r)
      in if body (fr_res r) \<noteq> [] then (content_type, r\<lparr>fr_res := apply_ranges ranges bnd (fr_res r)\<rparr>)
         else (content_type,
           case fr_content r of
             WithLength n prov \<Rightarrow>
               (let (sz, res) =
                  (if ranges = [] then (word_of_nat n, res)
                   else if length ranges = 1 then
                     (let (ofs, sz) = get_range_offset_and_length ranges n 0
                      in (sz, set_header res ''Content-Range'' (make_content_range_header_field ofs sz n)))
                   else (word_of_nat (get_multipart_ranges_data_length ranges (body res) bnd content_type), res))
                in r\<lparr>fr_res := set_header res ''Content-Length'' (decimal (unat (sz :: u64)))\<rparr>)
           | InChunks prov \<Rightarrow> r\<lparr>fr_res := set_header res ''Transfer-Encoding'' ''chunked''\<rparr>
           | _ \<Rightarrow> r\<lparr>fr_res := res\<rparr>))"

definition call_error_handler ::
  "'st full_server \<Rightarrow> server_request \<Rightarrow> full_response \<Rightarrow> server_fault + full_response" where
  "call_error_handler svr q r =
     (if 400 \<le> status (fr_res r) then
        (case fv_error svr of
           None \<Rightarrow> Inr r
         | Some h \<Rightarrow>
             (case h q r of Returned r \<Rightarrow> Inr r | Raised what r \<Rightarrow> Inl UncaughtException | Failed e \<Rightarrow> Inl (HandlerFault e)))
      else Inr r)"

text \<open>The headers that \<open>write_response_core\<close> adds.\<close>

definition final_headers :: "http_env \<Rightarrow> bool \<Rightarrow> server_request \<Rightarrow> full_response \<Rightarrow> full_response" where
  "final_headers he close_connection q r =
     (let res = fr_res r;
          res = (if close_connection \<or> header_of q ''Connection'' = ''close'' then set_header res ''Connection'' ''close''
                 else set_header res ''Keep-Alive''
                   (''timeout='' @ decimal (he_keep_alive_timeout he) @ '', max='' @ decimal (he_keep_alive_max he)));
          res = (if \<not> has_header res ''Content-Type'' \<and> (body res \<noteq> [] \<or> fr_content r \<noteq> NoContent)
                 then set_header res ''Content-Type'' ''text/plain'' else res);
          res = (if \<not> has_header res ''Content-Length'' \<and> body res = [] \<and> fr_content r = NoContent
                 then set_header res ''Content-Length'' ''0'' else res);
          res = (if \<not> has_header res ''Accept-Ranges'' \<and> req_method (sr_req q) = ''HEAD'' then set_header res ''Accept-Ranges'' ''bytes'' else res)
      in r\<lparr>fr_res := res\<rparr>)"

text \<open>The whole of it: success and the text.\<close>

definition write_full_response ::
  "http_env \<Rightarrow> 'st full_server \<Rightarrow> nat \<Rightarrow> bool \<Rightarrow> server_request \<Rightarrow> full_response \<Rightarrow> bool \<Rightarrow> server_fault + bool \<times> string" where
  "write_full_response he svr rounds close_connection q r need_apply_ranges =
     (if status (fr_res r) = -1 then Inl AssertFailure
      else (case call_error_handler svr q r of
              Inl e \<Rightarrow> Inl e
            | Inr r \<Rightarrow>
                (let bnd = make_multipart_data_boundary (he_engine he);
                     (content_type, r) = (if need_apply_ranges then apply_all_ranges (sr_ranges q) bnd r else ([], r));
                     r = final_headers he close_connection q r; res = fr_res r;
                     (ok, out) = (if req_method (sr_req q) = ''HEAD'' then (True, [])
                                  else if body res \<noteq> [] then (True, body res)
                                  else provided_content rounds (sr_ranges q) bnd content_type r)
                 in Inr (ok, status_line (status res) @ write_headers (headers res) @ out))))"

section \<open>A request and its answer\<close>

definition full_answer ::
  "http_env \<Rightarrow> filesystem \<Rightarrow> 'st full_server \<Rightarrow> nat \<Rightarrow> bool \<Rightarrow> server_request \<Rightarrow> full_response \<Rightarrow> string \<Rightarrow>
     server_fault + bool \<times> string \<times> string" where
  "full_answer he fs svr rounds close_connection q r s =
     (case full_routing he fs svr q r s of
        Inl e \<Rightarrow> Inl e
      | Inr (routed, q, r, s) \<Rightarrow>
          (let r = (if status (fr_res r) = -1 then with_status (if \<not> routed then 404 else if sr_ranges q = [] then 200 else 206) r else r)
           in map_sum id (\<lambda>(ok, out). (ok, out, s)) (write_full_response he svr rounds close_connection q r routed)))"

definition expect_answer ::
  "http_env \<Rightarrow> filesystem \<Rightarrow> 'st full_server \<Rightarrow> nat \<Rightarrow> bool \<Rightarrow> server_request \<Rightarrow> string \<Rightarrow>
     server_fault + bool \<times> string \<times> string" where
  "expect_answer he fs svr rounds close_connection q s =
     (if header_of q ''Expect'' = ''100-continue'' then
        (let (stat, r) = (case fv_expect svr of Some h \<Rightarrow> h q new_full_response | None \<Rightarrow> (100, new_full_response))
         in if stat = 100 \<or> stat = 417 then
              map_sum id (\<lambda>(ok, out, s). (ok, ''HTTP/1.1 '' @ decimal (nat stat) @ '' '' @ status_message stat @ crlf @ crlf @ out, s))
                (full_answer he fs svr rounds close_connection q r s)
            else map_sum id (\<lambda>(ok, out). (ok, out, s)) (write_full_response he svr rounds close_connection q r False))
      else full_answer he fs svr rounds close_connection q new_full_response s)"

definition full_process_request ::
  "http_env \<Rightarrow> filesystem \<Rightarrow> 'st full_server \<Rightarrow> nat \<Rightarrow> bool \<Rightarrow> string \<Rightarrow> server_fault + bool \<times> bool \<times> string \<times> string" where
  "full_process_request he fs svr rounds close_connection s =
     (let fail = (\<lambda>q stat closes s.
            map_sum id (\<lambda>(ok, out). (ok, closes, out, s))
              (write_full_response he svr rounds close_connection q (with_status stat new_full_response) False))
      in case stream_getline s of
           None \<Rightarrow> Inr (False, False, [], [])
         | Some (line, s) \<Rightarrow>
             if he_fd_too_big he then fail new_server_request 500 False (snd (snd (read_headers s [])))
             else if length line > REQUEST_URI_MAX_LENGTH then fail new_server_request 414 False (snd (snd (read_headers s [])))
             else (case parse_request_line line new_Request of
                     None \<Rightarrow> fail new_server_request 400 False s
                   | Some req \<Rightarrow>
                       (let (ok, hs, s) = read_headers s (req_headers req);
                            q = new_server_request\<lparr>sr_req := req\<lparr>req_headers := hs\<rparr>\<rparr>;
                            connection = header_of q ''Connection'';
                            closes = (connection = ''close'' \<or> version req = ''HTTP/1.0'' \<and> connection \<noteq> ''Keep-Alive'');
                            q' = q\<lparr>sr_req := remote_headers he (sr_req q)\<rparr>;
                            ranges = (if Request_has_header (sr_req q') ''Range''
                                      then parse_range_header (header_of q' ''Range'') [] else Some [])
                        in if \<not> ok then fail q 400 False s
                           else (case ranges of
                                   None \<Rightarrow> fail q' 416 closes s
                                 | Some rs \<Rightarrow>
                                     map_sum id (\<lambda>(ok, out, s). (ok, closes, out, s))
                                       (expect_answer he fs svr rounds close_connection (q'\<lparr>sr_ranges := rs\<rparr>) s)))))"

text \<open>The loop over the requests of a connection; \<open>rounds\<close> gives the rounds for each of them.\<close>

fun full_server_loop ::
  "http_env \<Rightarrow> filesystem \<Rightarrow> 'st full_server \<Rightarrow> (nat \<Rightarrow> nat) \<Rightarrow> nat \<Rightarrow> bool \<Rightarrow> string \<Rightarrow>
     server_fault + bool \<times> string list \<times> string" where
  "full_server_loop he fs svr rounds 0 ret s = Inr (ret, [], s)"
| "full_server_loop he fs svr rounds (Suc n) ret s =
     (if \<not> he_alive he (Suc n) then Inr (ret, [], s)
      else (case full_process_request he fs svr (rounds (Suc n)) (Suc n = 1) s of
              Inl e \<Rightarrow> Inl e
            | Inr (ret, closes, out, s) \<Rightarrow>
                if \<not> ret \<or> closes then Inr (ret, [out], s)
                else (case full_server_loop he fs svr rounds n ret s of
                        Inl e \<Rightarrow> Inl e
                      | Inr (ret, outs, s) \<Rightarrow> Inr (ret, out # outs, s))))"

section \<open>The server without the rest\<close>

text \<open>A server of \<open>HttpConnection\<close> as one with all the tables: its handlers throw nothing and leave the content alone.\<close>

definition lift_handler :: "handler \<Rightarrow> full_handler" where
  "lift_handler h q r = (case h (sr_req q) (fr_res r) of Inl e \<Rightarrow> Failed e | Inr res \<Rightarrow> Returned (r\<lparr>fr_res := res\<rparr>))"

definition extend_server :: "Server \<Rightarrow> 'st full_server" where
  "extend_server svr = new_full_server\<lparr>fv_files := svr, fv_get := map (apsnd lift_handler) (get_handlers svr)\<rparr>"

lemma extend_server_fields [simp]:
  "fv_files (extend_server svr) = svr" "fv_get (extend_server svr) = map (apsnd lift_handler) (get_handlers svr)"
  "fv_error (extend_server svr) = None" "fv_expect (extend_server svr) = None"
  "reader_handlers_of (extend_server svr) meth = []"
  "handlers_of (extend_server svr) meth =
    (if meth = ''GET'' \<or> meth = ''HEAD'' then Some (map (apsnd lift_handler) (get_handlers svr))
     else if meth \<in> {''POST'', ''PUT'', ''DELETE'', ''OPTIONS'', ''PATCH''} then Some [] else None)"
  by (simp_all add: extend_server_def new_full_server_def reader_handlers_of_def handlers_of_def)

lemma dispatch_lifted:
  "dispatch_handlers (map (apsnd lift_handler) hs) q r =
   map_sum HandlerFault (\<lambda>(ok, res). (ok, r\<lparr>fr_res := res\<rparr>)) (dispatch_request hs (sr_req q) (fr_res r))"
  by (induction hs) (auto simp: lift_handler_def split: sum.split)

lemma routing_lifted:
  "full_routing he fs (extend_server svr) q r s =
   map_sum HandlerFault (\<lambda>(ok, q, res, s). (ok, q, r\<lparr>fr_res := res\<rparr>, s)) (routing he fs svr q (fr_res r) s)"
proof (cases "req_method (sr_req q) = ''GET'' \<or> req_method (sr_req q) = ''HEAD''")
  case True
  then have "\<not> expect_content (sr_req q)" by (auto simp: expect_content_def)
  with True show ?thesis
    by (auto simp: full_routing_def routing_def routing_get_def regular_routing_def dispatch_lifted Let_def
        split: option.split sum.split)
next
  case False
  obtain ok q' res s' where rd: "Server_read_content he q (fr_res r) s = (ok, q', res, s')" by (cases "Server_read_content he q (fr_res r) s")
  have m: "req_method (sr_req q') = req_method (sr_req q)"
    using rd unfolding Server_read_content_def read_content_core_def Let_def
    by (auto split: if_splits option.splits prod.splits bool.splits)
  show ?thesis
    using False rd m
    by (auto simp: full_routing_def routing_def regular_routing_def with_status_def Let_def split: if_splits)
qed

lemma apply_all_without_content:
  "fr_content r = NoContent \<Longrightarrow> snd (apply_all_ranges ranges bnd r) = r\<lparr>fr_res := apply_ranges ranges bnd (fr_res r)\<rparr>"
  by (auto simp: apply_all_ranges_def apply_ranges_def multipart_headers_def Let_def split: prod.split)

text \<open>The headers that are added to an answer without a provider.\<close>

definition plain_headers :: "http_env \<Rightarrow> bool \<Rightarrow> server_request \<Rightarrow> Response \<Rightarrow> Response" where
  "plain_headers he close_connection q res = fr_res (final_headers he close_connection q \<lparr>fr_res = res, fr_content = NoContent\<rparr>)"

lemma final_headers_plain:
  "fr_content r = NoContent \<Longrightarrow> final_headers he c q r = r\<lparr>fr_res := plain_headers he c q (fr_res r)\<rparr>"
  by (cases r) (simp only: plain_headers_def final_headers_def Let_def full_response.simps)

lemma write_core_plain:
  "write_response_core he c q res na =
    (let res = plain_headers he c q (if na then apply_ranges (sr_ranges q) (make_multipart_data_boundary (he_engine he)) res else res)
     in status_line (status res) @ write_headers (headers res) @ (if req_method (sr_req q) \<noteq> ''HEAD'' then body res else []))"
  by (simp only: write_response_core_def plain_headers_def final_headers_def full_response.simps simp_thms if_True if_False)
    (simp only: Let_def full_response.simps)

lemma write_lifted:
  assumes "fr_content r = NoContent" and "status (fr_res r) \<noteq> -1" and "fv_error svr = None"
  shows "write_full_response he svr rounds c q r na = Inr (True, write_response_core he c q (fr_res r) na)"
proof -
  obtain ct r' where a: "(if na then apply_all_ranges (sr_ranges q) (make_multipart_data_boundary (he_engine he)) r else ([], r)) = (ct, r')"
    by fastforce
  then have r': "r' = r\<lparr>fr_res := (if na then apply_ranges (sr_ranges q) (make_multipart_data_boundary (he_engine he)) (fr_res r) else fr_res r)\<rparr>"
    using apply_all_without_content [OF assms(1), of "sr_ranges q" "make_multipart_data_boundary (he_engine he)"]
    by (auto split: if_splits)
  then have c: "fr_content r' = NoContent" using assms(1) by simp
  have "call_error_handler svr q r = Inr r" by (simp add: call_error_handler_def assms(3))
  then show ?thesis
    using assms(1,2)
    by (simp add: write_full_response_def a final_headers_plain [OF c] write_core_plain provided_content_def c Let_def)
       (simp add: r')
qed

lemma answer_lifted:
  "full_answer he fs (extend_server svr) rounds c q new_full_response s =
   map_sum HandlerFault (\<lambda>(out, s). (True, out, s))
     (case routing he fs svr q new_Response s of
        Inl e \<Rightarrow> Inl e
      | Inr (True, q, res, s) \<Rightarrow>
          Inr (write_response_with_content he c q (if status res = -1 then res\<lparr>status := (if sr_ranges q = [] then 200 else 206)\<rparr> else res), s)
      | Inr (False, q, res, s) \<Rightarrow> Inr (write_response he c q (if status res = -1 then res\<lparr>status := 404\<rparr> else res), s))"
proof (cases "routing he fs svr q new_Response s")
  case (Inr x)
  obtain ok q' res s' where x: "x = (ok, q', res, s')" by (cases x)
  show ?thesis using Inr x
    by (simp add: full_answer_def routing_lifted new_full_response_def write_response_with_content_def write_response_def
        with_status_def write_lifted)
qed (simp add: full_answer_def routing_lifted new_full_response_def)

lemma hundred: "decimal 100 = ''100''"
  by code_simp

lemma expect_lifted:
  "expect_answer he fs (extend_server svr) rounds c q s =
   map_sum HandlerFault (\<lambda>(out, s). (True, out, s)) (answer_request he fs svr c q s)"
  unfolding expect_answer_def answer_request_def Let_def
  by (auto simp: hundred answer_lifted split: sum.split bool.split prod.split)

lemma fail_lifted:
  "stat \<noteq> -1 \<Longrightarrow> write_full_response he (extend_server svr) rounds c q (with_status stat new_full_response) False =
   Inr (True, write_response he c q (new_Response\<lparr>status := stat\<rparr>))"
  using write_lifted [of "with_status stat new_full_response" "extend_server svr" he rounds c q False]
  by (simp add: with_status_def new_full_response_def write_response_def)

lemma process_lifted:
  "full_process_request he fs (extend_server svr) rounds c s = map_sum HandlerFault id (process_request he fs svr c s)"
proof (cases "stream_getline s")
  case (Some x)
  obtain line s' where x: "x = (line, s')" by (cases x)
  show ?thesis
  proof (cases "parse_request_line line new_Request")
    case None
    then show ?thesis by (simp add: full_process_request_def process_request_def Some x fail_lifted)
  next
    case (Some req)
    obtain ok hs s'' where "read_headers s' (req_headers req) = (ok, hs, s'')" by (cases "read_headers s' (req_headers req)")
    then show ?thesis
      by (auto simp: full_process_request_def process_request_def Some x \<open>stream_getline s = Some x\<close> fail_lifted expect_lifted Let_def
          split: option.split sum.split)
  qed
qed (simp add: full_process_request_def process_request_def)


section \<open>The multimaps of a server\<close>

text \<open>What makes a list of entries a \<open>std::multimap\<close>: the entries are in the order of their keys.\<close>

definition by_name :: "multimap \<Rightarrow> bool" where
  "by_name m \<longleftrightarrow> sorted (map (\<lambda>(k, v). map tolower k) m)"

definition by_key :: "multimap \<Rightarrow> bool" where
  "by_key m \<longleftrightarrow> sorted (map fst m)"

lemma sorted_insert_at:
  fixes f :: "'a \<Rightarrow> 'b :: linorder"
  assumes "sorted (map f m)"
  shows "sorted (map f (takeWhile (\<lambda>y. f y \<le> f x) m @ x # dropWhile (\<lambda>y. f y \<le> f x) m))"
proof -
  have s: "sorted (map f (takeWhile (\<lambda>y. f y \<le> f x) m) @ map f (dropWhile (\<lambda>y. f y \<le> f x) m))"
    using assms by (metis map_append takeWhile_dropWhile_id)
  have "f x \<le> f y" if "y \<in> set (dropWhile (\<lambda>y. f y \<le> f x) m)" for y
  proof -
    have "dropWhile (\<lambda>y. f y \<le> f x) m \<noteq> []"
    proof
      assume "dropWhile (\<lambda>y. f y \<le> f x) m = []"
      with that show False by (simp only: list.set empty_iff)
    qed
    then obtain z zs where z: "dropWhile (\<lambda>y. f y \<le> f x) m = z # zs" by (meson neq_Nil_conv)
    then have "\<not> f z \<le> f x" using hd_dropWhile [of "\<lambda>y. f y \<le> f x" m] by simp
    moreover have "f z \<le> f y" using s that by (auto simp: z sorted_append)
    ultimately show ?thesis by simp
  qed
  with s show ?thesis by (auto simp: sorted_append dest!: set_takeWhileD)
qed

lemma by_name_emplace: "by_name m \<Longrightarrow> by_name (ci_emplace k v m)"
proof -
  have "(\<lambda>(k', v' :: string). map tolower k' \<le> map tolower k) = (\<lambda>y. (case y of (k', v') \<Rightarrow> map tolower k') \<le> (case (k, v) of (k, v) \<Rightarrow> map tolower k))"
    by auto
  then show "by_name m \<Longrightarrow> by_name (ci_emplace k v m)"
    using sorted_insert_at [of "\<lambda>(k, v). map tolower k" m "(k, v)"] unfolding by_name_def ci_emplace_def by presburger
qed

lemma by_key_emplace: "by_key m \<Longrightarrow> by_key (emplace k v m)"
proof -
  have "(\<lambda>(k', v' :: string). k' \<le> k) = (\<lambda>y. fst y \<le> fst (k, v))" by auto
  then show "by_key m \<Longrightarrow> by_key (emplace k v m)"
    using sorted_insert_at [of fst m "(k, v)"] unfolding by_key_def emplace_def by presburger
qed

lemma by_name_filter: "by_name m \<Longrightarrow> by_name (filter P m)"
  unfolding by_name_def by (rule sorted_filter)

lemma by_name_read: "by_name hs \<Longrightarrow> by_name (fst (snd (read_headers s hs)))"
proof (induction s hs rule: read_headers.induct)
  case (1 s hs)
  then show ?case
    by (subst read_headers.simps) (auto simp: by_name_emplace split: option.splits)
qed

lemma by_key_parse: "by_key ps \<Longrightarrow> by_key (parse_query_text t ps)"
proof -
  have "by_key ps \<Longrightarrow> by_key (foldl query_piece ps l)" for l
    by (induction l arbitrary: ps) (auto simp: query_piece_def Let_def by_key_emplace split: prod.splits)
  then show "by_key ps \<Longrightarrow> by_key (parse_query_text t ps)" by (simp add: parse_query_text_def)
qed

lemma by_name_set: "by_name (headers res) \<Longrightarrow> by_name (headers (set_header res k v))"
  by (simp add: set_header_def by_name_emplace)

lemma by_name_multipart: "by_name (headers res) \<Longrightarrow> by_name (headers (snd (multipart_headers rs bnd res)))"
proof -
  assume s: "by_name (headers res)"
  have "by_name (snd (erase_header (headers res) k))" for k
  proof (cases "dropWhile (\<lambda>(k', v). \<not> ci_equal k' k) (headers res)")
    case (Cons e rest)
    then have "headers res = takeWhile (\<lambda>(k', v). \<not> ci_equal k' k) (headers res) @ e # rest" (is "_ = ?before @ _")
      using takeWhile_dropWhile_id [of "\<lambda>(k', v). \<not> ci_equal k' k" "headers res"] by simp
    then have "by_name (?before @ e # rest)" using s by simp
    then have "by_name (?before @ rest)" unfolding by_name_def map_append list.map by (simp add: sorted_append)
    then show ?thesis using Cons by (simp add: erase_header_def split: prod.split)
  next
    case Nil
    then show ?thesis unfolding erase_header_def Let_def Nil using s by simp
  qed
  moreover obtain ct hs where e: "erase_header (headers res) ''Content-Type'' = (ct, hs)" by fastforce
  ultimately have "by_name hs" by (metis snd_conv)
  then show "by_name (headers (snd (multipart_headers rs bnd res)))"
    using s by (simp add: multipart_headers_def by_name_emplace e)
qed

lemma by_name_ranges: "by_name (headers res) \<Longrightarrow> by_name (headers (apply_ranges rs bnd res))"
proof -
  assume s: "by_name (headers res)"
  obtain ct res' where m: "multipart_headers rs bnd res = (ct, res')" by fastforce
  then have r: "by_name (headers res')" using by_name_multipart [OF s, of rs bnd] by simp
  show "by_name (headers (apply_ranges rs bnd res))"
    unfolding apply_ranges_def m Let_def prod.case
    by (auto simp: r by_name_set split: prod.split)
qed



end
