(* ===== verification/HttpClientText.thy ===== *)
theory HttpClientText imports HttpConnection begin

text \<open>
  The texts of the client in \<open>httplib.h\<close>: base 64 and the headers for credentials, the address of a server, the line of
  a response, the location of a redirect, and the text of a request.

  \<^item> The regular expressions are written out as what they match.
  \<^item> \<open>std::stoi\<close> throws for numbers that no \<open>int\<close> holds; this and the other ends of a call that is no return are
    \<open>client_fault\<close>.
\<close>

section \<open>Base 64\<close>

definition base64_table :: string where
  "base64_table = ''ABCDEFGHIJKLMNOPQRSTUVWXYZabcdefghijklmnopqrstuvwxyz0123456789+/''"

definition base64_digit :: "nat \<Rightarrow> char" where "base64_digit n = base64_table ! (n mod 64)"

definition wrap32 :: "nat \<Rightarrow> nat" where "wrap32 n = n mod 2 ^ 32"

text \<open>
  The inner loop of \<open>base64_encode\<close>, which takes six bits at a time from above. The accumulator is a 32-bit \<open>int\<close>; only its
  bits below 14 are read, for which it does not matter how the machine shifts.
\<close>

function base64_bits :: "nat \<Rightarrow> int \<Rightarrow> string \<times> int" where
  "base64_bits val valb =
     (if valb \<ge> 0 then (let (out, valb') = base64_bits val (valb - 6) in (base64_digit (val div 2 ^ nat valb) # out, valb'))
      else ([], valb))"
  by pat_completeness auto
termination
  by (relation "measure (\<lambda>(val, valb). nat (valb + 6))") auto

fun base64_loop :: "nat \<Rightarrow> int \<Rightarrow> string \<Rightarrow> string \<times> nat \<times> int" where
  "base64_loop val valb [] = ([], val, valb)"
| "base64_loop val valb (c # s) =
     (let val = wrap32 (val * 256 + of_char c); (out, valb) = base64_bits val (valb + 8);
          (rest, st) = base64_loop val valb s
      in (out @ rest, st))"

definition base64_encode :: "string \<Rightarrow> string" where
  "base64_encode s =
     (let (out, val, valb) = base64_loop 0 (-6) s;
          out = (if valb > -6 then out @ [base64_digit (wrap32 (val * 256) div 2 ^ nat (valb + 8))] else out)
      in out @ replicate ((4 - length out mod 4) mod 4) (CHR ''=''))"

definition make_basic_authentication_header :: "string \<Rightarrow> string \<Rightarrow> bool \<Rightarrow> string \<times> string" where
  "make_basic_authentication_header username password is_proxy =
     (if is_proxy then ''Proxy-Authorization'' else ''Authorization'', ''Basic '' @ base64_encode (username @ '':'' @ password))"

definition make_bearer_token_authentication_header :: "string \<Rightarrow> bool \<Rightarrow> string \<times> string" where
  "make_bearer_token_authentication_header token is_proxy =
     (if is_proxy then ''Proxy-Authorization'' else ''Authorization'', ''Bearer '' @ token)"

section \<open>Numbers and addresses\<close>

datatype client_fault = StoiOutOfRange | InvalidArgument | BadFunctionCall | NoReturn

definition INT_MAX :: int where "INT_MAX = 2147483647"

text \<open>\<open>std::stoi\<close> of digits.\<close>

definition stoi_digits :: "string \<Rightarrow> client_fault + int" where
  "stoi_digits ds = (let n = digits_value 0 ds in if n > INT_MAX then Inl StoiOutOfRange else Inr n)"

text \<open>\<open>([^:/?#]*)(?::(\d+))?\<close> at the start: the host, the digits of the port, and the rest.\<close>

definition match_host_port :: "string \<Rightarrow> string \<times> string \<times> string" where
  "match_host_port s =
     (let host = takeWhile (\<lambda>c. c \<notin> set '':/?#'') s; rest = drop (length host) s; ds = takeWhile is_digit (tl rest)
      in if rest \<noteq> [] \<and> hd rest = CHR '':'' \<and> ds \<noteq> [] then (host, ds, drop (length ds) (tl rest)) else (host, [], rest))"

definition is_lower :: "char \<Rightarrow> bool" where
  "is_lower c = (let n = of_char c :: nat in 97 \<le> n \<and> n \<le> 122)"

text \<open>\<open>^(?:([a-z]+)://)?([^:/?#]+)(?::(\d+))?\<close> for a whole text: scheme, host, port.\<close>

definition match_address :: "string \<Rightarrow> (string \<times> string \<times> string) option" where
  "match_address s =
     (let low = takeWhile is_lower s; t = drop (length low) s;
          (scheme, u) = (if low \<noteq> [] \<and> take 3 t = ''://'' then (low, drop 3 t) else ([], s));
          (host, ds, rest) = match_host_port u
      in if host \<noteq> [] \<and> rest = [] then Some (scheme, host, ds) else None)"

text \<open>The constructor \<open>Client::Client\<close> from one text: host and port.\<close>

definition client_address :: "string \<Rightarrow> client_fault + string \<times> int" where
  "client_address scheme_host_port =
     (case match_address (takeWhile (\<lambda>c. c \<noteq> CHR 0x00) scheme_host_port) of
        None \<Rightarrow> Inr (takeWhile (\<lambda>c. c \<noteq> CHR 0x00) scheme_host_port, 80)
      | Some (scheme, host, port_str) \<Rightarrow>
          if scheme \<noteq> [] \<and> scheme \<noteq> ''http'' then Inl InvalidArgument
          else if port_str \<noteq> [] then (case stoi_digits port_str of Inl e \<Rightarrow> Inl e | Inr port \<Rightarrow> Inr (host, port))
          else Inr (host, 80))"

text \<open>
  \<open>^(?:(https?):)?(?://([^:/?#]*)(?::(\d+))?)?([^?#]*(?:\?[^#]*)?)(?:#.*)?\<close> for a whole text: scheme, host, port and path.
  The dot matches no line end.
\<close>

definition match_location :: "string \<Rightarrow> (string \<times> string \<times> string \<times> string) option" where
  "match_location s =
     (let (scheme, t) = (if take 6 s = ''https:'' then (''https'', drop 6 s)
                         else if take 5 s = ''http:'' then (''http'', drop 5 s) else ([], s));
          (host, ds, u) = (if take 2 t = ''//'' then match_host_port (drop 2 t) else ([], [], t));
          p = takeWhile (\<lambda>c. c \<noteq> CHR ''#'') u; fragment = drop (length p) u
      in if CHR 13 \<in> set fragment \<or> CHR 10 \<in> set fragment then None else Some (scheme, host, ds, p))"

section \<open>The line of a response\<close>

record client_response =
  cres_version :: string
  cres_status :: int
  cres_reason :: string
  cres_headers :: multimap
  cres_body :: string
  cres_location :: string

definition new_client_response :: client_response where
  "new_client_response =
     \<lparr>cres_version = [], cres_status = -1, cres_reason = [], cres_headers = [], cres_body = [], cres_location = []\<rparr>"

text \<open>\<open>(HTTP/1\.[01]) (\d+) (.*?)\r\n\<close>: the version, the digits and the reason.\<close>

definition match_response_line :: "string \<Rightarrow> (string \<times> string \<times> string) option" where
  "match_response_line line =
     (let s = takeWhile (\<lambda>c. c \<noteq> CHR 0x00) line; ds = takeWhile is_digit (drop 9 s); t = drop (9 + length ds) s;
          reason = take (length t - 3) (tl t)
      in if take 9 s \<in> {''HTTP/1.0 '', ''HTTP/1.1 ''} \<and> ds \<noteq> [] \<and> 3 \<le> length t \<and> hd t = CHR '' '' \<and>
            drop (length t - 2) t = crlf \<and> set reason \<inter> {CHR 13, CHR 10} = {}
         then Some (take 8 s, ds, reason) else None)"

definition take_status :: "string \<times> string \<times> string \<Rightarrow> client_response \<Rightarrow> client_fault + client_response" where
  "take_status = (\<lambda>(v, ds, reason) res.
     case stoi_digits ds of Inl e \<Rightarrow> Inl e | Inr n \<Rightarrow> Inr (res\<lparr>cres_version := v, cres_status := n, cres_reason := reason\<rparr>))"

text \<open>The loop that ignores answers 100: two lines are read for each.\<close>

function skip_continue :: "string \<Rightarrow> client_response \<Rightarrow> client_fault + bool \<times> client_response \<times> string" where
  "skip_continue s res =
     (if cres_status res \<noteq> 100 then Inr (True, res, s)
      else (case stream_getline s of
              None \<Rightarrow> Inr (False, res, [])
            | Some (_, s) \<Rightarrow>
                (case stream_getline s of
                   None \<Rightarrow> Inr (False, res, [])
                 | Some (line, s) \<Rightarrow>
                     (case match_response_line line of
                        None \<Rightarrow> Inr (False, res, s)
                      | Some m \<Rightarrow> (case take_status m res of Inl e \<Rightarrow> Inl e | Inr res \<Rightarrow> skip_continue s res)))))"
  by pat_completeness auto
termination
  by (relation "measure (\<lambda>(s, res). length s)") (auto dest!: stream_getline_shorter)

declare skip_continue.simps [simp del]

text \<open>A line that does not match is no error: the response stays as it was.\<close>

definition read_response_line :: "string \<Rightarrow> client_response \<Rightarrow> client_fault + bool \<times> client_response \<times> string" where
  "read_response_line s res =
     (case stream_getline s of
        None \<Rightarrow> Inr (False, res, [])
      | Some (line, s) \<Rightarrow>
          (case match_response_line line of
             None \<Rightarrow> Inr (True, res, s)
           | Some m \<Rightarrow> (case take_status m res of Inl e \<Rightarrow> Inl e | Inr res \<Rightarrow> skip_continue s res)))"

section \<open>Base 64 by groups\<close>

text \<open>The coding by groups of three bytes, as the standard describes it.\<close>

definition base64_group :: "nat \<Rightarrow> string" where
  "base64_group n = map (\<lambda>k. base64_digit (n div 2 ^ k)) [18, 12, 6, 0]"

fun base64_spec :: "string \<Rightarrow> string" where
  "base64_spec [] = []"
| "base64_spec [a] = take 2 (base64_group (of_char a * 2 ^ 16)) @ ''==''"
| "base64_spec [a, b] = take 3 (base64_group (of_char a * 2 ^ 16 + of_char b * 2 ^ 8)) @ ''=''"
| "base64_spec (a # b # c # s) = base64_group (of_char a * 2 ^ 16 + of_char b * 2 ^ 8 + of_char c) @ base64_spec s"

lemma base64_bits_two: "base64_bits v 2 = ([base64_digit (v div 4)], -4)"
  by (subst base64_bits.simps, subst base64_bits.simps) simp

lemma base64_bits_four: "base64_bits v 4 = ([base64_digit (v div 16)], -2)"
  by (subst base64_bits.simps, subst base64_bits.simps) simp

lemma base64_bits_six: "base64_bits v 6 = ([base64_digit (v div 64), base64_digit v], -6)"
  by (subst base64_bits.simps, subst base64_bits.simps, subst base64_bits.simps) simp

declare base64_bits.simps [simp del]

text \<open>The digits that come out depend on the last bytes alone, however full the accumulator is.\<close>

lemma base64_step:
  assumes "u mod 2 ^ m = w" and "m \<le> 24"
  shows "wrap32 (u * 256 + of_char c) mod 2 ^ (m + 8) = w * 256 + (of_char c :: nat)"
proof -
  have "u = 2 ^ m * (u div 2 ^ m) + w" using assms(1) by (metis mult_div_mod_eq)
  then have "u * 256 + of_char c = (w * 256 + of_char c) + 2 ^ (m + 8) * (u div 2 ^ m)"
    by (simp add: power_add algebra_simps)
  moreover have "w * 256 + of_char c < 2 ^ (m + 8)"
  proof -
    have "w * 256 + x < (w + 1) * 256" if "x < 256" for x :: nat using that by simp
    then have "w * 256 + of_char c < (w + 1) * 256" by simp
    also have "\<dots> \<le> 2 ^ m * 256" using assms(1) by (intro mult_le_mono1) (auto simp: Suc_le_eq)
    finally show ?thesis by (simp add: power_add)
  qed
  moreover have "x mod 2 ^ 32 mod 2 ^ (m + 8) = x mod 2 ^ (m + 8)" for x :: nat
    using assms(2) by (intro mod_mod_cancel le_imp_power_dvd) simp
  ultimately show ?thesis by (simp only: wrap32_def mod_mult_self2 mod_less)
qed

lemma base64_digit_low:
  assumes "u mod 2 ^ m = w" and "k + 6 \<le> m"
  shows "base64_digit (u div 2 ^ k) = base64_digit (w div 2 ^ k)"
proof -
  have d: "x div 2 ^ k mod 64 = drop_bit k (take_bit (k + 6) x)" for x :: nat
    using take_bit_drop_bit [of 6 k x] by (simp add: take_bit_eq_mod drop_bit_eq_div ac_simps)
  have "take_bit (k + 6) w = take_bit (k + 6) u" using assms by (simp add: take_bit_take_bit flip: assms(1) take_bit_eq_mod)
  then show ?thesis by (simp add: base64_digit_def d)
qed

lemma base64_digits:
  fixes v :: nat and a b c :: char
  defines "u1 \<equiv> wrap32 (v * 256 + of_char a)"
  defines "u2 \<equiv> wrap32 (u1 * 256 + of_char b)"
  defines "u3 \<equiv> wrap32 (u2 * 256 + of_char c)"
  shows "base64_group (of_char a * 2 ^ 16 + of_char b * 2 ^ 8 + of_char c) =
    [base64_digit (u1 div 4), base64_digit (u2 div 16), base64_digit (u3 div 64), base64_digit u3]"
proof -
  let ?a = "of_char a :: nat" and ?b = "of_char b :: nat" and ?c = "of_char c :: nat"
  let ?n = "?a * 2 ^ 16 + ?b * 2 ^ 8 + ?c"
  have u: "u1 mod 2 ^ 8 = ?a" using base64_step [of v 0 0 a] by (simp add: u1_def)
  have v: "u2 mod 2 ^ 16 = ?a * 256 + ?b" using base64_step [OF u, of b] by (simp add: u2_def)
  have w: "u3 mod 2 ^ 24 = (?a * 256 + ?b) * 256 + ?c" using base64_step [OF v, of c] by (simp add: u3_def)
  have small: "?b < 256" "?c < 256" by simp_all
  then have "?b * 256 + ?c < 65536" by linarith
  then have "(?a * 65536 + (?b * 256 + ?c)) div 65536 = ?a" by (subst div_mult_self3) simp_all
  then have "?n div 65536 div 4 = ?a div 4" by (simp add: add.assoc)
  then have "base64_digit (u1 div 4) = base64_digit (?n div 2 ^ 18)"
    using base64_digit_low [OF u, of 2] by (simp add: div_mult2_eq [symmetric])
  moreover have "((?a * 256 + ?b) * 256 + ?c) div 256 = ?a * 256 + ?b" using small by (subst div_mult_self3) simp_all
  then have "?n div 256 div 16 = (?a * 256 + ?b) div 16" by (simp add: algebra_simps)
  then have "base64_digit (u2 div 16) = base64_digit (?n div 2 ^ 12)"
    using base64_digit_low [OF v, of 4] by (simp add: div_mult2_eq [symmetric])
  moreover have "base64_digit (u3 div 64) = base64_digit (?n div 2 ^ 6)" "base64_digit u3 = base64_digit ?n"
    using base64_digit_low [OF w, of 6] base64_digit_low [OF w, of 0] by (simp_all add: algebra_simps)
  ultimately show ?thesis by (simp add: base64_group_def)
qed

text \<open>The whole of \<open>base64_encode\<close> from any state between two groups.\<close>

definition base64_end :: "string \<times> nat \<times> int \<Rightarrow> string" where
  "base64_end = (\<lambda>(out, val, valb).
     (let out = (if valb > -6 then out @ [base64_digit (wrap32 (val * 256) div 2 ^ nat (valb + 8))] else out)
      in out @ replicate ((4 - length out mod 4) mod 4) (CHR ''='')))"

lemma base64_loop_group:
  "base64_loop v (-6) (c # s) =
    (let u = wrap32 (v * 256 + of_char c); (out, st) = base64_loop u (-4) s in (base64_digit (u div 4) # out, st))"
  "base64_loop v (-4) (c # s) =
    (let u = wrap32 (v * 256 + of_char c); (out, st) = base64_loop u (-2) s in (base64_digit (u div 16) # out, st))"
  "base64_loop v (-2) (c # s) =
    (let u = wrap32 (v * 256 + of_char c); (out, st) = base64_loop u (-6) s
     in (base64_digit (u div 64) # base64_digit u # out, st))"
  by (simp_all add: base64_bits_two base64_bits_four base64_bits_six Let_def)

lemma base64_end_group:
  assumes "length g = 4"
  shows "base64_end (g @ out, val, valb) = g @ base64_end (out, val, valb)"
proof -
  have "(5 + n) mod 4 = Suc n mod (4 :: nat)" for n by presburger
  then show ?thesis using assms by (simp add: base64_end_def)
qed

lemma base64_from: "base64_end (base64_loop v (-6) s) = base64_spec s"
proof (induction s arbitrary: v rule: base64_spec.induct)
  case 1
  show ?case by (simp add: base64_end_def)
next
  case (2 a)
  have "replicate 2 (CHR ''='') = ''==''" by (simp add: numeral_2_eq_2)
  then show ?case using base64_digits [of a "CHR 0x00" "CHR 0x00" v] by (simp add: base64_end_def base64_bits_two Let_def)
next
  case (3 a b)
  show ?case using base64_digits [of a b "CHR 0x00" v] by (simp add: base64_end_def base64_bits_two base64_bits_four Let_def)
next
  case (4 a b c s)
  let ?g = "base64_group (of_char a * 2 ^ 16 + of_char b * 2 ^ 8 + of_char c)"
  let ?u = "wrap32 (wrap32 (wrap32 (v * 256 + of_char a) * 256 + of_char b) * 256 + of_char c)"
  obtain out val valb where l: "base64_loop ?u (-6) s = (out, val, valb)" using prod_cases3 by blast
  then have "base64_loop v (-6) (a # b # c # s) = (?g @ out, val, valb)"
    by (simp only: base64_loop_group base64_digits [of a b c v] Let_def case_prod_conv append_Cons append_Nil)
  moreover have "length ?g = 4" by (simp add: base64_group_def)
  moreover have "base64_end (out, val, valb) = base64_spec s" using "4.IH" [of ?u] l by simp
  ultimately show ?case by (simp only: base64_end_group base64_spec.simps)
qed

text \<open>
  C30: The header for credentials codes exactly the bytes of the user name and the password, by the groups of three that the
  standard prescribes: the loop over bits, whose accumulator overflows after four bytes, computes the same text.
\<close>

theorem base64_standard: "make_basic_authentication_header user password is_proxy =
  (if is_proxy then ''Proxy-Authorization'' else ''Authorization'', ''Basic '' @ base64_spec (user @ '':'' @ password))"
  using base64_from [of 0 "user @ '':'' @ password"]
  by (simp add: make_basic_authentication_header_def base64_encode_def base64_end_def Let_def split_beta)

end
