(* ===== verification/HttpClient.thy ===== *)
theory HttpClient imports HttpClientText begin

text \<open>
  The client of \<open>httplib.h\<close>: \<open>ClientImpl\<close> with its settings and its connection, the request it writes, the response it
  reads, redirects, and the calls of its users.

  \<^item> The network is a record of functions: which servers accept a connection, and what the peer of a connection, with its
    own state, sends back for the text of a request. The client's end is the state of the peer with the bytes that are not
    yet read; when these end, the peer has closed its side. Writing succeeds.
  \<^item> One thread uses a client. Timeouts, socket options, compression, the logger and the functions for progress are left
    out; the makefile builds without TLS.
  \<^item> A content provider is a function from its arguments to what it writes into its sink and its result; a receiver of
    content decides from what it has already got.
\<close>

section \<open>The client\<close>

datatype Error = Success | Unknown | Connection | BindIPAddress | Read | Write | ExceedRedirectCount | Canceled |
  SSLConnection | SSLLoadingCerts | SSLServerVerification | UnsupportedMultipartBoundaryChars

record 'p network =
  nw_connect :: "string \<Rightarrow> int \<Rightarrow> Error + 'p"
  nw_peer :: "'p \<Rightarrow> string \<Rightarrow> string \<times> 'p"
  nw_writable :: "'p \<Rightarrow> bool"
  nw_recv :: "nat \<Rightarrow> nat"

text \<open>What \<open>copy_settings\<close> copies.\<close>

record client_settings =
  basic_auth_username :: string
  basic_auth_password :: string
  bearer_token_auth_token :: string
  keep_alive :: bool
  follow_location :: bool
  decompress :: bool
  proxy_host :: string
  proxy_port :: int
  proxy_basic_auth_username :: string
  proxy_basic_auth_password :: string
  proxy_bearer_token_auth_token :: string

record 'p client_impl =
  cl_host :: string
  cl_port :: int
  cl_socket :: "('p \<times> string) option"
  cl_error :: Error
  cl_default_headers :: multimap
  cl_settings :: client_settings

datatype provider =
    Sized nat "nat \<Rightarrow> nat \<Rightarrow> string list \<times> bool"
  | Unsized "nat \<Rightarrow> sink_op list \<times> bool"

record client_request =
  cr_method :: string
  cr_path :: string
  cr_headers :: multimap
  cr_body :: string
  cr_provider :: "provider option"
  cr_redirect_count :: nat
  cr_response_handler :: "(client_response \<Rightarrow> bool) option"
  cr_receiver :: "(string \<Rightarrow> string \<Rightarrow> bool) option"

definition show_int :: "int \<Rightarrow> string" where
  "show_int n = (if n < 0 then CHR ''-'' # decimal (nat (- n)) else decimal (nat n))"

definition host_and_port :: "'p client_impl \<Rightarrow> string" where
  "host_and_port c = cl_host c @ '':'' @ show_int (cl_port c)"

definition default_settings :: client_settings where
  "default_settings = \<lparr>basic_auth_username = [], basic_auth_password = [], bearer_token_auth_token = [], keep_alive = False,
     follow_location = False, decompress = True, proxy_host = [], proxy_port = -1, proxy_basic_auth_username = [],
     proxy_basic_auth_password = [], proxy_bearer_token_auth_token = []\<rparr>"

definition new_ClientImpl :: "string \<Rightarrow> int \<Rightarrow> 'p client_impl" where
  "new_ClientImpl host port = \<lparr>cl_host = host, cl_port = port, cl_socket = None, cl_error = Success, cl_default_headers = [],
     cl_settings = default_settings\<rparr>"

definition copy_settings :: "'p client_impl \<Rightarrow> 'p client_impl \<Rightarrow> 'p client_impl" where
  "copy_settings c rhs = c\<lparr>cl_settings := cl_settings rhs\<rparr>"

definition uses_proxy :: "'p client_impl \<Rightarrow> bool" where
  "uses_proxy c \<longleftrightarrow> proxy_host (cl_settings c) \<noteq> [] \<and> proxy_port (cl_settings c) \<noteq> -1"

definition client_close_socket :: "'p client_impl \<Rightarrow> 'p client_impl" where
  "client_close_socket c = c\<lparr>cl_socket := None\<rparr>"

text \<open>\<open>stop\<close>, while no request is under way.\<close>

definition client_stop :: "'p client_impl \<Rightarrow> 'p client_impl" where
  "client_stop c = client_close_socket (c\<lparr>cl_error := Canceled\<rparr>)"

definition is_socket_open :: "'p client_impl \<Rightarrow> bool" where
  "is_socket_open c \<longleftrightarrow> cl_socket c \<noteq> None"

definition create_client_socket :: "'p network \<Rightarrow> 'p client_impl \<Rightarrow> Error + 'p" where
  "create_client_socket net c =
     (if uses_proxy c then nw_connect net (proxy_host (cl_settings c)) (proxy_port (cl_settings c))
      else nw_connect net (cl_host c) (cl_port c))"

text \<open>The start of \<open>send\<close>: the open connection if one can write to it, else a new one.\<close>

definition connect_client :: "'p network \<Rightarrow> 'p client_impl \<Rightarrow> bool \<times> 'p client_impl" where
  "connect_client net c =
     (let is_alive = (case cl_socket c of None \<Rightarrow> False | Some (p, unread) \<Rightarrow> nw_writable net p)
      in if is_alive then (True, c)
         else (case create_client_socket net (client_close_socket c) of
                 Inl e \<Rightarrow> (False, (client_close_socket c)\<lparr>cl_error := e\<rparr>)
               | Inr p \<Rightarrow> (True, c\<lparr>cl_socket := Some (p, []), cl_error := Success\<rparr>)))"

section \<open>Writing a request\<close>

text \<open>
  The loops of \<open>write_content\<close> and \<open>write_content_chunked\<close>, which the client does not end from outside: \<open>None\<close> is a
  provider that never comes to an end.
\<close>

partial_function (option) write_sized ::
  "(nat \<Rightarrow> nat \<Rightarrow> string list \<times> bool) \<Rightarrow> nat \<Rightarrow> nat \<Rightarrow> string \<Rightarrow> (bool \<times> string) option" where
  "write_sized prov ofs end_ofs out =
     (if ofs < end_ofs then
        (let (ws, ok) = prov ofs (end_ofs - ofs)
         in if \<not> ok then Some (False, out @ concat ws)
            else write_sized prov (ofs + length (concat ws)) end_ofs (out @ concat ws))
      else Some (True, out))"

partial_function (option) write_unsized :: "(nat \<Rightarrow> sink_op list \<times> bool) \<Rightarrow> chunk_state \<Rightarrow> (bool \<times> string) option" where
  "write_unsized prov st =
     (if ck_available st then
        (let (ops, ok) = prov (ck_offset st)
         in if \<not> ok then Some (False, ck_out (fold sink_step ops st)) else write_unsized prov (fold sink_step ops st))
      else Some (True, ck_out st))"

text \<open>\<open>write_content_with_provider\<close>: whether it succeeded, and the text. Without a provider nothing is written.\<close>

definition write_content_with_provider :: "client_request \<Rightarrow> (bool \<times> string) option" where
  "write_content_with_provider req =
     (case cr_provider req of
        None \<Rightarrow> Some (True, [])
      | Some (Sized n prov) \<Rightarrow> write_sized prov 0 n []
      | Some (Unsized prov) \<Rightarrow> write_unsized prov \<lparr>ck_offset = 0, ck_available = True, ck_out = []\<rparr>)"

definition add_header :: "bool \<Rightarrow> string \<Rightarrow> string \<Rightarrow> multimap \<Rightarrow> multimap" where
  "add_header b k v hs = (if b then ci_emplace k v hs else hs)"

definition credential_headers :: "client_settings \<Rightarrow> multimap \<Rightarrow> multimap" where
  "credential_headers cs hs =
     (let ins = (\<lambda>b (k, v) hs. add_header b k v hs);
          hs = ins (basic_auth_password cs \<noteq> [])
            (make_basic_authentication_header (basic_auth_username cs) (basic_auth_password cs) False) hs;
          hs = ins (proxy_basic_auth_username cs \<noteq> [] \<and> proxy_basic_auth_password cs \<noteq> [])
            (make_basic_authentication_header (proxy_basic_auth_username cs) (proxy_basic_auth_password cs) True) hs;
          hs = ins (bearer_token_auth_token cs \<noteq> []) (make_bearer_token_authentication_header (bearer_token_auth_token cs) False) hs
      in ins (proxy_bearer_token_auth_token cs \<noteq> [])
           (make_bearer_token_authentication_header (proxy_bearer_token_auth_token cs) True) hs)"

text \<open>The additional headers of \<open>write_request\<close>.\<close>

definition additional_headers :: "'p client_impl \<Rightarrow> client_request \<Rightarrow> bool \<Rightarrow> multimap" where
  "additional_headers c req close_connection =
     (let has = headers_have (cr_headers req);
          hs = add_header close_connection ''Connection'' ''close'' [];
          hs = add_header (\<not> has ''Host'') ''Host'' (if cl_port c = 80 then cl_host c else host_and_port c) hs;
          hs = add_header (\<not> has ''Accept'') ''Accept'' ''*/*'' hs;
          hs = add_header (\<not> has ''User-Agent'') ''User-Agent'' ''cpp-httplib/0.7'' hs;
          hs = (if cr_body req = [] then
                  (case cr_provider req of
                     Some (Sized n prov) \<Rightarrow> ci_emplace ''Content-Length'' (decimal n) hs
                   | Some (Unsized prov) \<Rightarrow> hs
                   | None \<Rightarrow> add_header (cr_method req \<in> {''POST'', ''PUT'', ''PATCH''}) ''Content-Length'' ''0'' hs)
                else add_header (\<not> has ''Content-Length'') ''Content-Length'' (decimal (length (cr_body req)))
                  (add_header (\<not> has ''Content-Type'') ''Content-Type'' ''text/plain'' hs))
      in credential_headers (cl_settings c) hs)"

definition request_head :: "'p client_impl \<Rightarrow> client_request \<Rightarrow> bool \<Rightarrow> string" where
  "request_head c req close_connection =
     takeWhile (\<lambda>c. c \<noteq> CHR 0x00) (cr_method req) @ '' '' @ encode_url (cr_path req) @ '' HTTP/1.1'' @ crlf @
     concat (map header_line (filter (\<lambda>(k, v). k \<noteq> ''EXCEPTION_WHAT'') (cr_headers req))) @
     concat (map header_line (additional_headers c req close_connection)) @ crlf"

text \<open>\<open>write_request\<close>: whether it succeeded, the text, and the error that is set.\<close>

definition write_request :: "'p client_impl \<Rightarrow> client_request \<Rightarrow> bool \<Rightarrow> client_fault + bool \<times> string \<times> Error" where
  "write_request c req close_connection =
     (let head = request_head c req close_connection
      in if cr_body req = [] then
           (case write_content_with_provider req of
              None \<Rightarrow> Inl NoReturn
            | Some (ok, out) \<Rightarrow> Inr (ok, head @ out, if ok then Success else Canceled))
         else Inr (True, head @ cr_body req, cl_error c))"

section \<open>Reading a response\<close>

text \<open>
  The receiver: the bytes so far, and the error. Without a function of the user it appends to the body.
\<close>

definition response_receiver :: "client_request \<Rightarrow> (string \<times> Error) receiver" where
  "response_receiver req buf st =
     (let go = (case cr_receiver req of None \<Rightarrow> True | Some r \<Rightarrow> r (fst st) buf)
      in (go, (fst st @ buf, if go then snd st else Canceled)))"

definition without_coding :: "multimap \<Rightarrow> multimap" where
  "without_coding hs = filter (\<lambda>(k, v). \<not> ci_equal k ''Content-Encoding'') hs"

text \<open>
  The rest of \<open>process_request\<close>: success, the response, the bytes that the receiver of the user got, the error, and what
  is left of the input. \<open>dec\<close> is the setting \<open>decompress_\<close>, without which no coding is looked for.
\<close>

definition read_response ::
  "(nat \<Rightarrow> nat) \<Rightarrow> bool \<Rightarrow> client_request \<Rightarrow> string \<Rightarrow> Error \<Rightarrow> client_fault + bool \<times> client_response \<times> Error \<times> string" where
  "read_response recv dec req s err =
     (case read_response_line s new_client_response of
        Inl e \<Rightarrow> Inl e
      | Inr (False, res, s) \<Rightarrow> Inr (False, res, Read, s)
      | Inr (True, res, s) \<Rightarrow>
          (let (ok, hs, s) = read_headers s (cres_headers res); res = res\<lparr>cres_headers := hs\<rparr>
           in if \<not> ok then Inr (False, res, Read, s)
              else if (case cr_response_handler req of None \<Rightarrow> False | Some h \<Rightarrow> \<not> h res) then Inr (False, res, Canceled, s)
              else if cr_method req = ''HEAD'' \<or> cr_method req = ''CONNECT'' then Inr (True, res, err, s)
              else (let (ok, stat, (got, err), s) =
                      read_content recv ULONG_MAX (if dec then hs else without_coding hs) s (response_receiver req) 0 ([], err);
                        res = (if cr_receiver req = None then res\<lparr>cres_body := got\<rparr> else res)
                    in if ok then Inr (True, res, err, s)
                       else Inr (False, res, if err = Canceled then Canceled else Read, s))))"

definition client_process_request ::
  "'p network \<Rightarrow> 'p client_impl \<Rightarrow> client_request \<Rightarrow> bool \<Rightarrow> client_fault + bool \<times> client_response \<times> 'p client_impl" where
  "client_process_request net c req close_connection =
     (case cl_socket c of
        None \<Rightarrow> Inr (False, new_client_response, c\<lparr>cl_error := Write\<rparr>)
      | Some (p, unread) \<Rightarrow>
          (case write_request c req close_connection of
             Inl e \<Rightarrow> Inl e
           | Inr (ok, text, err) \<Rightarrow>
               (let (answer, p) = nw_peer net p text; c = c\<lparr>cl_error := err\<rparr>
                in if \<not> ok then Inr (False, new_client_response, c\<lparr>cl_socket := Some (p, unread @ answer)\<rparr>)
                   else (case read_response (nw_recv net) (decompress (cl_settings c)) req (unread @ answer) err of
                           Inl e \<Rightarrow> Inl e
                         | Inr (ok, res, err, rest) \<Rightarrow>
                             (let c = c\<lparr>cl_socket := Some (p, rest), cl_error := err\<rparr>
                              in if ok \<and> (get_header_value (cres_headers res) ''Connection'' 0 [] = ''close'' \<or>
                                   cres_version res = ''HTTP/1.0'' \<and> cres_reason res \<noteq> ''Connection established'')
                                 then Inr (ok, res, client_close_socket c) else Inr (ok, res, c))))))"

section \<open>Redirects\<close>

text \<open>\<open>detail::redirect\<close>: the request that follows a redirect. A content provider stays in it.\<close>

definition redirect_request :: "client_request \<Rightarrow> client_response \<Rightarrow> string \<Rightarrow> client_request" where
  "redirect_request req res p =
     (let new_req = req\<lparr>cr_path := p, cr_redirect_count := cr_redirect_count req - 1\<rparr>
      in if cres_status res = 303 \<and> cr_method req \<noteq> ''GET'' \<and> cr_method req \<noteq> ''HEAD''
         then new_req\<lparr>cr_method := ''GET'', cr_body := [], cr_headers := []\<rparr> else new_req)"

text \<open>
  \<open>ClientImpl::redirect\<close> up to the request: none, with the error that is left; one by the same client; one by a new client
  for another server, with the settings of this one.
\<close>

datatype 'p redirection = Refuse Error | Stay client_request string | Leave "'p client_impl" client_request string

definition redirect_target :: "'p client_impl \<Rightarrow> client_request \<Rightarrow> client_response \<Rightarrow> client_fault + 'p redirection" where
  "redirect_target c req res =
     (let loc = decode_url (get_header_value (cres_headers res) ''location'' 0 []) True
      in if cr_redirect_count req = 0 then Inr (Refuse ExceedRedirectCount)
         else if loc = [] then Inr (Refuse (cl_error c))
         else (case match_location loc of
                 None \<Rightarrow> Inr (Refuse (cl_error c))
               | Some (scheme, host, port_str, p) \<Rightarrow>
                   (case (if port_str \<noteq> [] then stoi_digits port_str
                          else Inr (if scheme \<noteq> [] then if scheme = ''https'' then 443 else 80 else cl_port c)) of
                      Inl e \<Rightarrow> Inl e
                    | Inr port \<Rightarrow>
                        (let scheme = (if scheme = [] then ''http'' else scheme);
                             host = (if host = [] then cl_host c else host);
                             new_req = redirect_request req res (if p = [] then ''/'' else p)
                         in if scheme = ''http'' \<and> host = cl_host c \<and> port = cl_port c then Inr (Stay new_req loc)
                            else if scheme = ''https'' then Inr (Refuse (cl_error c))
                            else Inr (Leave (copy_settings (new_ClientImpl host port) c) new_req loc)))))"

lemma redirect_target_count:
  "redirect_target c req res = Inr (Stay new_req loc) \<Longrightarrow> cr_redirect_count new_req < cr_redirect_count req"
  "redirect_target c req res = Inr (Leave cli new_req loc) \<Longrightarrow> cr_redirect_count new_req < cr_redirect_count req"
  by (auto simp: redirect_target_def redirect_request_def Let_def split: if_splits option.splits sum.splits)

section \<open>Sending\<close>

text \<open>\<open>handle_request\<close> up to the response.\<close>

definition client_exchange ::
  "'p network \<Rightarrow> 'p client_impl \<Rightarrow> client_request \<Rightarrow> bool \<Rightarrow> client_fault + bool \<times> client_response \<times> 'p client_impl" where
  "client_exchange net c req close_connection =
     (if cr_path req = [] then Inr (False, new_client_response, c\<lparr>cl_error := Connection\<rparr>)
      else client_process_request net c
        (if uses_proxy c then req\<lparr>cr_path := ''http://'' @ host_and_port c @ cr_path req\<rparr> else req) close_connection)"

text \<open>The end of \<open>send\<close>: the connection is closed unless it is kept, and a failure gets an error.\<close>

definition finish_send ::
  "bool \<Rightarrow> client_fault + bool \<times> client_response \<times> 'p client_impl \<Rightarrow> client_fault + bool \<times> client_response \<times> 'p client_impl" where
  "finish_send close_connection r =
     (case r of
        Inl e \<Rightarrow> Inl e
      | Inr (ret, res, c) \<Rightarrow>
          (let c = (if close_connection \<or> \<not> ret then client_close_socket c else c);
               c = (if \<not> ret \<and> cl_error c = Success then c\<lparr>cl_error := Unknown\<rparr> else c)
           in Inr (ret, res, c)))"

function client_send ::
  "'p network \<Rightarrow> 'p client_impl \<Rightarrow> client_request \<Rightarrow> client_fault + bool \<times> client_response \<times> 'p client_impl" where
  "client_send net c req =
     (case connect_client net c of
        (False, c) \<Rightarrow> Inr (False, new_client_response, c)
      | (True, c) \<Rightarrow>
          finish_send (\<not> keep_alive (cl_settings c))
            (case client_exchange net c req (\<not> keep_alive (cl_settings c)) of
               Inl e \<Rightarrow> Inl e
             | Inr (False, res, c) \<Rightarrow> Inr (False, res, c)
             | Inr (True, res, c) \<Rightarrow>
                 if 300 < cres_status res \<and> cres_status res < 400 \<and> follow_location (cl_settings c) then
                   (case redirect_target c req res of
                      Inl e \<Rightarrow> Inl e
                    | Inr (Refuse e) \<Rightarrow> Inr (False, res, c\<lparr>cl_error := e\<rparr>)
                    | Inr (Stay new_req loc) \<Rightarrow>
                        (case client_send net c new_req of
                           Inl e \<Rightarrow> Inl e
                         | Inr (ret, new_res, c) \<Rightarrow> Inr (ret, if ret then new_res\<lparr>cres_location := loc\<rparr> else res, c))
                    | Inr (Leave cli new_req loc) \<Rightarrow>
                        (case client_send net cli new_req of
                           Inl e \<Rightarrow> Inl e
                         | Inr (ret, new_res, cli) \<Rightarrow>
                             Inr (ret, if ret then new_res\<lparr>cres_location := loc\<rparr> else res,
                               if ret then c else c\<lparr>cl_error := cl_error cli\<rparr>)))
                 else Inr (True, res, c)))"
  by pat_completeness auto
termination
  by (relation "measure (\<lambda>(net, c, req). cr_redirect_count req)") (auto dest: redirect_target_count)

declare client_send.simps [simp del]

section \<open>The calls of users\<close>

text \<open>A result: the response if there is one, and the last error.\<close>

definition client_call ::
  "'p network \<Rightarrow> 'p client_impl \<Rightarrow> client_request \<Rightarrow> client_fault + client_response option \<times> Error \<times> 'p client_impl" where
  "client_call net c req =
     (case client_send net c req of
        Inl e \<Rightarrow> Inl e
      | Inr (ret, res, c) \<Rightarrow> Inr (if ret then Some res else None, cl_error c, c))"

definition REDIRECT_MAX_COUNT :: nat where "REDIRECT_MAX_COUNT = 20"

definition insert_headers :: "multimap \<Rightarrow> multimap \<Rightarrow> multimap" where
  "insert_headers hs new = foldl (\<lambda>m (k, v). ci_emplace k v m) hs new"

definition new_client_request :: "'p client_impl \<Rightarrow> string \<Rightarrow> string \<Rightarrow> multimap \<Rightarrow> client_request" where
  "new_client_request c meth p hs = \<lparr>cr_method = meth, cr_path = p, cr_headers = insert_headers (cl_default_headers c) hs,
     cr_body = [], cr_provider = None, cr_redirect_count = REDIRECT_MAX_COUNT, cr_response_handler = None, cr_receiver = None\<rparr>"

definition client_Get where
  "client_Get net c p hs = client_call net c (new_client_request c ''GET'' p hs)"

definition client_Get_receiver where
  "client_Get_receiver net c p hs response_handler content_receiver = client_call net c
     (new_client_request c ''GET'' p hs\<lparr>cr_response_handler := response_handler, cr_receiver := Some content_receiver\<rparr>)"

definition client_Head where
  "client_Head net c p hs = client_call net c (new_client_request c ''HEAD'' p hs)"

definition client_Options where
  "client_Options net c p hs = client_call net c (new_client_request c ''OPTIONS'' p hs)"

definition with_content_type :: "string option \<Rightarrow> client_request \<Rightarrow> client_request" where
  "with_content_type content_type req =
     (case content_type of None \<Rightarrow> req | Some t \<Rightarrow> req\<lparr>cr_headers := ci_emplace ''Content-Type'' t (cr_headers req)\<rparr>)"

definition client_Delete where
  "client_Delete net c p hs bd content_type =
     client_call net c ((with_content_type content_type (new_client_request c ''DELETE'' p hs))\<lparr>cr_body := bd\<rparr>)"

definition send_with_content_provider where
  "send_with_content_provider net c meth p hs bd prov content_type =
     (let req = with_content_type content_type (new_client_request c meth p hs)
      in client_call net c
        (case prov of
           None \<Rightarrow> req\<lparr>cr_body := bd\<rparr>
         | Some (Sized n f) \<Rightarrow> req\<lparr>cr_provider := prov\<rparr>
         | Some (Unsized f) \<Rightarrow>
             req\<lparr>cr_provider := prov, cr_headers := ci_emplace ''Transfer-Encoding'' ''chunked'' (cr_headers req)\<rparr>))"

definition client_Post where
  "client_Post net c p hs bd content_type = send_with_content_provider net c ''POST'' p hs bd None content_type"

definition client_Post_provider where
  "client_Post_provider net c p hs prov content_type = send_with_content_provider net c ''POST'' p hs [] (Some prov) content_type"

definition client_Post_params where
  "client_Post_params net c p hs ps =
     client_Post net c p hs (params_to_query_str ps) (Some ''application/x-www-form-urlencoded'')"

definition client_Post_items where
  "client_Post_items net c p hs items bnd =
     (case multipart_post items bnd of
        None \<Rightarrow> Inr (None, UnsupportedMultipartBoundaryChars, c\<lparr>cl_error := UnsupportedMultipartBoundaryChars\<rparr>)
      | Some (bd, content_type) \<Rightarrow> client_Post net c p hs bd (Some content_type))"

definition client_Put where
  "client_Put net c p hs bd content_type = send_with_content_provider net c ''PUT'' p hs bd None content_type"

definition client_Put_provider where
  "client_Put_provider net c p hs prov content_type = send_with_content_provider net c ''PUT'' p hs [] (Some prov) content_type"

definition client_Put_params where
  "client_Put_params net c p hs ps =
     client_Put net c p hs (params_to_query_str ps) (Some ''application/x-www-form-urlencoded'')"

definition client_Patch where
  "client_Patch net c p hs bd content_type = send_with_content_provider net c ''PATCH'' p hs bd None content_type"

definition client_Patch_provider where
  "client_Patch_provider net c p hs prov content_type =
     send_with_content_provider net c ''PATCH'' p hs [] (Some prov) content_type"

definition set_settings :: "(client_settings \<Rightarrow> client_settings) \<Rightarrow> 'p client_impl \<Rightarrow> 'p client_impl" where
  "set_settings f c = c\<lparr>cl_settings := f (cl_settings c)\<rparr>"

definition set_basic_auth where
  "set_basic_auth user pass = set_settings (\<lambda>s. s\<lparr>basic_auth_username := user, basic_auth_password := pass\<rparr>)"

definition set_bearer_token_auth where
  "set_bearer_token_auth token = set_settings (\<lambda>s. s\<lparr>bearer_token_auth_token := token\<rparr>)"

definition set_keep_alive where "set_keep_alive on = set_settings (\<lambda>s. s\<lparr>keep_alive := on\<rparr>)"

definition set_follow_location where "set_follow_location on = set_settings (\<lambda>s. s\<lparr>follow_location := on\<rparr>)"

definition set_decompress where "set_decompress on = set_settings (\<lambda>s. s\<lparr>decompress := on\<rparr>)"

definition set_default_headers :: "multimap \<Rightarrow> 'p client_impl \<Rightarrow> 'p client_impl" where
  "set_default_headers hs c = c\<lparr>cl_default_headers := hs\<rparr>"

definition set_proxy where
  "set_proxy host port = set_settings (\<lambda>s. s\<lparr>proxy_host := host, proxy_port := port\<rparr>)"

definition set_proxy_basic_auth where
  "set_proxy_basic_auth user pass = set_settings (\<lambda>s. s\<lparr>proxy_basic_auth_username := user, proxy_basic_auth_password := pass\<rparr>)"

definition set_proxy_bearer_token_auth where
  "set_proxy_bearer_token_auth token = set_settings (\<lambda>s. s\<lparr>proxy_bearer_token_auth_token := token\<rparr>)"

end
