(* ===== verification/HttpExchange.thy ===== *)
theory HttpExchange imports HttpClient begin

text \<open>
  The client of \<open>httplib.h\<close> with the server of the program: what the client reads of an answer, and whole sessions of
  searches over connections that are kept or not.
\<close>

section \<open>Receivers with more state\<close>

text \<open>A receiver that does the same on a part of its state leaves the rest of its state alone.\<close>

definition simulates :: "('b \<Rightarrow> 'a) \<Rightarrow> 'b receiver \<Rightarrow> 'a receiver \<Rightarrow> bool" where
  "simulates g out' out \<longleftrightarrow> (\<forall>buf st. map_prod id g (out' buf st) = out buf (g st))"

lemma simulatesD: "simulates g out' out \<Longrightarrow> out' buf st = (cont, st') \<Longrightarrow> out buf (g st) = (cont, g st')"
  by (metis id_apply map_prod_simp simulates_def)

definition on_state :: "('b \<Rightarrow> 'a) \<Rightarrow> bool \<times> 'b \<times> string \<Rightarrow> bool \<times> 'a \<times> string" where
  "on_state g = (\<lambda>(ok, st, rest). (ok, g st, rest))"

lemma read_with_length_sim:
  "simulates g out' out \<Longrightarrow>
   on_state g (read_content_with_length recv s n out' r st) = read_content_with_length recv s n out r (g st)"
proof (induction recv s n out' r st rule: read_content_with_length.induct)
  case (1 recv s n out' r st)
  obtain buf rest where b: "stream_read recv s (min (n - r) RECV_BUFSIZ) = (buf, rest)" by fastforce
  obtain cont st' where out': "out' buf st = (cont, st')" by fastforce
  note sim = simulatesD [OF "1.prems" out']
  show ?case
  proof (cases "r < n \<and> buf \<noteq> [] \<and> cont")
    case True
    then have "on_state g (read_content_with_length recv rest n out' (r + length buf) st') =
        read_content_with_length recv rest n out (r + length buf) (g st')"
      using "1.IH" [OF _ b [symmetric] refl _ out' [symmetric]] "1.prems" by simp
    then show ?thesis using True b sim out'
      by (subst (1 2) read_content_with_length.simps) (simp add: on_state_def)
  next
    case False
    then show ?thesis using b sim out' by (subst (1 2) read_content_with_length.simps) (auto simp: on_state_def split: if_splits)
  qed
qed

lemma read_without_length_sim:
  "simulates g out' out \<Longrightarrow>
   on_state g (read_content_without_length recv s out' st) = read_content_without_length recv s out (g st)"
proof (induction recv s out' st rule: read_content_without_length.induct)
  case (1 recv s out' st)
  obtain buf rest where b: "stream_read recv s RECV_BUFSIZ = (buf, rest)" by fastforce
  obtain cont st' where out': "out' buf st = (cont, st')" by fastforce
  note sim = simulatesD [OF "1.prems" out']
  show ?case
  proof (cases "buf \<noteq> [] \<and> cont")
    case True
    then have "on_state g (read_content_without_length recv rest out' st') = read_content_without_length recv rest out (g st')"
      using "1.IH" [OF b [symmetric] refl _ out' [symmetric]] "1.prems" by simp
    then show ?thesis using True b sim out' by (subst (1 2) read_content_without_length.simps) (simp add: on_state_def)
  next
    case False
    then show ?thesis using b sim out' by (subst (1 2) read_content_without_length.simps) (auto simp: on_state_def split: if_splits)
  qed
qed

lemma chunk_loop_sim:
  "simulates g out' out \<Longrightarrow> on_state g (chunk_loop recv line s out' st) = chunk_loop recv line s out (g st)"
proof (induction recv line s out' st rule: chunk_loop.induct)
  case (1 recv line s out' st)
  show ?case
  proof (cases "\<exists>n. strtoul16 line = Some n \<and> n \<noteq> ULONG_MAX \<and> n \<noteq> 0")
    case True
    then obtain n where n: "strtoul16 line = Some n" "n \<noteq> ULONG_MAX" "n \<noteq> 0" by blast
    obtain ok st' rest where r: "read_content_with_length recv s n out' 0 st = (ok, st', rest)" using prod_cases3 by blast
    then have r': "read_content_with_length recv s n out 0 (g st) = (ok, g st', rest)"
      using read_with_length_sim [OF "1.prems", of recv s n 0 st] by (simp add: on_state_def)
    show ?thesis
    proof (cases "ok \<and> (\<exists>l t l' t'. stream_getline rest = Some (l, t) \<and> is_crlf l \<and> stream_getline t = Some (l', t'))")
      case True
      then obtain l t l' t' where g: "stream_getline rest = Some (l, t)" "is_crlf l" "stream_getline t = Some (l', t')" and ok by blast
      then have "on_state g (chunk_loop recv l' t' out' st') = chunk_loop recv l' t' out (g st')"
        using "1.IH" [of n ok "(st', rest)" st' rest "(l, t)" l t "(l', t')" l' t'] n r "1.prems" by simp
      then show ?thesis using n r r' g \<open>ok\<close> by (subst (1 2) chunk_loop.simps) simp
    next
      case False
      then show ?thesis using n r r'
        by (subst (1 2) chunk_loop.simps) (auto simp: on_state_def split: option.splits bool.splits)
    qed
  next
    case False
    then show ?thesis by (subst (1 2) chunk_loop.simps) (auto simp: on_state_def split: option.splits)
  qed
qed

definition read_body :: "(nat \<Rightarrow> nat) \<Rightarrow> multimap \<Rightarrow> string \<Rightarrow> 'a receiver \<Rightarrow> 'a \<Rightarrow> bool \<times> 'a \<times> string" where
  "read_body recv hs s out st =
     (if is_chunked_transfer_encoding hs then read_content_chunked recv s out st
      else if \<not> headers_have hs ''Content-Length'' then read_content_without_length recv s out st
      else if content_length hs > 0 then read_content_with_length recv s (content_length hs) out 0 st
      else (True, st, s))"

lemma read_content_body:
  "read_content recv limit hs s out stat st =
     (if coded_content hs then (False, 415, st, s)
      else if \<not> is_chunked_transfer_encoding hs \<and> headers_have hs ''Content-Length'' \<and> content_length hs > limit
        then (False, 413, st, skip_content_with_length recv s (content_length hs) 0)
      else (let (ok, st, rest) = read_body recv hs s out st in (ok, if ok then stat else 400, st, rest)))"
  by (simp only: read_content_def read_body_def)

lemma read_content_sim:
  assumes "simulates g out' out"
  shows "(let (ok, stat, st, rest) = read_content recv limit hs s out' stat st in (ok, stat, g st, rest)) =
    read_content recv limit hs s out stat (g st)"
proof -
  have "on_state g (read_body recv hs s out' st) = read_body recv hs s out (g st)"
    using read_with_length_sim [OF assms] read_without_length_sim [OF assms] chunk_loop_sim [OF assms]
    by (auto simp: read_body_def read_content_chunked_def on_state_def split: option.split)
  moreover obtain ok st' rest where r: "read_body recv hs s out' st = (ok, st', rest)" using prod_cases3 by blast
  ultimately have "read_body recv hs s out (g st) = (ok, g st', rest)" by (simp add: on_state_def)
  with r show ?thesis by (simp add: read_content_body)
qed

text \<open>The receiver of a client without a function of the user reads as the server does.\<close>

lemma response_receiver_append: "cr_receiver req = None \<Longrightarrow> simulates (\<lambda>bd. (bd, err)) append_to (response_receiver req)"
  by (simp add: simulates_def response_receiver_def append_to_def)

lemma read_content_response:
  "cr_receiver req = None \<Longrightarrow> read_content recv limit hs s (response_receiver req) stat ([], err) =
    (let (ok, stat, bd, rest) = read_content recv limit hs s append_to stat [] in (ok, stat, (bd, err), rest))"
  using read_content_sim [OF response_receiver_append, where recv = recv and st = "[]"] by simp

section \<open>What a client reads of an answer\<close>

lemma digits_value_map:
  "\<forall>c \<in> set ds. is_digit c \<Longrightarrow> int (foldl (\<lambda>v d. 10 * v + d) v (map (\<lambda>c. of_char c - 48) ds)) = digits_value (int v) ds"
proof (induction ds arbitrary: v)
  case (Cons c ds)
  then have "48 \<le> (of_char c :: nat)" by (simp add: is_digit_def)
  then have "int (10 * v + (of_char c - 48)) = 10 * int v + (of_char c - 48)" by (simp add: of_nat_diff of_nat_of_char)
  with Cons show ?case by simp
qed simp

lemma takeWhile_decimal: "(\<forall>c. s \<noteq> [] \<and> hd s = c \<longrightarrow> \<not> is_digit c) \<Longrightarrow> takeWhile is_digit (decimal n @ s) = decimal n"
  using decimal_digits by (cases s) (auto simp: takeWhile_append2 takeWhile_eq_all_conv [THEN iffD2])

lemma strtoull10_decimal: "n \<le> ULONG_MAX \<Longrightarrow> strtoull10 (decimal n) = n"
proof -
  obtain c ds where d: "decimal n = c # ds" by (cases "decimal n") auto
  then have "is_digit c" using decimal_digits [of c n] by simp
  then have c: "\<not> is_space c" "c \<noteq> CHR ''-''" "c \<noteq> CHR ''+''" by (auto simp: is_digit_def is_space_def)
  have "takeWhile is_digit (decimal n) = decimal n" using takeWhile_decimal [of "[]" n] by simp
  then have "digits10 (decimal n) = map (\<lambda>c. of_char c - 48) (decimal n)" unfolding digits10_def by (rule arg_cong)
  moreover have "foldl (\<lambda>v d. 10 * v + d) 0 (map (\<lambda>c. of_char c - 48) (decimal n)) = n"
    using digits_value_map [of "decimal n" 0] decimal_digits digits_value_decimal [of n] by auto
  moreover have "dropWhile is_space (decimal n) = decimal n" using c by (simp add: d)
  ultimately show "n \<le> ULONG_MAX \<Longrightarrow> strtoull10 (decimal n) = n"
    using c by (simp add: strtoull10_def strtoul_of_def Let_def) (simp add: d)
qed

lemma status_message_plain: "set (status_message stat) \<inter> {CHR 0x00, CHR 13, CHR 10} = {}"
proof -
  have "list_all (\<lambda>(k, m). CHR 0x00 \<notin> set m \<and> CHR 13 \<notin> set m \<and> CHR 10 \<notin> set m) status_table" by code_simp
  then show ?thesis
    by (cases "map_of status_table stat") (auto simp: status_message_def list_all_iff dest!: map_of_SomeD)
qed

lemma read_status_line:
  assumes "0 \<le> stat" and "stat \<le> INT_MAX" and "stat \<noteq> 100"
  shows "read_response_line (status_line stat @ s) res =
    Inr (True, res\<lparr>cres_version := ''HTTP/1.1'', cres_status := stat, cres_reason := status_message stat\<rparr>, s)"
proof -
  let ?n = "decimal (nat stat)" and ?m = "status_message stat"
  let ?l = "''HTTP/1.1 '' @ ?n @ '' '' @ ?m @ crlf"
  have l: "CHR 10 \<notin> set (''HTTP/1.1 '' @ ?n @ '' '' @ ?m)" "CHR 0x00 \<notin> set ?l"
    using decimal_plain [of "nat stat"] status_message_plain [of stat] by auto
  then have g: "stream_getline (status_line stat @ s) = Some (?l, s)"
    using getline_crlf [OF l(1), of s] by (simp add: status_line_def)
  have t: "takeWhile (\<lambda>c. c \<noteq> CHR 0x00) ?l = ?l" using l(2) by (intro takeWhile_eq_all_conv [THEN iffD2]) auto
  have d: "takeWhile is_digit (?n @ '' '' @ ?m @ crlf) = ?n" by (intro takeWhile_decimal) (simp add: is_digit_def)
  have nine: "drop 9 ?l = ?n @ '' '' @ ?m @ crlf" by simp
  have "drop (9 + length ?n) ?l = drop (length ?n) (drop 9 ?l)" by (simp only: drop_drop add.commute)
  also have "\<dots> = '' '' @ ?m @ crlf" by (simp only: nine) simp
  finally have "drop (9 + length ?n) ?l = '' '' @ ?m @ crlf" .
  moreover have "take 9 ?l = ''HTTP/1.1 ''" "take 8 ?l = ''HTTP/1.1''" by simp_all
  moreover note nine
  ultimately have "match_response_line ?l = Some (''HTTP/1.1'', ?n, ?m)"
    using status_message_plain [of stat] unfolding match_response_line_def t Let_def by (simp only: d) simp
  moreover have "stoi_digits ?n = Inr stat" using assms(1,2) by (simp add: stoi_digits_def digits_value_decimal)
  ultimately show ?thesis using assms(3)
    by (simp add: read_response_line_def g take_status_def) (subst skip_continue.simps, simp)
qed

lemma get_header_value_without_coding:
  "\<not> ci_equal key ''Content-Encoding'' \<Longrightarrow> get_header_value (without_coding hs) key i def = get_header_value hs key i def"
  "\<not> ci_equal key ''Content-Encoding'' \<Longrightarrow> headers_have (without_coding hs) key = headers_have hs key"
proof -
  assume k: "\<not> ci_equal key ''Content-Encoding''"
  then have "\<not> ci_equal k ''Content-Encoding''" if "ci_equal k key" for k using that by (simp add: ci_equal_def)
  then have "filter (\<lambda>(k, v). ci_equal k key) (without_coding hs) = filter (\<lambda>(k, v). ci_equal k key) hs"
    unfolding without_coding_def filter_filter by (intro filter_cong) auto
  moreover have "headers_have hs key \<longleftrightarrow> filter (\<lambda>(k, v). ci_equal k key) hs \<noteq> []" for hs
    by (auto simp: headers_have_def list_ex_iff filter_empty_conv)
  ultimately show "get_header_value (without_coding hs) key i def = get_header_value hs key i def"
    "headers_have (without_coding hs) key = headers_have hs key"
    by (simp_all add: get_header_value_def)
qed

text \<open>The headers with which a body of a known length is read in one way, whatever the setting for decompression.\<close>

definition plain_length :: "multimap \<Rightarrow> nat \<Rightarrow> bool" where
  "plain_length hs n \<longleftrightarrow> n \<le> ULONG_MAX \<and> headers_have hs ''Content-Length'' \<and>
     get_header_value hs ''Content-Length'' 0 [] = decimal n \<and> \<not> is_chunked_transfer_encoding hs \<and> \<not> coded_content hs"

lemma plain_length_content: "plain_length hs n \<Longrightarrow> content_length hs = n"
  by (simp add: plain_length_def content_length_def strtoull10_decimal)

lemma plain_length_without_coding: "plain_length hs n \<Longrightarrow> plain_length (without_coding hs) n"
proof -
  have n: "\<not> ci_equal ''Content-Length'' ''Content-Encoding''" "\<not> ci_equal ''Transfer-Encoding'' ''Content-Encoding''" by code_simp+
  have "get_header_value (without_coding hs) ''Content-Encoding'' 0 [] = []"
    using header_absent [of "without_coding hs"] by (auto simp: without_coding_def)
  moreover have "find_str [] ''gzip'' = None" "find_str [] ''deflate'' = None" "find_str [] ''br'' = None" by code_simp+
  ultimately have "\<not> coded_content (without_coding hs)" by (simp add: coded_content_def)
  then show "plain_length hs n \<Longrightarrow> plain_length (without_coding hs) n"
    using n by (simp add: plain_length_def is_chunked_transfer_encoding_def get_header_value_without_coding)
qed

lemma read_content_plain:
  assumes "plain_length hs (length bd)"
  shows "read_content recv ULONG_MAX hs (bd @ s) append_to stat [] = (True, stat, bd, s)"
  using assms plain_length_content [OF assms] by (auto simp: plain_length_def read_content_def read_with_length_app)

text \<open>An answer with any content that is read in one way, whatever the setting for decompression.\<close>

definition reads_content :: "multimap \<Rightarrow> string \<Rightarrow> string \<Rightarrow> bool" where
  "reads_content hs text bd \<longleftrightarrow> (\<forall>recv dec rest.
     read_content recv ULONG_MAX (if dec then hs else without_coding hs) (text @ rest) append_to 0 [] = (True, 0, bd, rest))"

lemma read_any_answer:
  assumes "0 \<le> stat" and "stat \<le> INT_MAX" and "stat \<noteq> 100"
    and "\<forall>h \<in> set hs. header_safe h" and "sorted (map (\<lambda>(k, v). map tolower k) hs)" and "reads_content hs text bd"
    and "cr_receiver req = None" and "cr_response_handler req = None" and "cr_method req \<notin> {''HEAD'', ''CONNECT''}"
  shows "read_response recv dec req (status_line stat @ write_headers hs @ text @ s) err =
    Inr (True, \<lparr>cres_version = ''HTTP/1.1'', cres_status = stat, cres_reason = status_message stat, cres_headers = hs,
      cres_body = bd, cres_location = []\<rparr>, err, s)"
proof -
  have "read_content recv ULONG_MAX (if dec then hs else without_coding hs) (text @ s) (response_receiver req) 0 ([], err) =
      (True, 0, (bd, err), s)"
    using assms(6) by (simp add: read_content_response [OF assms(7)] reads_content_def)
  moreover have "read_headers (write_headers hs @ text @ s) [] = (True, hs, s')" if "s' = text @ s" for s'
    using assms(4,5) that by (simp add: read_headers_written ci_emplace_sorted)
  ultimately show ?thesis using assms(7-9)
    by (simp add: read_response_def read_status_line [OF assms(1-3)] new_client_response_def Let_def)
qed

lemma reads_plain: "plain_length hs (length bd) \<Longrightarrow> reads_content hs bd bd"
  using plain_length_without_coding by (simp add: reads_content_def read_content_plain)

lemma read_answer:
  assumes "0 \<le> stat" and "stat \<le> INT_MAX" and "stat \<noteq> 100"
    and "\<forall>h \<in> set hs. header_safe h" and "sorted (map (\<lambda>(k, v). map tolower k) hs)" and "plain_length hs (length bd)"
    and "cr_receiver req = None" and "cr_response_handler req = None" and "cr_method req \<notin> {''HEAD'', ''CONNECT''}"
  shows "read_response recv dec req (status_line stat @ write_headers hs @ bd @ s) err =
    Inr (True, \<lparr>cres_version = ''HTTP/1.1'', cres_status = stat, cres_reason = status_message stat, cres_headers = hs,
      cres_body = bd, cres_location = []\<rparr>, err, s)"
  using assms by (intro read_any_answer reads_plain)



section \<open>Sessions\<close>

text \<open>
  A server as the peer of a connection: its state is the number of requests that it still takes there,
  as in the loop of \<open>process_server_socket_core\<close>. It answers a request when it has come as a whole.
\<close>

definition peer_of :: "(bool \<Rightarrow> string \<Rightarrow> 'e + bool \<times> bool \<times> string \<times> string) \<Rightarrow> nat \<Rightarrow> string \<Rightarrow> string \<times> nat" where
  "peer_of process n text =
     (if n = 0 then ([], 0)
      else (case process (n = 1) text of
              Inl e \<Rightarrow> ([], 0)
            | Inr (ret, closes, out, rest) \<Rightarrow> (out, if \<not> ret \<or> closes then 0 else n - 1)))"

definition server_peer :: "http_env \<Rightarrow> filesystem \<Rightarrow> Server \<Rightarrow> nat \<Rightarrow> string \<Rightarrow> string \<times> nat" where
  "server_peer he fs svr = peer_of (process_request he fs svr)"

definition server_network :: "http_env \<Rightarrow> filesystem \<Rightarrow> Server \<Rightarrow> (nat \<Rightarrow> nat) \<Rightarrow> string \<Rightarrow> int \<Rightarrow> nat network" where
  "server_network he fs svr recv host port =
     \<lparr>nw_connect = (\<lambda>h p. if h = host \<and> p = port then Inr (he_keep_alive_max he) else Inl Connection),
      nw_peer = server_peer he fs svr, nw_writable = (\<lambda>n. True), nw_recv = recv\<rparr>"

fun client_Gets :: "'p network \<Rightarrow> 'p client_impl \<Rightarrow> string list \<Rightarrow> client_fault + client_response option list \<times> 'p client_impl" where
  "client_Gets net c [] = Inr ([], c)"
| "client_Gets net c (p # ps) =
     (case client_Get net c p [] of
        Inl e \<Rightarrow> Inl e
      | Inr (res, err, c) \<Rightarrow> (case client_Gets net c ps of Inl e \<Rightarrow> Inl e | Inr (rs, c) \<Rightarrow> Inr (res # rs, c)))"

text \<open>A client without credentials, proxy and default headers.\<close>

definition host_header :: "'p client_impl \<Rightarrow> string" where
  "host_header c = (if cl_port c = 80 then cl_host c else host_and_port c)"

definition plain_client :: "'p client_impl \<Rightarrow> bool" where
  "plain_client c \<longleftrightarrow> cl_default_headers c = [] \<and> \<not> uses_proxy c \<and> basic_auth_password (cl_settings c) = [] \<and>
     proxy_basic_auth_password (cl_settings c) = [] \<and> bearer_token_auth_token (cl_settings c) = [] \<and>
     proxy_bearer_token_auth_token (cl_settings c) = [] \<and> header_safe (''Host'', host_header c)"

definition client_headers :: "string \<Rightarrow> bool \<Rightarrow> multimap" where
  "client_headers host closing = (''Accept'', ''*/*'') # (if closing then [(''Connection'', ''close'')] else []) @
     [(''Host'', host), (''User-Agent'', ''cpp-httplib/0.7'')]"

lemma client_header_order:
  "map tolower ''Accept'' \<le> map tolower ''Connection''" "map tolower ''Accept'' \<le> map tolower ''Host''"
  "map tolower ''Connection'' \<le> map tolower ''Host''" "\<not> map tolower ''Connection'' \<le> map tolower ''Accept''"
  "\<not> map tolower ''Host'' \<le> map tolower ''Accept''" "map tolower ''Accept'' \<le> map tolower ''User-Agent''"
  "map tolower ''Connection'' \<le> map tolower ''User-Agent''" "map tolower ''Host'' \<le> map tolower ''User-Agent''"
  by code_simp+

lemma ci_emplace_steps:
  "map tolower k' \<le> map tolower k \<Longrightarrow> ci_emplace k v ((k', v') # m) = (k', v') # ci_emplace k v m"
  "\<not> map tolower k' \<le> map tolower k \<Longrightarrow> ci_emplace k v ((k', v') # m) = (k, v) # (k', v') # m"
  "ci_emplace k v [] = [(k, v)]"
  by (simp_all add: ci_emplace_def)

lemma additional_headers_get:
  assumes "plain_client c"
  shows "additional_headers c (new_client_request c ''GET'' p []) closing = client_headers (host_header c) closing"
  using assms
  by (cases closing)
    (simp_all add: additional_headers_def new_client_request_def plain_client_def insert_headers_def headers_have_def
      add_header_def credential_headers_def client_headers_def host_header_def ci_emplace_steps client_header_order
      del: list.map)

lemma client_headers_ok:
  assumes "header_safe (''Host'', host)"
  shows "\<forall>h \<in> set (client_headers host closing). header_safe h \<and> \<not> ci_equal (fst h) ''Range'' \<and> \<not> ci_equal (fst h) ''Expect''"
    and "foldl (\<lambda>m (k, v). ci_emplace k v m) [] (client_headers host closing) = client_headers host closing"
    and "get_header_value (client_headers host closing) ''Connection'' 0 [] = (if closing then ''close'' else [])"
proof -
  have "header_safe (''Accept'', ''*/*'')" "header_safe (''Connection'', ''close'')" "header_safe (''User-Agent'', ''cpp-httplib/0.7'')"
    by code_simp+
  moreover have "list_all (\<lambda>k. \<not> ci_equal k ''Range'' \<and> \<not> ci_equal k ''Expect'') [''Accept'', ''Connection'', ''Host'', ''User-Agent'']"
    by code_simp
  ultimately show "\<forall>h \<in> set (client_headers host closing). header_safe h \<and> \<not> ci_equal (fst h) ''Range'' \<and> \<not> ci_equal (fst h) ''Expect''"
    using assms by (auto simp: client_headers_def)
  show "foldl (\<lambda>m (k, v). ci_emplace k v m) [] (client_headers host closing) = client_headers host closing"
    by (cases closing) (simp_all add: client_headers_def ci_emplace_steps client_header_order del: list.map)
  show "get_header_value (client_headers host closing) ''Connection'' 0 [] = (if closing then ''close'' else [])"
  proof -
    have "ci_equal ''Connection'' ''Connection''" "\<not> ci_equal ''Accept'' ''Connection''" "\<not> ci_equal ''Host'' ''Connection''"
      "\<not> ci_equal ''User-Agent'' ''Connection''" by code_simp+
    then show ?thesis by (simp add: client_headers_def get_header_value_def)
  qed
qed

definition searchable :: "string \<Rightarrow> bool" where
  "searchable q \<longleftrightarrow> query_safe (''word'', q) \<and> length (encode_url q) \<le> 8000"

lemma searchable_wf: "searchable q \<Longrightarrow> header_safe (''Host'', host) \<Longrightarrow> get_wf (''/s'', [(''word'', q)], client_headers host closing)"
  using client_headers_ok(1) [of host closing]
  by (auto simp: get_wf_def searchable_def get_line_def REQUEST_URI_MAX_LENGTH_def)

lemma get_connection_client: "get_connection (p, ps, client_headers host closing) = (if closing then ''close'' else [])"
  if "header_safe (''Host'', host)"
  using client_headers_ok(2,3) [OF that] by (simp add: get_connection_def)

lemma write_request_get:
  assumes "plain_client c" and "CHR 0x00 \<notin> set q"
  shows "write_request c (new_client_request c ''GET'' (''/s?word='' @ q) []) closing =
    Inr (True, get_text (''/s'', [(''word'', q)], client_headers (host_header c) closing), Success)"
proof -
  have "header_safe (''Host'', host_header c)" using assms(1) by (simp add: plain_client_def)
  from client_headers_ok(1) [OF this, of closing]
  have f: "filter (\<lambda>(k, v). k \<noteq> ''EXCEPTION_WHAT'') (client_headers (host_header c) closing) = client_headers (host_header c) closing"
    by (intro filter_True) (auto simp: header_safe_def)
  have "encode_url (''/s?word='' @ q) = ''/s?word='' @ encode_url q" by (simp add: encode_url_def encode_char_def)
  then have "request_head c (new_client_request c ''GET'' (''/s?word='' @ q) []) closing =
      get_text (''/s'', [(''word'', q)], client_headers (host_header c) closing)"
    using assms(1)
    by (simp add: request_head_def additional_headers_get get_text_def get_line_def write_headers_def f)
      (simp add: new_client_request_def plain_client_def insert_headers_def)
  then show ?thesis by (simp add: write_request_def) (simp add: new_client_request_def write_content_with_provider_def)
qed

text \<open>The headers of an answer to a search, as the client reads them.\<close>

lemma search_headers_ok:
  assumes "length json \<le> ULONG_MAX"
  shows "\<forall>h \<in> set (search_headers he closing json). header_safe h"
    and "sorted (map (\<lambda>(k, v). map tolower k) (search_headers he closing json))"
    and "plain_length (search_headers he closing json) (length json)"
    and "get_header_value (search_headers he closing json) ''Connection'' 0 [] = (if closing then ''close'' else [])"
proof -
  let ?hs = "search_headers he closing json"
  have d: "set (decimal n) \<inter> {CHR 10, CHR 0x00, CHR ''%'', CHR '' '', CHR 9} = {}" for n
    using decimal_digits [of _ n] by (force simp: is_digit_def)
  have b: "\<not> is_space_or_tab c" if "is_digit c" for c using that by (auto simp: is_digit_def is_space_or_tab_def)
  have e: "\<not> is_space_or_tab (hd (decimal n))" "\<not> is_space_or_tab (last (decimal n))" for n
    by (simp_all add: b decimal_digits [of _ n])
  show "\<forall>h \<in> set ?hs. header_safe h"
  proof -
    have "header_safe (''Connection'', ''close'')" "header_safe (''Content-Type'', ''application/json'')" by code_simp+
    moreover have "header_safe (''Content-Length'', decimal n)" for n
      using d [of n] e [of n] by (simp add: header_safe_def)
    moreover have "header_safe (''Keep-Alive'', ''timeout='' @ decimal n @ '', max='' @ decimal m)" for n m
      using d [of n] d [of m] e [of m] by (simp add: header_safe_def is_space_or_tab_def)
    ultimately show ?thesis unfolding search_headers_def by (cases closing) (simp_all only: if_True if_False list.set ball_simps simp_thms)
  qed
  have "map (\<lambda>(k, v). map tolower k) ?hs = (if closing then map (map tolower) [''Connection'', ''Content-Length'', ''Content-Type'']
      else map (map tolower) [''Content-Length'', ''Content-Type'', ''Keep-Alive''])" by (simp add: search_headers_def)
  moreover have "sorted (map (map tolower) [''Connection'', ''Content-Length'', ''Content-Type''])"
    "sorted (map (map tolower) [''Content-Length'', ''Content-Type'', ''Keep-Alive''])" by code_simp+
  ultimately show "sorted (map (\<lambda>(k, v). map tolower k) ?hs)" by (cases closing) (simp_all only: if_True if_False simp_thms)
  have "get_header_value ?hs ''Content-Length'' 0 [] = decimal (length json)" "headers_have ?hs ''Content-Length''"
    "get_header_value ?hs ''Transfer-Encoding'' 0 [] = []" "get_header_value ?hs ''Content-Encoding'' 0 [] = []"
    by (simp_all add: search_headers_def get_header_value_def headers_have_def ci_equal_def no_zero_decimal)
  moreover have "find_str [] ''gzip'' = None" "find_str [] ''deflate'' = None" "find_str [] ''br'' = None" by code_simp+
  ultimately show "plain_length ?hs (length json)" using assms
    by (simp add: plain_length_def is_chunked_transfer_encoding_def coded_content_def) (simp add: ci_equal_def)
  show "get_header_value ?hs ''Connection'' 0 [] = (if closing then ''close'' else [])"
  proof -
    have "ci_equal ''Connection'' ''Connection''" "\<not> ci_equal ''Content-Length'' ''Connection''"
      "\<not> ci_equal ''Content-Type'' ''Connection''" "\<not> ci_equal ''Keep-Alive'' ''Connection''" by code_simp+
    then show ?thesis by (simp add: search_headers_def get_header_value_def)
  qed
qed

text \<open>Between two calls the client has no connection, or one on which the server takes more requests and nothing is left to read.\<close>

definition session_ok :: "string \<Rightarrow> int \<Rightarrow> nat client_impl \<Rightarrow> bool" where
  "session_ok host port c \<longleftrightarrow> plain_client c \<and> cl_host c = host \<and> cl_port c = port \<and>
     (\<forall>n unread. cl_socket c = Some (n, unread) \<longrightarrow> 0 < n \<and> unread = [])"

lemma plain_client_update [simp]:
  "plain_client (c\<lparr>cl_socket := x\<rparr>) = plain_client c" "plain_client (c\<lparr>cl_error := e\<rparr>) = plain_client c"
  "host_header (c\<lparr>cl_socket := x\<rparr>) = host_header c" "host_header (c\<lparr>cl_error := e\<rparr>) = host_header c"
  "uses_proxy (c\<lparr>cl_socket := x\<rparr>) = uses_proxy c" "uses_proxy (c\<lparr>cl_error := e\<rparr>) = uses_proxy c"
  by (simp_all add: plain_client_def host_header_def host_and_port_def uses_proxy_def)

lemma session_ok_update:
  "session_ok host port c \<Longrightarrow> 0 < n \<Longrightarrow> session_ok host port (c\<lparr>cl_socket := Some (n, [])\<rparr>)"
  "session_ok host port c \<Longrightarrow> session_ok host port (c\<lparr>cl_socket := None\<rparr>)"
  "session_ok host port (c\<lparr>cl_error := e\<rparr>) = session_ok host port c"
  by (simp_all add: session_ok_def)

lemma connect_session:
  assumes "session_ok host port c" and "0 < he_keep_alive_max he"
  shows "\<exists>n e. 0 < n \<and> connect_client (server_network he fs svr recv host port) c = (True, c\<lparr>cl_socket := Some (n, []), cl_error := e\<rparr>)"
proof (cases "cl_socket c")
  case None
  then have "connect_client (server_network he fs svr recv host port) c =
      (True, c\<lparr>cl_socket := Some (he_keep_alive_max he, []), cl_error := Success\<rparr>)"
    using assms(1)
    by (simp add: connect_client_def create_client_socket_def client_close_socket_def uses_proxy_def session_ok_def
        plain_client_def server_network_def)
  with assms(2) show ?thesis by blast
next
  case (Some u)
  then obtain n where n: "cl_socket c = Some (n, [])" "0 < n" using assms(1) by (cases u) (auto simp: session_ok_def)
  then have "c = c\<lparr>cl_socket := Some (n, []), cl_error := cl_error c\<rparr>" by (cases c) simp
  then have "connect_client (server_network he fs svr recv host port) c = (True, c\<lparr>cl_socket := Some (n, []), cl_error := cl_error c\<rparr>)"
    using n by (simp add: connect_client_def server_network_def)
  with n(2) show ?thesis by blast
qed

text \<open>What the server answers to the request of a client, and what the client reads of it.\<close>

definition search_read :: "http_env \<Rightarrow> bool \<Rightarrow> string \<Rightarrow> client_response" where
  "search_read he closing json = \<lparr>cres_version = ''HTTP/1.1'', cres_status = 200, cres_reason = ''OK'',
     cres_headers = search_headers he closing json, cres_body = json, cres_location = []\<rparr>"

lemma process_request_search:
  assumes ok: "session_ok host port c" and c: "cl_socket c = Some (n, [])" "0 < n" and q: "searchable q"
    and s: "fs ''./wwwRoot/s'' = None" "search en ix q = Inr json" "json \<noteq> []" "length json \<le> ULONG_MAX" "\<not> he_fd_too_big he"
    and req: "req = new_client_request c ''GET'' (''/s?word='' @ q) []"
  shows "\<exists>c'. client_process_request (server_network he fs (program_server is_dir en ix) recv host port) c req closing =
      Inr (True, search_read he (n = 1 \<or> closing) json, c') \<and> session_ok host port (client_close_socket c') \<and>
      (\<not> closing \<longrightarrow> session_ok host port c') \<and> cl_settings c' = cl_settings c"
proof -
  let ?hs = "client_headers (host_header c) closing" and ?svr = "program_server is_dir en ix"
  let ?text = "get_text (''/s'', [(''word'', q)], ?hs)"
  let ?answer = "status_line 200 @ write_headers (search_headers he (n = 1 \<or> closing) json) @ json"
  have pc: "plain_client c" and hs: "header_safe (''Host'', host_header c)"
    using ok by (simp_all add: session_ok_def plain_client_def)
  have "process_request he fs ?svr (n = 1) (?text @ []) = Inr (True, closing, ?answer, [])"
    using process_search [of q ?hs fs en ix json he is_dir "n = 1" "[]"] searchable_wf [OF q hs] s get_connection_client [OF hs] by simp
  then have peer: "server_peer he fs ?svr n ?text = (?answer, if closing then 0 else n - 1)"
    using c(2) by (simp add: server_peer_def peer_of_def)
  have "CHR 0x00 \<notin> set q" using q by (auto simp: searchable_def query_safe_def)
  then have w: "write_request c req closing = Inr (True, ?text, Success)" unfolding req by (rule write_request_get [OF pc])
  have "status_message 200 = ''OK''" by code_simp
  then have r: "read_response recv dec req ?answer Success = Inr (True, search_read he (n = 1 \<or> closing) json, Success, [])" for dec
    using read_answer [of 200 "search_headers he (n = 1 \<or> closing) json" json req recv dec "[]" Success]
      search_headers_ok [OF s(4), where he = he and closing = "n = 1 \<or> closing"]
    by (simp add: search_read_def INT_MAX_def req new_client_request_def)
  let ?net = "server_network he fs ?svr recv host port" and ?left = "if closing then 0 else n - 1 :: nat"
  let ?c = "c\<lparr>cl_socket := Some (?left, []), cl_error := Success\<rparr>"
  have "client_process_request ?net c req closing =
      Inr (True, search_read he (n = 1 \<or> closing) json, if n = 1 \<or> closing then client_close_socket ?c else ?c)"
    using search_headers_ok(4) [OF s(4), of he True] search_headers_ok(4) [OF s(4), of he False] peer r
    by (simp add: client_process_request_def c w server_network_def Let_def) (simp add: search_read_def)
  moreover have "session_ok host port (client_close_socket ?c)" "\<not> (n = 1 \<or> closing) \<longrightarrow> session_ok host port ?c"
    using ok c(2) by (auto simp: client_close_socket_def session_ok_def)
  moreover have "client_close_socket (client_close_socket ?c) = client_close_socket ?c" by (simp add: client_close_socket_def)
  ultimately show ?thesis by (cases "n = 1 \<or> closing") (auto simp: client_close_socket_def)
qed

lemma client_search_step:
  assumes ok: "session_ok host port c" and q: "searchable q"
    and s: "fs ''./wwwRoot/s'' = None" "search en ix q = Inr json" "json \<noteq> []" "length json \<le> ULONG_MAX" "\<not> he_fd_too_big he"
    and max: "0 < he_keep_alive_max he"
  shows "\<exists>res err c'. client_Get (server_network he fs (program_server is_dir en ix) recv host port) c (''/s?word='' @ q) [] =
      Inr (Some res, err, c') \<and> cres_status res = 200 \<and> cres_body res = json \<and> session_ok host port c'"
proof -
  let ?net = "server_network he fs (program_server is_dir en ix) recv host port"
  let ?closing = "\<not> keep_alive (cl_settings c)" and ?req = "new_client_request c ''GET'' (''/s?word='' @ q) []"
  obtain n e where n: "0 < n" and con: "connect_client ?net c = (True, c\<lparr>cl_socket := Some (n, []), cl_error := e\<rparr>)" (is "_ = (True, ?c)")
    using connect_session [OF ok max] by blast
  have ok1: "session_ok host port ?c" using session_ok_update(1) [OF ok n] by (simp add: session_ok_def)
  have req: "?req = new_client_request ?c ''GET'' (''/s?word='' @ q) []" by (simp add: new_client_request_def)
  obtain c' where p: "client_process_request ?net ?c ?req ?closing = Inr (True, search_read he (n = 1 \<or> ?closing) json, c')"
    and c': "session_ok host port (client_close_socket c')" "\<not> ?closing \<longrightarrow> session_ok host port c'" "cl_settings c' = cl_settings c"
    using process_request_search [of host port ?c n q fs en ix json he ?req is_dir recv ?closing] ok1 n q s req by auto
  have "\<not> uses_proxy ?c" "cr_path ?req \<noteq> []"
    using ok1 unfolding session_ok_def plain_client_def by (blast, simp add: new_client_request_def)
  then have "client_exchange ?net ?c ?req ?closing = Inr (True, search_read he (n = 1 \<or> ?closing) json, c')"
    using p by (simp add: client_exchange_def)
  then have "client_send ?net c ?req = Inr (True, search_read he (n = 1 \<or> ?closing) json, if ?closing then client_close_socket c' else c')"
    by (subst client_send.simps) (simp add: con finish_send_def search_read_def)
  then show ?thesis using c' by (simp add: client_Get_def client_call_def search_read_def)
qed



section \<open>Chains of redirects\<close>

text \<open>A server that answers \<open>k\<close> requests of a connection with a redirect to its own root, and the next with a body.\<close>

definition redirect_headers :: multimap where
  "redirect_headers = [(''Content-Length'', decimal 0), (''Location'', ''/'')]"

definition body_headers :: "string \<Rightarrow> multimap" where
  "body_headers bd = [(''Content-Length'', decimal (length bd))]"

definition chain_peer :: "string \<Rightarrow> nat \<Rightarrow> string \<Rightarrow> string \<times> nat" where
  "chain_peer bd k text =
     (if k = 0 then status_line 200 @ write_headers (body_headers bd) @ bd else status_line 302 @ write_headers redirect_headers, k - 1)"

definition chain_network :: "string \<Rightarrow> (nat \<Rightarrow> nat) \<Rightarrow> nat \<Rightarrow> nat network" where
  "chain_network bd recv k = \<lparr>nw_connect = (\<lambda>h p. Inr k), nw_peer = chain_peer bd, nw_writable = (\<lambda>k. True), nw_recv = recv\<rparr>"

definition simple_get :: "client_request \<Rightarrow> bool" where
  "simple_get req \<longleftrightarrow> cr_method req = ''GET'' \<and> cr_path req \<noteq> [] \<and> cr_body req = [] \<and> cr_provider req = None \<and>
     cr_receiver req = None \<and> cr_response_handler req = None"

lemma chain_headers_ok:
  assumes "length bd \<le> ULONG_MAX"
  shows "\<forall>h \<in> set (body_headers bd). header_safe h" "sorted (map (\<lambda>(k, v). map tolower k) (body_headers bd))"
    "plain_length (body_headers bd) (length bd)" "get_header_value (body_headers bd) ''Connection'' 0 [] = []"
    and "\<forall>h \<in> set redirect_headers. header_safe h" "sorted (map (\<lambda>(k, v). map tolower k) redirect_headers)"
    "plain_length redirect_headers (length [])" "get_header_value redirect_headers ''Connection'' 0 [] = []"
    "get_header_value redirect_headers ''location'' 0 [] = ''/''"
proof -
  have "\<forall>h \<in> set (search_headers he False bd). header_safe h" for he by (rule search_headers_ok(1) [OF assms])
  then show "\<forall>h \<in> set (body_headers bd). header_safe h" by (simp add: search_headers_def body_headers_def)
  show "sorted (map (\<lambda>(k, v). map tolower k) (body_headers bd))" by (simp add: body_headers_def)
  have f: "find_str [] ''gzip'' = None" "find_str [] ''deflate'' = None" "find_str [] ''br'' = None" "\<not> ci_equal [] ''chunked''"
    and n: "\<not> ci_equal ''Content-Length'' ''Transfer-Encoding''" "\<not> ci_equal ''Content-Length'' ''Content-Encoding''"
      "\<not> ci_equal ''Content-Length'' ''Connection''" "ci_equal ''Content-Length'' ''Content-Length''" by code_simp+
  show "plain_length (body_headers bd) (length bd)" using assms f n
    by (simp add: plain_length_def body_headers_def is_chunked_transfer_encoding_def coded_content_def get_header_value_def
        headers_have_def no_zero_decimal)
  show "get_header_value (body_headers bd) ''Connection'' 0 [] = []" using n by (simp add: body_headers_def get_header_value_def)
  show "\<forall>h \<in> set redirect_headers. header_safe h" "sorted (map (\<lambda>(k, v). map tolower k) redirect_headers)"
    "get_header_value redirect_headers ''Connection'' 0 [] = []" "get_header_value redirect_headers ''location'' 0 [] = ''/''"
    by code_simp+
  have "headers_have redirect_headers ''Content-Length''" "get_header_value redirect_headers ''Content-Length'' 0 [] = decimal 0"
    "\<not> is_chunked_transfer_encoding redirect_headers" "\<not> coded_content redirect_headers" by code_simp+
  then show "plain_length redirect_headers (length [])" by (simp add: plain_length_def)
qed

lemma read_chain:
  assumes "simple_get req" and "length bd \<le> ULONG_MAX"
  shows "read_response recv dec req (status_line 200 @ write_headers (body_headers bd) @ bd) Success =
      Inr (True, \<lparr>cres_version = ''HTTP/1.1'', cres_status = 200, cres_reason = status_message 200, cres_headers = body_headers bd,
        cres_body = bd, cres_location = []\<rparr>, Success, [])"
    and "read_response recv dec req (status_line 302 @ write_headers redirect_headers) Success =
      Inr (True, \<lparr>cres_version = ''HTTP/1.1'', cres_status = 302, cres_reason = status_message 302, cres_headers = redirect_headers,
        cres_body = [], cres_location = []\<rparr>, Success, [])"
  using read_answer [of 200 "body_headers bd" bd req recv dec "[]" Success] read_answer [of 302 redirect_headers "[]" req recv dec "[]" Success]
    chain_headers_ok [OF assms(2)] assms(1) by (simp_all add: INT_MAX_def simple_get_def)

lemma chain_exchange:
  assumes "cl_socket c = Some (k, [])" and req: "simple_get req" and bd: "length bd \<le> ULONG_MAX"
  shows "\<exists>res c'. client_exchange (chain_network bd recv k0) c req closing = Inr (True, res, c') \<and>
    cl_socket c' = Some (k - 1, []) \<and> cl_settings c' = cl_settings c \<and>
    (k = 0 \<longrightarrow> cres_status res = 200 \<and> cres_body res = bd) \<and>
    (k \<noteq> 0 \<longrightarrow> cres_status res = 302 \<and> cres_headers res = redirect_headers)"
proof -
  let ?req = "if uses_proxy c then req\<lparr>cr_path := ''http://'' @ host_and_port c @ cr_path req\<rparr> else req"
  let ?c = "c\<lparr>cl_socket := Some (k - 1, []), cl_error := Success\<rparr>"
  have sg: "simple_get ?req" using req by (simp add: simple_get_def)
  obtain head where w: "write_request c ?req closing = Inr (True, head, Success)"
    using sg by (auto simp: write_request_def simple_get_def write_content_with_provider_def)
  have "\<exists>res. client_process_request (chain_network bd recv k0) c ?req closing = Inr (True, res, ?c) \<and>
    (k = 0 \<longrightarrow> cres_status res = 200 \<and> cres_body res = bd) \<and> (k \<noteq> 0 \<longrightarrow> cres_status res = 302 \<and> cres_headers res = redirect_headers)"
    using read_chain [OF sg bd] chain_headers_ok [OF bd] unfolding client_process_request_def w assms(1)
    by (cases "k = 0") (simp_all add: chain_network_def chain_peer_def Let_def)
  moreover have "cr_path req \<noteq> []" using req by (simp add: simple_get_def)
  ultimately show ?thesis by (auto simp: client_exchange_def)
qed

lemma chain_target:
  assumes "cres_headers res = redirect_headers" and "cres_status res = 302"
  shows "redirect_target c req res = Inr (if cr_redirect_count req = 0 then Refuse ExceedRedirectCount
    else Stay (req\<lparr>cr_path := ''/'', cr_redirect_count := cr_redirect_count req - 1\<rparr>) ''/'')"
proof -
  have "decode_url ''/'' True = ''/''" "match_location ''/'' = Some ([], [], [], ''/'')" by code_simp+
  then show ?thesis using assms chain_headers_ok(9) [of "[]"] by (simp add: redirect_target_def redirect_request_def Let_def)
qed

lemma chain_send:
  assumes "length bd \<le> ULONG_MAX"
  shows "simple_get req \<Longrightarrow> follow_location (cl_settings c) \<Longrightarrow>
    connect_client (chain_network bd recv k0) c = (True, c1) \<Longrightarrow> cl_socket c1 = Some (k, []) \<Longrightarrow> cl_settings c1 = cl_settings c \<Longrightarrow>
    \<exists>res c'. client_send (chain_network bd recv k0) c req = Inr (k \<le> cr_redirect_count req, res, c') \<and>
      (k \<le> cr_redirect_count req \<longrightarrow> cres_status res = 200 \<and> cres_body res = bd) \<and>
      (cr_redirect_count req < k \<longrightarrow> cl_error c' = ExceedRedirectCount)"
proof (induction k arbitrary: c c1 req)
  case 0
  let ?closing = "\<not> keep_alive (cl_settings c)"
  obtain res c' where "client_exchange (chain_network bd recv k0) c1 req ?closing = Inr (True, res, c')" "cres_status res = 200" "cres_body res = bd"
    using chain_exchange [OF "0.prems"(4,1) assms, of recv k0 ?closing] by auto
  then show ?case using "0.prems" by (subst client_send.simps) (simp add: finish_send_def Let_def)
next
  case (Suc k)
  let ?closing = "\<not> keep_alive (cl_settings c)" and ?net = "chain_network bd recv k0"
  obtain res c2 where ex: "client_exchange ?net c1 req ?closing = Inr (True, res, c2)" "cres_status res = 302" "cres_headers res = redirect_headers"
    and c2: "cl_socket c2 = Some (k, [])" "cl_settings c2 = cl_settings c"
    using chain_exchange [OF Suc.prems(4,1) assms, of recv k0 ?closing] Suc.prems(5) by auto
  note t = chain_target [OF ex(3,2), of c2 req]
  show ?case
  proof (cases "cr_redirect_count req = 0")
    case True
    then show ?thesis using Suc.prems ex c2 t by (subst client_send.simps) (simp add: finish_send_def Let_def client_close_socket_def)
  next
    case False
    let ?req = "req\<lparr>cr_path := ''/'', cr_redirect_count := cr_redirect_count req - 1\<rparr>"
    have "simple_get ?req" using Suc.prems(1) by (simp add: simple_get_def)
    moreover have "connect_client ?net c2 = (True, c2)" using c2 by (simp add: connect_client_def chain_network_def)
    ultimately obtain res' c' where "client_send ?net c2 ?req = Inr (k \<le> cr_redirect_count req - 1, res', c')"
      "k \<le> cr_redirect_count req - 1 \<longrightarrow> cres_status res' = 200 \<and> cres_body res' = bd"
      "cr_redirect_count req - 1 < k \<longrightarrow> cl_error c' = ExceedRedirectCount"
      using Suc.IH [of ?req c2 c2] Suc.prems(2) c2 by auto
    moreover have "k \<le> cr_redirect_count req - 1 \<longleftrightarrow> Suc k \<le> cr_redirect_count req" using False by auto
    ultimately show ?thesis using Suc.prems ex c2 t False
      by (subst client_send.simps) (auto simp: finish_send_def Let_def client_close_socket_def)
  qed
qed



end
