(* ===== verification/HttpPosting.thy ===== *)
theory HttpPosting imports HttpHandlers HttpExchange begin

text \<open>
  The client and the whole server of \<open>httplib.h\<close>: posted contents, forms and files reach the handler as they were given, and
  what the handler answers, as a body or by a content provider, reaches the caller.
\<close>

section \<open>The text of a posted request\<close>

text \<open>A path that is written as it is.\<close>

definition plain_path :: "string \<Rightarrow> bool" where
  "plain_path p \<longleftrightarrow> p \<noteq> [] \<and> encode_url p = p \<and> set p \<inter> {CHR ''?'', CHR ''%'', CHR 0x00, NL} = {} \<and> length p \<le> 8000"

definition posted_headers :: "string \<Rightarrow> bool \<Rightarrow> string \<Rightarrow> nat \<Rightarrow> multimap" where
  "posted_headers host closing content_type n =
     (''Accept'', ''*/*'') # (if closing then [(''Connection'', ''close'')] else []) @
     [(''Content-Length'', decimal n), (''Content-Type'', content_type), (''Host'', host), (''User-Agent'', ''cpp-httplib/0.7'')]"

definition sent_headers :: "string \<Rightarrow> bool \<Rightarrow> string \<Rightarrow> nat \<Rightarrow> multimap" where
  "sent_headers host closing content_type n =
     (''Content-Type'', content_type) # (''Accept'', ''*/*'') # (if closing then [(''Connection'', ''close'')] else []) @
     [(''Content-Length'', decimal n), (''Host'', host), (''User-Agent'', ''cpp-httplib/0.7'')]"

definition post_line :: "string \<Rightarrow> string" where
  "post_line p = ''POST '' @ p @ '' HTTP/1.1'' @ crlf"

definition post_request :: "'p client_impl \<Rightarrow> string \<Rightarrow> string \<Rightarrow> string \<Rightarrow> client_request" where
  "post_request c p bd content_type = (with_content_type (Some content_type) (new_client_request c ''POST'' p []))\<lparr>cr_body := bd\<rparr>"

lemma posted_header_order:
  "map tolower ''Accept'' \<le> map tolower ''Content-Length''" "map tolower ''Connection'' \<le> map tolower ''Content-Length''"
  "\<not> map tolower ''Host'' \<le> map tolower ''Content-Length''" "\<not> map tolower ''User-Agent'' \<le> map tolower ''Content-Length''"
  "\<not> map tolower ''Content-Type'' \<le> map tolower ''Accept''" "\<not> map tolower ''Content-Type'' \<le> map tolower ''Connection''"
  "\<not> map tolower ''Content-Type'' \<le> map tolower ''Content-Length''" "map tolower ''Content-Type'' \<le> map tolower ''Host''"
  "map tolower ''Content-Type'' \<le> map tolower ''User-Agent''" "map tolower ''Content-Length'' \<le> map tolower ''Host''"
  "map tolower ''Content-Length'' \<le> map tolower ''User-Agent''"
  by code_simp+

lemma posted_names:
  "\<not> ci_equal ''Content-Type'' ''Host''" "\<not> ci_equal ''Content-Type'' ''Accept''" "\<not> ci_equal ''Content-Type'' ''User-Agent''"
  "\<not> ci_equal ''Content-Type'' ''Content-Length''" "ci_equal ''Content-Type'' ''Content-Type''"
  by code_simp+

lemma additional_headers_post:
  assumes "plain_client c" and "bd \<noteq> []"
  shows "(''Content-Type'', ct) # additional_headers c (post_request c p bd ct) closing =
    sent_headers (host_header c) closing ct (length bd)"
    and "cr_headers (post_request c p bd ct) = [(''Content-Type'', ct)]"
proof -
  show h: "cr_headers (post_request c p bd ct) = [(''Content-Type'', ct)]"
    using assms(1)
    by (simp add: post_request_def with_content_type_def new_client_request_def plain_client_def insert_headers_def ci_emplace_steps)
  have n: "headers_have [(''Content-Type'', ct)] k = ci_equal ''Content-Type'' k" for k by (simp add: headers_have_def)
  have "cr_body (post_request c p bd ct) = bd" by (simp add: post_request_def)
  then show "(''Content-Type'', ct) # additional_headers c (post_request c p bd ct) closing =
    sent_headers (host_header c) closing ct (length bd)"
    using assms
    by (cases closing)
      (simp_all add: additional_headers_def h n plain_client_def posted_names add_header_def credential_headers_def sent_headers_def
        host_header_def ci_emplace_steps client_header_order posted_header_order del: list.map)
qed

lemma decimal_safe: "header_safe (''Content-Length'', decimal n)"
proof -
  have d: "set (decimal n) \<inter> {CHR 10, CHR 0x00, CHR ''%'', CHR '' '', CHR 9} = {}"
    using decimal_digits [of _ n] by (force simp: is_digit_def)
  have b: "\<not> is_space_or_tab c" if "is_digit c" for c using that by (auto simp: is_digit_def is_space_or_tab_def)
  have "\<not> is_space_or_tab (hd (decimal n))" "\<not> is_space_or_tab (last (decimal n))" by (simp_all add: b decimal_digits [of _ n])
  with d show ?thesis by (simp add: header_safe_def)
qed

lemma sent_headers_ok:
  assumes "header_safe (''Host'', host)" and "header_safe (''Content-Type'', ct)"
  shows "\<forall>h \<in> set (sent_headers host closing ct n). header_safe h"
    and "foldl (\<lambda>m (k, v). ci_emplace k v m) [] (sent_headers host closing ct n) = posted_headers host closing ct n"
proof -
  have "header_safe (''Accept'', ''*/*'')" "header_safe (''Connection'', ''close'')" "header_safe (''User-Agent'', ''cpp-httplib/0.7'')"
    by code_simp+
  then show "\<forall>h \<in> set (sent_headers host closing ct n). header_safe h"
    using assms decimal_safe by (auto simp: sent_headers_def)
  have "\<not> map tolower ''User-Agent'' \<le> map tolower ''Content-Type''" "\<not> map tolower ''Host'' \<le> map tolower ''Content-Type''" by code_simp+
  then show "foldl (\<lambda>m (k, v). ci_emplace k v m) [] (sent_headers host closing ct n) = posted_headers host closing ct n"
    by (cases closing)
      (simp_all add: sent_headers_def posted_headers_def ci_emplace_steps client_header_order posted_header_order del: list.map)
qed

lemma write_request_post:
  assumes "plain_client c" and "plain_path p" and "bd \<noteq> []" and "header_safe (''Content-Type'', ct)"
  shows "write_request c (post_request c p bd ct) closing =
    Inr (True, post_line p @ write_headers (sent_headers (host_header c) closing ct (length bd)) @ bd, cl_error c)"
proof -
  let ?req = "post_request c p bd ct" and ?add = "additional_headers c (post_request c p bd ct) closing"
  have host: "header_safe (''Host'', host_header c)" using assms(1) by (simp add: plain_client_def)
  note add = additional_headers_post [OF assms(1,3), where ct = ct and p = p]
  have "\<forall>h \<in> set (sent_headers (host_header c) closing ct (length bd)). header_safe h"
    by (rule sent_headers_ok(1) [OF host assms(4)])
  then have "\<forall>h \<in> set ((''Content-Type'', ct) # ?add). header_safe h" by (simp only: add(1))
  then have f: "filter (\<lambda>(k, v). k \<noteq> ''EXCEPTION_WHAT'') ?add = ?add" by (intro filter_True) (auto simp: header_safe_def)
  have "write_headers ((''Content-Type'', ct) # ?add) = header_line (''Content-Type'', ct) @ concat (map header_line ?add) @ crlf"
    by (simp add: write_headers_def f)
  then have w: "write_headers (sent_headers (host_header c) closing ct (length bd)) =
      header_line (''Content-Type'', ct) @ concat (map header_line ?add) @ crlf" by (simp only: add(1))
  have m: "cr_method ?req = ''POST''" "cr_path ?req = p" "cr_body ?req = bd"
    by (simp_all add: post_request_def with_content_type_def new_client_request_def)
  have "request_head c ?req closing = post_line p @ write_headers (sent_headers (host_header c) closing ct (length bd))"
    using assms(2) by (simp add: request_head_def m add(2) w post_line_def plain_path_def)
  then show ?thesis using assms(3) by (simp add: write_request_def m)
qed

section \<open>The server reads it\<close>

lemma parse_post_line:
  assumes "plain_path p"
  shows "parse_request_line (post_line p) new_Request =
    Some \<lparr>req_method = ''POST'', target = p, path = p, version = ''HTTP/1.1'', req_headers = [], params = []\<rparr>"
proof -
  have p: "p \<noteq> []" "CHR ''?'' \<notin> set p" "CHR ''%'' \<notin> set p" "CHR 0x00 \<notin> set p" using assms by (auto simp: plain_path_def)
  have "takeWhile (\<lambda>c. c \<noteq> CHR 0x00) (post_line p) = post_line p"
    using p(4) by (intro takeWhile_eq_all_conv [THEN iffD2]) (auto simp: post_line_def)
  moreover have "List.find (\<lambda>m. prefix (m @ '' '') (post_line p)) request_methods = Some ''POST''"
    by (simp add: request_methods_def post_line_def)
  moreover have t: "takeWhile (\<lambda>c. c \<noteq> CHR ''?'') p = p" "dropWhile (\<lambda>c. c \<noteq> CHR ''?'') p = []"
    using p(2) by (auto simp: takeWhile_eq_all_conv)
  have "match_target p = Some (p, None)" unfolding match_target_def Let_def t using p(1) by simp
  moreover have "'' HTTP/1.1'' @ crlf \<in> set line_ends" by (simp add: line_ends_def)
  ultimately have "match_request_line (takeWhile (\<lambda>c. c \<noteq> CHR 0x00) (post_line p)) = Some (''POST'', p, p, None, ''HTTP/1.1'')"
    by (simp add: match_request_line_def) (simp add: post_line_def)
  then show ?thesis using p(3) by (simp add: parse_request_line_def new_Request_def decode_url_no_percent)
qed

definition posted_request :: "http_env \<Rightarrow> string \<Rightarrow> multimap \<Rightarrow> server_request" where
  "posted_request he p hs = new_server_request\<lparr>sr_req := remote_headers he
     \<lparr>req_method = ''POST'', target = p, path = p, version = ''HTTP/1.1'', req_headers = hs, params = []\<rparr>\<rparr>"

lemma posted_request_fields [simp]:
  "req_method (sr_req (posted_request he p hs)) = ''POST''" "path (sr_req (posted_request he p hs)) = p"
  "params (sr_req (posted_request he p hs)) = []" "sr_ranges (posted_request he p hs) = []"
  "sr_body (posted_request he p hs) = []" "sr_files (posted_request he p hs) = []"
  by (simp_all add: posted_request_def new_server_request_def remote_request)

lemma remote_header_value:
  assumes "\<not> ci_equal ''REMOTE_ADDR'' key" and "\<not> ci_equal ''REMOTE_PORT'' key"
  shows "get_header_value (req_headers (remote_headers he req)) key i def = get_header_value (req_headers req) key i def"
    and "headers_have (req_headers (remote_headers he req)) key = headers_have (req_headers req) key"
proof -
  show "get_header_value (req_headers (remote_headers he req)) key i def = get_header_value (req_headers req) key i def"
    using assms by (simp add: remote_headers_def Request_set_header_def get_header_value_emplace)
  have "headers_have (ci_emplace k v m) key = headers_have m key" if "\<not> ci_equal k key" for k v m
    using that by (auto simp: headers_have_def list_ex_iff set_ci_emplace)
  then show "headers_have (req_headers (remote_headers he req)) key = headers_have (req_headers req) key"
    using assms by (simp add: remote_headers_def Request_set_header_def)
qed

lemma header_of_posted:
  assumes "\<not> ci_equal ''REMOTE_ADDR'' key" and "\<not> ci_equal ''REMOTE_PORT'' key"
  shows "header_of (posted_request he p hs) key = get_header_value hs key 0 []"
    and "Request_has_header (sr_req (posted_request he p hs)) key = headers_have hs key"
    and "get_header_value (req_headers (sr_req (posted_request he p hs))) key i def = get_header_value hs key i def"
    and "headers_have (req_headers (sr_req (posted_request he p hs))) key = headers_have hs key"
  using remote_header_value [OF assms]
  by (simp_all add: posted_request_def header_of_def new_server_request_def Request_get_header_value_def Request_has_header_def)

text \<open>What the headers say.\<close>

lemma posted_header_values:
  assumes "header_safe (''Content-Type'', ct)"
  shows "get_header_value (posted_headers host closing ct n) ''Connection'' 0 [] = (if closing then ''close'' else [])"
    and "get_header_value (posted_headers host closing ct n) ''Content-Type'' 0 [] = ct"
    and "get_header_value (posted_headers host closing ct n) ''Content-Length'' 0 [] = decimal n"
    and "get_header_value (posted_headers host closing ct n) ''Expect'' 0 [] = []"
    and "get_header_value (posted_headers host closing ct n) ''Transfer-Encoding'' 0 [] = []"
    and "get_header_value (posted_headers host closing ct n) ''Content-Encoding'' 0 [] = []"
    and "headers_have (posted_headers host closing ct n) ''Content-Length''"
    and "\<not> headers_have (posted_headers host closing ct n) ''Range''"
proof -
  have n: "list_all (\<lambda>k. list_all (\<lambda>k'. ci_equal k' k = (k' = k))
      [''Accept'', ''Connection'', ''Content-Length'', ''Content-Type'', ''Host'', ''User-Agent''])
    [''Connection'', ''Content-Type'', ''Content-Length'', ''Expect'', ''Transfer-Encoding'', ''Content-Encoding'', ''Range'']"
    by code_simp
  have z: "takeWhile (\<lambda>c. c \<noteq> CHR 0x00) ct = ct" using assms by (auto simp: header_safe_def takeWhile_eq_all_conv)
  show "get_header_value (posted_headers host closing ct n) ''Connection'' 0 [] = (if closing then ''close'' else [])"
    "get_header_value (posted_headers host closing ct n) ''Content-Type'' 0 [] = ct"
    "get_header_value (posted_headers host closing ct n) ''Content-Length'' 0 [] = decimal n"
    "get_header_value (posted_headers host closing ct n) ''Expect'' 0 [] = []"
    "get_header_value (posted_headers host closing ct n) ''Transfer-Encoding'' 0 [] = []"
    "get_header_value (posted_headers host closing ct n) ''Content-Encoding'' 0 [] = []"
    "headers_have (posted_headers host closing ct n) ''Content-Length''"
    "\<not> headers_have (posted_headers host closing ct n) ''Range''"
    using n by (simp_all add: posted_headers_def get_header_value_def headers_have_def no_zero_decimal z)
qed

lemma process_post:
  assumes "plain_path p" and "header_safe (''Host'', host)" and "header_safe (''Content-Type'', ct)" and "\<not> he_fd_too_big he"
  shows "full_process_request he fs svr rounds c (post_line p @ write_headers (sent_headers host closing ct n) @ s) =
    map_sum id (\<lambda>(ok, out, s). (ok, closing, out, s))
      (full_answer he fs svr rounds c (posted_request he p (posted_headers host closing ct n)) new_full_response s)"
proof -
  let ?hs = "posted_headers host closing ct n"
  let ?req = "\<lparr>req_method = ''POST'', target = p, path = p, version = ''HTTP/1.1'', req_headers = ?hs, params = []\<rparr>"
  have "NL \<notin> set (''POST '' @ p @ '' HTTP/1.1'')" using assms(1) by (auto simp: plain_path_def)
  from getline_crlf [OF this, of "write_headers (sent_headers host closing ct n) @ s"]
  have gl: "stream_getline (post_line p @ write_headers (sent_headers host closing ct n) @ s) =
      Some (post_line p, write_headers (sent_headers host closing ct n) @ s)" by (simp add: post_line_def)
  have rh: "read_headers (write_headers (sent_headers host closing ct n) @ s) [] = (True, ?hs, s)"
    using read_headers_written [OF sent_headers_ok(1) [OF assms(2,3)]] sent_headers_ok(2) [OF assms(2,3)] by metis
  have len: "length (post_line p) \<le> REQUEST_URI_MAX_LENGTH" using assms(1) by (simp add: post_line_def plain_path_def REQUEST_URI_MAX_LENGTH_def)
  have co: "header_of (new_server_request\<lparr>sr_req := ?req\<rparr>) ''Connection'' = (if closing then ''close'' else [])"
    using posted_header_values(1) [OF assms(3)] by (simp add: header_of_def Request_get_header_value_def new_server_request_def)
  have q: "new_server_request\<lparr>sr_req := remote_headers he ?req\<rparr> = posted_request he p ?hs" by (simp add: posted_request_def)
  have ra: "\<not> Request_has_header (remote_headers he ?req) ''Range''"
    using header_of_posted(2) [OF remote_names(3,4), of he p ?hs] posted_header_values(8) [OF assms(3)]
    by (simp add: q [symmetric] new_server_request_def)
  have ex: "header_of (posted_request he p ?hs) ''Expect'' \<noteq> ''100-continue''"
    using header_of_posted(1) [OF remote_names(5,6), of he p ?hs] posted_header_values(4) [OF assms(3)] by simp
  have upd: "(posted_request he p ?hs)\<lparr>sr_ranges := []\<rparr> = posted_request he p ?hs"
    by (simp add: posted_request_def new_server_request_def)
  show ?thesis
    using assms(4) len
    by (simp add: full_process_request_def gl parse_post_line [OF assms(1)] rh Let_def)
      (simp add: co ra q upd expect_answer_def ex)
qed

section \<open>What the handler gets\<close>

text \<open>A content of a known length, read with any receiver.\<close>

lemma posted_content:
  assumes "header_safe (''Content-Type'', ct)" and "n \<le> ULONG_MAX" and "n \<le> limit" and "0 < n"
  shows "read_content recv limit (req_headers (sr_req (posted_request he p (posted_headers host closing ct n)))) s out stat st =
    (let (ok, st, rest) = read_content_with_length recv s n out 0 st in (ok, if ok then stat else 400, st, rest))"
proof -
  let ?hs = "req_headers (sr_req (posted_request he p (posted_headers host closing ct n)))"
  have n: "\<not> ci_equal ''REMOTE_ADDR'' k \<and> \<not> ci_equal ''REMOTE_PORT'' k"
    if "k \<in> {''Content-Length'', ''Transfer-Encoding'', ''Content-Encoding''}" for k
  proof -
    have "list_all (\<lambda>k. \<not> ci_equal ''REMOTE_ADDR'' k \<and> \<not> ci_equal ''REMOTE_PORT'' k) [''Content-Length'', ''Transfer-Encoding'', ''Content-Encoding'']"
      by code_simp
    with that show ?thesis by (auto simp: list_all_iff)
  qed
  note v = posted_header_values [OF assms(1), of host closing n]
  have "headers_have ?hs ''Content-Length''" "get_header_value ?hs ''Content-Length'' 0 [] = decimal n"
    "get_header_value ?hs ''Transfer-Encoding'' 0 [] = []" "get_header_value ?hs ''Content-Encoding'' 0 [] = []"
    using v n header_of_posted(3,4) [of _ he p "posted_headers host closing ct n"] by auto
  moreover have "find_str [] ''gzip'' = None" "find_str [] ''deflate'' = None" "find_str [] ''br'' = None" by code_simp+
  ultimately have "\<not> is_chunked_transfer_encoding ?hs" "\<not> coded_content ?hs" "headers_have ?hs ''Content-Length''" "content_length ?hs = n"
    using assms(2) by (simp_all add: is_chunked_transfer_encoding_def coded_content_def content_length_def strtoull10_decimal)
      (simp add: ci_equal_def)
  then show ?thesis using assms(3,4) by (simp add: read_content_def)
qed

definition form_type :: string where "form_type = ''application/x-www-form-urlencoded''"

text \<open>The request as the handler gets it, for a content that is no form of several parts.\<close>

definition with_body :: "string \<Rightarrow> string \<Rightarrow> server_request \<Rightarrow> server_request" where
  "with_body ct bd q = (let q = q\<lparr>sr_body := bd\<rparr> in
     if find_str ct form_type = Some 0 then q\<lparr>sr_req := (sr_req q)\<lparr>params := parse_query_text bd []\<rparr>\<rparr> else q)"

lemma content_type_names: "\<not> ci_equal ''REMOTE_ADDR'' ''Content-Type''" "\<not> ci_equal ''REMOTE_PORT'' ''Content-Type''"
  by code_simp+

lemma header_of_body [simp]: "header_of (q\<lparr>sr_body := bd\<rparr>) k = header_of q k" "header_of (q\<lparr>sr_files := fs\<rparr>) k = header_of q k"
  by (simp_all add: header_of_def)

lemma posted_content_type:
  "header_safe (''Content-Type'', ct) \<Longrightarrow> header_of (posted_request he p (posted_headers host closing ct n)) ''Content-Type'' = ct"
  using header_of_posted(1) [OF content_type_names] posted_header_values(2) by metis

lemma posted_body_read:
  assumes "header_safe (''Content-Type'', ct)" and "find_str ct ''multipart/form-data'' \<noteq> Some 0"
    and "bd \<noteq> []" and "length bd \<le> ULONG_MAX" and "length bd \<le> he_payload_max he"
  shows "Server_read_content he (posted_request he p (posted_headers host closing ct (length bd))) res (bd @ s) =
    (True, with_body ct bd (posted_request he p (posted_headers host closing ct (length bd))), res, s)"
proof -
  let ?q = "posted_request he p (posted_headers host closing ct (length bd))"
  note t = posted_content_type [OF assms(1), of he p host closing "length bd"]
  have "read_content_core he ?q res (bd @ s) = (True, ?q\<lparr>sr_body := bd\<rparr>, res, s)"
    using assms(2-5)
    by (simp add: read_content_core_def is_multipart_form_data_def t posted_content [OF assms(1)] read_with_length_app)
  then show ?thesis by (simp add: Server_read_content_def t with_body_def form_type_def)
qed

text \<open>A form of several parts, when it comes in one piece.\<close>

definition with_files :: "MultipartFormData list \<Rightarrow> server_request \<Rightarrow> server_request" where
  "with_files items q = q\<lparr>sr_files := items\<rparr>"

lemma read_at_once:
  assumes "bd \<noteq> []" and "length bd \<le> RECV_BUFSIZ" and "\<forall>n. n \<le> recv n" and "out bd st = (ok, st')"
  shows "read_content_with_length recv (bd @ s) (length bd) out 0 st = (ok, st', s)"
proof -
  have "length bd \<le> recv (length (bd @ s))" using assms(3) [rule_format, of "length (bd @ s)"] by simp
  then have "min (max 1 (recv (length (bd @ s)))) (length bd) = length bd" by linarith
  then have "stream_read recv (bd @ s) (min (length bd - 0) RECV_BUFSIZ) = (bd, s)"
    using assms(2) by (simp add: stream_read_def min_absorb1)
  moreover have "read_content_with_length recv s (length bd) out (length bd) st' = (True, st', s)"
    by (subst read_content_with_length.simps) simp
  ultimately show ?thesis using assms(1,4) by (subst read_content_with_length.simps) (cases ok; simp)
qed

lemma posted_form_read:
  assumes "multipart_post items b = Some (bd, ct)" and "items \<noteq> []" and "b \<noteq> []" and "\<forall>item \<in> set items. item_safe b item"
    and "header_safe (''Content-Type'', ct)" and "length bd \<le> RECV_BUFSIZ" and "length bd \<le> he_payload_max he" and "\<forall>n. n \<le> he_recv he n"
  shows "Server_read_content he (posted_request he p (posted_headers host closing ct (length bd))) res (bd @ s) =
    (True, with_files items (posted_request he p (posted_headers host closing ct (length bd))), res, s)"
proof -
  let ?q = "posted_request he p (posted_headers host closing ct (length bd))"
  note t = posted_content_type [OF assms(5), of he p host closing "length bd"]
  have ct: "ct = ''multipart/form-data; boundary='' @ b" and bd: "bd \<noteq> []"
    using assms(1) by (auto simp: multipart_post_def multipart_body_def split: if_splits)
  have m: "find_str ct ''multipart/form-data'' = Some 0" "find_str ct ''application/x-www-form-urlencoded'' \<noteq> Some 0"
    unfolding ct by (simp_all add: find_str_def)
  obtain ps where ps: "parse_multipart_boundary ct = Some b" "mp_parse add_content add_file bd (new_parser b) [] = (True, ps, items)" "mp_is_valid ps"
    using multipart_roundtrip [OF assms(1-4)] by blast
  have "feed_parser bd (new_parser b, []) = (True, ps, items)" by (simp add: feed_parser_def ps(2))
  from read_at_once [where recv = "he_recv he" and out = feed_parser, OF bd assms(6,8) this]
  have "read_content (he_recv he) (he_payload_max he) (req_headers (sr_req ?q)) (bd @ s) feed_parser stat (new_parser b, []) =
      (True, stat, (ps, items), s)" for stat
    using assms(6,7) bd by (subst posted_content [OF assms(5)]) (simp_all add: RECV_BUFSIZ_def ULONG_MAX_def)
  then have "read_content_core he ?q res (bd @ s) = (True, with_files items ?q, res, s)"
    using ps by (simp add: read_content_core_def is_multipart_form_data_def t m with_files_def)
  then show ?thesis using m by (simp add: Server_read_content_def t with_files_def)
qed

section \<open>What the handler answers\<close>

text \<open>The three ways to answer with a content: at once, by a provider of a known length, and in chunks.\<close>

definition gives :: "string \<Rightarrow> (nat \<Rightarrow> nat \<Rightarrow> string list \<times> bool) \<Rightarrow> bool" where
  "gives c prov \<longleftrightarrow> (\<forall>i < length c. \<exists>ws. concat ws \<noteq> [] \<and> prefix (concat ws) (drop i c) \<and> prov i (length c - i) = (ws, True))"

definition answers_with :: "full_response \<Rightarrow> string \<Rightarrow> string \<Rightarrow> nat \<Rightarrow> bool" where
  "answers_with r ct c rounds \<longleftrightarrow> c \<noteq> [] \<and> length c < ULONG_MAX \<and> length c < rounds \<and> \<not> has_crlf ct \<and> header_safe (''Content-Type'', ct) \<and>
     (r = set_full_content c ct new_full_response \<or>
      (\<exists>prov. gives c prov \<and> set_content_provider (length c) ct prov new_full_response = Some r) \<or>
      (\<exists>prov. provides c prov \<and> r = set_chunked_content_provider ct prov new_full_response))"

lemma write_length_gives:
  assumes "gives c prov" and "length c < 2 ^ 64" and "i \<le> length c" and "length c - i \<le> rounds"
  shows "\<exists>left. write_length_rounds rounds prov (word_of_nat i) (word_of_nat (length c)) out = (True, left, out @ drop i c)"
  using assms(3,4)
proof (induction rounds arbitrary: i out)
  case (Suc rounds)
  have u: "unat (word_of_nat j :: u64) = j" if "j \<le> length c" for j
    using that assms(2) by (simp add: unat_of_nat)
  then have lt: "(word_of_nat i :: u64) < word_of_nat (length c) \<longleftrightarrow> i < length c"
    using Suc.prems(1) by (simp add: word_less_nat_alt)
  show ?case
  proof (cases "i < length c")
    case True
    then obtain ws where ws: "concat ws \<noteq> []" "prefix (concat ws) (drop i c)" "prov i (length c - i) = (ws, True)"
      using assms(1) unfolding gives_def by blast
    obtain t where t: "drop i c = concat ws @ t" using ws(2) by (auto simp: prefix_def)
    then have l: "length c - i = length (concat ws) + length t" by (metis length_append length_drop)
    have d: "unat (word_of_nat (length c) - word_of_nat i :: u64) = length c - i"
      using True u [of i] u [of "length c"] by (subst unat_sub_if_size) simp
    have n: "i + length (concat ws) \<le> length c" "length c - (i + length (concat ws)) \<le> rounds"
      using l ws(1) Suc.prems True by (cases "concat ws"; simp)+
    have "t = drop (i + length (concat ws)) c" using t by (metis add.commute append_eq_conv_conj drop_drop)
    with Suc.IH [OF n, of "out @ concat ws"] True lt ws(3) d u [of i] t show ?thesis by (simp add: of_nat_add)
  next
    case False
    then show ?thesis using lt Suc.prems by simp
  qed
qed simp

text \<open>The headers of such an answer: the length is known, or it comes in chunks.\<close>

definition framing_headers :: "string \<Rightarrow> nat option \<Rightarrow> multimap" where
  "framing_headers ct fr =
     (case fr of Some n \<Rightarrow> [(''Content-Length'', decimal n), (''Content-Type'', ct)]
      | None \<Rightarrow> [(''Content-Type'', ct), (''Transfer-Encoding'', ''chunked'')])"

definition keep_alive_value :: "http_env \<Rightarrow> string" where
  "keep_alive_value he = ''timeout='' @ decimal (he_keep_alive_timeout he) @ '', max='' @ decimal (he_keep_alive_max he)"

definition answer_headers :: "http_env \<Rightarrow> bool \<Rightarrow> string \<Rightarrow> nat option \<Rightarrow> multimap" where
  "answer_headers he closing ct fr =
     (if closing then [(''Connection'', ''close'')] else []) @
     (case fr of Some n \<Rightarrow> [(''Content-Length'', decimal n)] | None \<Rightarrow> []) @ [(''Content-Type'', ct)] @
     (if closing then [] else [(''Keep-Alive'', keep_alive_value he)]) @
     (case fr of Some n \<Rightarrow> [] | None \<Rightarrow> [(''Transfer-Encoding'', ''chunked'')])"

lemma answer_header_order:
  "\<not> map tolower ''Content-Type'' \<le> map tolower ''Content-Length''" "map tolower ''Content-Type'' \<le> map tolower ''Transfer-Encoding''"
  "\<not> map tolower ''Content-Type'' \<le> map tolower ''Connection''" "\<not> map tolower ''Content-Length'' \<le> map tolower ''Connection''"
  "map tolower ''Content-Length'' \<le> map tolower ''Keep-Alive''" "map tolower ''Content-Type'' \<le> map tolower ''Keep-Alive''"
  "\<not> map tolower ''Transfer-Encoding'' \<le> map tolower ''Keep-Alive''"
  by code_simp+

lemma answer_header_names:
  "\<not> has_crlf ''Connection''" "\<not> has_crlf ''close''" "\<not> has_crlf ''Keep-Alive''" "\<not> has_crlf ''Transfer-Encoding''" "\<not> has_crlf ''chunked''"
  "ci_equal ''Content-Type'' ''Content-Type''"
  by code_simp+

lemma keep_alive_no_crlf: "\<not> has_crlf (keep_alive_value he)"
  unfolding keep_alive_value_def using decimal_plain by (intro has_crlf_plain) auto

text \<open>The answer after \<open>apply_ranges\<close>: its headers, and the content that is written for it.\<close>

definition frames :: "full_response \<Rightarrow> string \<Rightarrow> string \<Rightarrow> nat \<Rightarrow> nat option \<Rightarrow> string \<Rightarrow> bool" where
  "frames r ct c rounds fr out \<longleftrightarrow> headers (fr_res r) = framing_headers ct fr \<and> status (fr_res r) = 200 \<and>
     (body (fr_res r) \<noteq> [] \<or> fr_content r \<noteq> NoContent) \<and>
     (if body (fr_res r) \<noteq> [] then out = body (fr_res r) else \<forall>bnd ct' r'. fr_content r' = fr_content r \<longrightarrow>
       provided_content rounds [] bnd ct' r' = (True, out)) \<and>
     (fr = Some (length c) \<and> out = c \<or>
      fr = None \<and> (\<forall>recv rest. read_content_chunked recv (out @ rest) append_to [] = (True, c, rest)))"

lemma answer_framed:
  assumes "answers_with r ct c rounds"
  shows "\<exists>ct' r' fr out. apply_all_ranges [] bnd (with_status 200 r) = (ct', r') \<and> frames r' ct c rounds fr out"
proof -
  have c: "c \<noteq> []" "length c < ULONG_MAX" "length c < rounds" "\<not> has_crlf ct" using assms by (simp_all add: answers_with_def)
  have ct: "set_header \<lparr>status = 200, headers = [], body = b\<rparr> ''Content-Type'' ct =
      \<lparr>status = 200, headers = [(''Content-Type'', ct)], body = b\<rparr>" for b
    using c(4) by (simp add: set_header_def header_names ci_emplace_steps)
  have ct0: "set_header new_Response ''Content-Type'' ct = \<lparr>status = -1, headers = [(''Content-Type'', ct)], body = []\<rparr>"
    using c(4) by (simp add: new_Response_def set_header_def header_names ci_emplace_steps)
  have cl: "set_header \<lparr>status = 200, headers = [(''Content-Type'', ct)], body = b\<rparr> ''Content-Length'' (decimal n) =
      \<lparr>status = 200, headers = framing_headers ct (Some n), body = b\<rparr>" for b n
    by (simp add: set_header_def header_names decimal_no_crlf ci_emplace_steps answer_header_order framing_headers_def del: list.map)
  have te: "set_header \<lparr>status = 200, headers = [(''Content-Type'', ct)], body = b\<rparr> ''Transfer-Encoding'' ''chunked'' =
      \<lparr>status = 200, headers = framing_headers ct None, body = b\<rparr>" for b
    by (simp add: set_header_def answer_header_names ci_emplace_steps answer_header_order framing_headers_def del: list.map)
  from assms consider "r = set_full_content c ct new_full_response"
    | prov where "gives c prov" "set_content_provider (length c) ct prov new_full_response = Some r"
    | prov where "provides c prov" "r = set_chunked_content_provider ct prov new_full_response"
    unfolding answers_with_def by blast
  then show ?thesis
  proof cases
    case 1
    then have "with_status 200 r = \<lparr>fr_res = \<lparr>status = 200, headers = [(''Content-Type'', ct)], body = c\<rparr>, fr_content = NoContent\<rparr>"
      using c(4) by (simp add: with_status_def set_full_content_def new_full_response_def set_content_eq new_Response_def ci_emplace_steps)
    then show ?thesis using c(1) cl [of c "length c"]
      by (intro exI [of _ "[]"] exI [of _ "\<lparr>fr_res = \<lparr>status = 200, headers = framing_headers ct (Some (length c)), body = c\<rparr>, fr_content = NoContent\<rparr>"]
          exI [of _ "Some (length c)"] exI [of _ c])
        (simp add: apply_all_ranges_def multipart_headers_def apply_ranges_def frames_def)
  next
    case (2 prov)
    then have r: "with_status 200 r = \<lparr>fr_res = \<lparr>status = 200, headers = [(''Content-Type'', ct)], body = []\<rparr>, fr_content = WithLength (length c) prov\<rparr>"
      using c(1) ct0 by (auto simp: set_content_provider_def with_status_def set_full_header_def new_full_response_def)
    have l: "length c < 2 ^ 64" using c(2) by (simp add: ULONG_MAX_def)
    then obtain left where "write_length_rounds rounds prov 0 (word_of_nat (length c)) [] = (True, left, c)"
      using write_length_gives [OF 2(1), of 0 rounds "[]"] c(3) by auto
    moreover have "unat (word_of_nat (length c) :: u64) = length c" using l by (simp add: unat_of_nat)
    ultimately show ?thesis using cl [of "[]" "length c"] r
      by (intro exI [of _ "[]"] exI [of _ "\<lparr>fr_res = \<lparr>status = 200, headers = framing_headers ct (Some (length c)), body = []\<rparr>, fr_content = WithLength (length c) prov\<rparr>"]
          exI [of _ "Some (length c)"] exI [of _ c])
        (simp add: apply_all_ranges_def multipart_headers_def frames_def provided_content_def write_content_def)
  next
    case (3 prov)
    then have r: "with_status 200 r = \<lparr>fr_res = \<lparr>status = 200, headers = [(''Content-Type'', ct)], body = []\<rparr>, fr_content = InChunks prov\<rparr>"
      using ct0 by (simp add: set_chunked_content_provider_def with_status_def set_full_header_def new_full_response_def)
    obtain out where "write_content_chunked rounds prov = (True, out)"
      "\<forall>recv rest. read_content_chunked recv (out @ rest) append_to [] = (True, c, rest)"
      using chunked_roundtrip [OF 3(1) c(2,3)] by blast
    then show ?thesis using te [of "[]"] r
      by (intro exI [of _ "[]"] exI [of _ "\<lparr>fr_res = \<lparr>status = 200, headers = framing_headers ct None, body = []\<rparr>, fr_content = InChunks prov\<rparr>"]
          exI [of _ None] exI [of _ out])
        (simp add: apply_all_ranges_def multipart_headers_def frames_def provided_content_def)
  qed
qed

lemma final_headers_framed:
  assumes "frames r ct c rounds fr out" and "\<not> has_crlf ct" and "req_method (sr_req q) \<noteq> ''HEAD''"
  shows "final_headers he close q r = r\<lparr>fr_res := (fr_res r)\<lparr>headers := answer_headers he (close \<or> header_of q ''Connection'' = ''close'') ct fr\<rparr>\<rparr>"
proof -
  have hs: "headers (fr_res r) = framing_headers ct fr" and b: "body (fr_res r) \<noteq> [] \<or> fr_content r \<noteq> NoContent"
    using assms(1) by (simp_all add: frames_def)
  have co: "set_header (fr_res r) ''Connection'' ''close'' = (fr_res r)\<lparr>headers := answer_headers he True ct fr\<rparr>"
    by (cases fr) (simp_all add: set_header_def answer_header_names hs framing_headers_def ci_emplace_steps answer_header_order
      answer_headers_def del: list.map)
  have ka: "set_header (fr_res r) ''Keep-Alive'' (keep_alive_value he) = (fr_res r)\<lparr>headers := answer_headers he False ct fr\<rparr>"
    by (cases fr) (simp_all add: set_header_def answer_header_names keep_alive_no_crlf hs framing_headers_def ci_emplace_steps
      answer_header_order answer_headers_def del: list.map)
  let ?hs = "answer_headers he (close \<or> header_of q ''Connection'' = ''close'') ct fr"
  have t: "has_header ((fr_res r)\<lparr>headers := ?hs\<rparr>) ''Content-Type''"
    by (simp add: has_header_def headers_have_def answer_headers_def answer_header_names)
  have "(if close \<or> header_of q ''Connection'' = ''close'' then set_header (fr_res r) ''Connection'' ''close''
      else set_header (fr_res r) ''Keep-Alive'' (keep_alive_value he)) = (fr_res r)\<lparr>headers := ?hs\<rparr>"
    using co ka by (simp only: split: if_splits) simp
  then show ?thesis
    using t b assms(3) unfolding final_headers_def keep_alive_value_def [symmetric] Let_def
    by (simp only: simp_thms if_False if_True) auto
qed

lemma answer_written:
  assumes "answers_with r ct c rounds" and "sr_ranges q = []" and "req_method (sr_req q) \<noteq> ''HEAD''"
  shows "\<exists>fr out. write_full_response he svr rounds close q (with_status 200 r) True =
      Inr (True, status_line 200 @ write_headers (answer_headers he (close \<or> header_of q ''Connection'' = ''close'') ct fr) @ out) \<and>
    (fr = Some (length c) \<and> out = c \<or>
     fr = None \<and> (\<forall>recv rest. read_content_chunked recv (out @ rest) append_to [] = (True, c, rest)))"
proof -
  let ?bnd = "make_multipart_data_boundary (he_engine he)"
  obtain ct' r' fr out where a: "apply_all_ranges [] ?bnd (with_status 200 r) = (ct', r')" and f: "frames r' ct c rounds fr out"
    using answer_framed [OF assms(1)] by blast
  have ct: "\<not> has_crlf ct" using assms(1) by (simp add: answers_with_def)
  note h = final_headers_framed [OF f ct assms(3)]
  have st: "status (fr_res (with_status 200 r)) = 200" "status (fr_res r') = 200" using f by (simp_all add: with_status_def frames_def)
  have o: "body (fr_res r') \<noteq> [] \<Longrightarrow> body (fr_res r') = out"
    "body (fr_res r') = [] \<Longrightarrow> provided_content rounds [] ?bnd ct' (r'\<lparr>fr_res := (fr_res r')\<lparr>headers := hs\<rparr>\<rparr>) = (True, out)" for hs
    using f by (simp_all add: frames_def)
  have "write_full_response he svr rounds close q (with_status 200 r) True =
      Inr (True, status_line 200 @ write_headers (answer_headers he (close \<or> header_of q ''Connection'' = ''close'') ct fr) @ out)"
    using assms(2,3) o
    by (cases "body (fr_res r') = []") (simp_all add: write_full_response_def call_error_handler_def st a h Let_def)
  with f show ?thesis unfolding frames_def by blast
qed

lemma answer_headers_ok:
  assumes "header_safe (''Content-Type'', ct)" and "fr = None \<or> fr = Some n"
  shows "\<forall>h \<in> set (answer_headers he closing ct fr). header_safe h"
    and "sorted (map (\<lambda>(k, v). map tolower k) (answer_headers he closing ct fr))"
    and "get_header_value (answer_headers he closing ct fr) ''Connection'' 0 [] = (if closing then ''close'' else [])"
proof -
  have d: "set (decimal n) \<inter> {CHR 10, CHR 0x00, CHR ''%'', CHR '' '', CHR 9} = {}" for n
    using decimal_digits [of _ n] by (force simp: is_digit_def)
  have b: "\<not> is_space_or_tab c" if "is_digit c" for c using that by (auto simp: is_digit_def is_space_or_tab_def)
  have "\<not> is_space_or_tab (last (decimal n))" for n by (simp add: b decimal_digits [of _ n])
  then have ka: "header_safe (''Keep-Alive'', keep_alive_value he)"
    using d [of "he_keep_alive_timeout he"] d [of "he_keep_alive_max he"]
    by (simp add: header_safe_def keep_alive_value_def is_space_or_tab_def)
  have "header_safe (''Connection'', ''close'')" "header_safe (''Transfer-Encoding'', ''chunked'')" by code_simp+
  then show "\<forall>h \<in> set (answer_headers he closing ct fr). header_safe h"
    using assms ka decimal_safe by (auto simp: answer_headers_def split: option.split)
  have "sorted (map (map tolower) [''Connection'', ''Content-Length'', ''Content-Type''])"
    "sorted (map (map tolower) [''Connection'', ''Content-Type'', ''Transfer-Encoding''])"
    "sorted (map (map tolower) [''Content-Length'', ''Content-Type'', ''Keep-Alive''])"
    "sorted (map (map tolower) [''Content-Type'', ''Keep-Alive'', ''Transfer-Encoding''])" by code_simp+
  then show "sorted (map (\<lambda>(k, v). map tolower k) (answer_headers he closing ct fr))"
    by (cases fr; cases closing) (simp_all add: answer_headers_def del: sorted_simps)
  have "ci_equal ''Connection'' ''Connection''" "\<not> ci_equal ''Content-Length'' ''Connection''" "\<not> ci_equal ''Content-Type'' ''Connection''"
    "\<not> ci_equal ''Keep-Alive'' ''Connection''" "\<not> ci_equal ''Transfer-Encoding'' ''Connection''" by code_simp+
  then show "get_header_value (answer_headers he closing ct fr) ''Connection'' 0 [] = (if closing then ''close'' else [])"
    by (simp add: answer_headers_def get_header_value_def split: option.split)
qed

lemma answer_reads:
  assumes "length c \<le> ULONG_MAX"
    and "fr = Some (length c) \<and> out = c \<or> fr = None \<and> (\<forall>recv rest. read_content_chunked recv (out @ rest) append_to [] = (True, c, rest))"
  shows "reads_content (answer_headers he closing ct fr) out c"
proof -
  have n: "list_all (\<lambda>k. list_all (\<lambda>k'. ci_equal k' k = (k' = k))
      [''Connection'', ''Content-Length'', ''Content-Type'', ''Keep-Alive'', ''Transfer-Encoding''])
    [''Content-Length'', ''Transfer-Encoding'', ''Content-Encoding'']" by code_simp
  have e: "find_str [] ''gzip'' = None" "find_str [] ''deflate'' = None" "find_str [] ''br'' = None" by code_simp+
  have ch: "\<not> ci_equal [] ''chunked''" "ci_equal ''chunked'' ''chunked''" "takeWhile (\<lambda>c. c \<noteq> CHR 0x00) ''chunked'' = ''chunked''"
    by code_simp+
  let ?hs = "answer_headers he closing ct fr"
  have nc: "\<not> coded_content ?hs" "without_coding ?hs = ?hs"
    using n e by (simp_all add: coded_content_def without_coding_def answer_headers_def get_header_value_def split: option.split)
  show ?thesis
  proof (cases fr)
    case None
    then have "is_chunked_transfer_encoding ?hs"
      using n ch by (simp add: is_chunked_transfer_encoding_def answer_headers_def get_header_value_def)
    then show ?thesis using nc assms(2) None by (simp add: reads_content_def read_content_def)
  next
    case (Some m)
    then have "plain_length ?hs (length c)"
      using n ch nc assms
      by (simp add: plain_length_def is_chunked_transfer_encoding_def answer_headers_def get_header_value_def headers_have_def no_zero_decimal)
    then show ?thesis using reads_plain assms(2) Some by auto
  qed
qed

section \<open>A post and its answer\<close>

definition full_peer :: "http_env \<Rightarrow> filesystem \<Rightarrow> 'st full_server \<Rightarrow> nat \<Rightarrow> nat \<Rightarrow> string \<Rightarrow> string \<times> nat" where
  "full_peer he fs svr rounds = peer_of (full_process_request he fs svr rounds)"

definition full_network :: "http_env \<Rightarrow> filesystem \<Rightarrow> 'st full_server \<Rightarrow> nat \<Rightarrow> (nat \<Rightarrow> nat) \<Rightarrow> string \<Rightarrow> int \<Rightarrow> nat network" where
  "full_network he fs svr rounds recv host port =
     \<lparr>nw_connect = (\<lambda>h p. if h = host \<and> p = port then Inr (he_keep_alive_max he) else Inl Connection),
      nw_peer = full_peer he fs svr rounds, nw_writable = (\<lambda>n. True), nw_recv = recv\<rparr>"

text \<open>A server with one handler, for posts to one path, that answers a request \<open>q\<close> with \<open>resp q\<close>.\<close>

definition post_server :: "string \<Rightarrow> (server_request \<Rightarrow> full_response) \<Rightarrow> 'st full_server" where
  "post_server p resp = Server_Post (\<lambda>x. x = p) (\<lambda>q r. Returned (resp q)) new_full_server"

lemma post_server_fields [simp]:
  "fv_error (post_server p resp) = None" "reader_handlers_of (post_server p resp) ''POST'' = []"
  "handlers_of (post_server p resp) ''POST'' = Some [(\<lambda>x. x = p, \<lambda>q r. Returned (resp q))]"
  by (simp_all add: post_server_def Server_Post_def new_full_server_def reader_handlers_of_def handlers_of_def)

lemma answers_status: "answers_with r ct c rounds \<Longrightarrow> status (fr_res r) = -1"
  by (auto simp: answers_with_def set_full_content_def new_full_response_def set_content_eq new_Response_def
      set_content_provider_def set_chunked_content_provider_def set_full_header_def split: if_splits)

text \<open>What reading the content makes of a request, as far as the answer depends on it.\<close>

definition same_head :: "server_request \<Rightarrow> server_request \<Rightarrow> bool" where
  "same_head q q' \<longleftrightarrow> req_method (sr_req q') = req_method (sr_req q) \<and> path (sr_req q') = path (sr_req q) \<and>
     sr_ranges q' = sr_ranges q \<and> header_of q' ''Connection'' = header_of q ''Connection''"

lemma same_head_read: "same_head q (with_body ct bd q)" "same_head q (with_files items q)"
  by (simp_all add: same_head_def with_body_def with_files_def header_of_def Request_get_header_value_def Let_def)

lemma post_answered:
  assumes "header_safe (''Content-Type'', ct)"
    and "q = posted_request he p (posted_headers host closing ct n)"
    and "Server_read_content he q new_Response s = (True, q', new_Response, rest)" and "same_head q q'"
    and "answers_with (resp q') act c rounds"
  shows "\<exists>fr out. full_answer he fs (post_server p resp :: 'st full_server) rounds close q new_full_response s =
      Inr (True, status_line 200 @ write_headers (answer_headers he (close \<or> closing) act fr) @ out, rest) \<and>
    (fr = None \<or> fr = Some (length c)) \<and> (\<forall>b. reads_content (answer_headers he b act fr) out c)"
proof -
  let ?svr = "post_server p resp :: 'st full_server"
  have q: "req_method (sr_req q) = ''POST''" "path (sr_req q) = p" "sr_ranges q = []" by (simp_all add: assms(2))
  have con: "header_of q ''Connection'' = (if closing then ''close'' else [])"
    using header_of_posted(1) [OF remote_names(1,2), of he p] posted_header_values(1) [OF assms(1)] by (simp add: assms(2))
  have q': "req_method (sr_req q') = ''POST''" "path (sr_req q') = p" "sr_ranges q' = []"
    "header_of q' ''Connection'' = (if closing then ''close'' else [])"
    using assms(4) q con by (simp_all add: same_head_def)
  have "full_routing he fs ?svr q new_full_response s = Inr (True, q', resp q', rest)"
    using q q' assms(3)
    by (simp add: full_routing_def expect_content_def new_full_response_def regular_routing_def)
  moreover have "status (fr_res (resp q')) = -1" using answers_status [OF assms(5)] .
  ultimately have a: "full_answer he fs ?svr rounds close q new_full_response s =
      map_sum id (\<lambda>(ok, out). (ok, out, rest)) (write_full_response he ?svr rounds close q' (with_status 200 (resp q')) True)"
    using q'(3) by (simp add: full_answer_def)
  have e: "(close \<or> header_of q' ''Connection'' = ''close'') = (close \<or> closing)" and m: "req_method (sr_req q') \<noteq> ''HEAD''"
    using q'(1,4) by simp_all
  obtain fr out where "write_full_response he ?svr rounds close q' (with_status 200 (resp q')) True =
      Inr (True, status_line 200 @ write_headers (answer_headers he (close \<or> closing) act fr) @ out)"
    and o: "fr = Some (length c) \<and> out = c \<or> fr = None \<and> (\<forall>recv rest. read_content_chunked recv (out @ rest) append_to [] = (True, c, rest))"
    using answer_written [OF assms(5) q'(3) m, of he ?svr close, unfolded e] by blast
  moreover have "length c \<le> ULONG_MAX" using assms(5) by (simp add: answers_with_def)
  from answer_reads [OF this o] have "\<forall>b. reads_content (answer_headers he b act fr) out c" by blast
  ultimately show ?thesis using a by auto
qed

text \<open>The call of a client on a new connection, when the answer of the server to its request is known.\<close>

lemma client_post_call:
  assumes c: "plain_client c" "cl_socket c = None" "cl_host c = host" "cl_port c = port"
    and he: "\<not> he_fd_too_big he" "0 < he_keep_alive_max he" and p: "plain_path p"
    and bd: "bd \<noteq> []" "header_safe (''Content-Type'', ct)"
    and answer: "full_answer he fs svr rounds (he_keep_alive_max he = 1)
        (posted_request he p (posted_headers (host_header c) (\<not> keep_alive (cl_settings c)) ct (length bd))) new_full_response (bd @ []) =
      Inr (True, status_line stat @ write_headers hs @ out, [])"
    and hs: "\<forall>h \<in> set hs. header_safe h" "sorted (map (\<lambda>(k, v). map tolower k) hs)" "reads_content hs out content"
    and stat: "0 \<le> stat" "stat \<le> INT_MAX" "stat \<noteq> 100" "\<not> (300 < stat \<and> stat < 400)"
  shows "\<exists>res err c'. client_call (full_network he fs svr rounds recv host port) c (post_request c p bd ct) =
    Inr (Some res, err, c') \<and> cres_status res = stat \<and> cres_body res = content"
proof -
  let ?req = "post_request c p bd ct" and ?net = "full_network he fs svr rounds recv host port"
  let ?closing = "\<not> keep_alive (cl_settings c)" and ?max = "he_keep_alive_max he"
  let ?text = "post_line p @ write_headers (sent_headers (host_header c) ?closing ct (length bd)) @ bd"
  let ?answer = "status_line stat @ write_headers hs @ out"
  let ?c = "c\<lparr>cl_socket := Some (?max, []), cl_error := Success\<rparr>"
  have host: "header_safe (''Host'', host_header c)" using c(1) by (simp add: plain_client_def)
  have "full_process_request he fs svr rounds (?max = 1) (?text @ []) = Inr (True, ?closing, ?answer, [])"
    using process_post [OF p host bd(2) he(1), of fs svr rounds "?max = 1" ?closing "length bd" "bd @ []"] answer by simp
  then have peer: "nw_peer ?net ?max ?text = (?answer, if ?closing then 0 else ?max - 1)"
    using he(2) by (simp add: full_network_def full_peer_def peer_of_def)
  have w: "write_request ?c ?req ?closing = Inr (True, ?text, Success)"
    using write_request_post [of ?c p bd ct ?closing] c(1) p bd by (simp add: post_request_def new_client_request_def)
  have rq: "cr_receiver ?req = None" "cr_response_handler ?req = None" "cr_method ?req \<notin> {''HEAD'', ''CONNECT''}" "cr_path ?req \<noteq> []"
    using p by (simp_all add: post_request_def new_client_request_def with_content_type_def plain_path_def)
  obtain res where r: "read_response (nw_recv ?net) (decompress (cl_settings c)) ?req ?answer Success = Inr (True, res, Success, [])"
    and res: "cres_status res = stat" "cres_body res = content"
    using read_any_answer [OF stat(1-3) hs rq(1-3), of "nw_recv ?net" "decompress (cl_settings c)" "[]" Success] by auto
  define c2 where "c2 = c\<lparr>cl_socket := Some (if ?closing then 0 else ?max - 1, []), cl_error := Success\<rparr>"
  define c' where "c' = (if get_header_value (cres_headers res) ''Connection'' 0 [] = ''close'' \<or>
      cres_version res = ''HTTP/1.0'' \<and> cres_reason res \<noteq> ''Connection established'' then client_close_socket c2 else c2)"
  have "client_process_request ?net ?c ?req ?closing = Inr (True, res, c')"
    using peer r by (simp add: client_process_request_def w Let_def c'_def c2_def)
  moreover have "\<not> uses_proxy ?c" using c(1) by (simp add: plain_client_def)
  ultimately have x: "client_exchange ?net ?c ?req ?closing = Inr (True, res, c')" using rq(4) by (simp add: client_exchange_def)
  have "connect_client ?net c = (True, ?c)"
    using c by (simp add: connect_client_def create_client_socket_def client_close_socket_def full_network_def plain_client_def uses_proxy_def)
  moreover have nr: "\<not> (300 < cres_status res \<and> cres_status res < 400 \<and> follow_location (cl_settings c'))" using stat(4) unfolding res(1) by blast
  ultimately have "client_send ?net c ?req = finish_send ?closing (Inr (True, res, c'))"
    by (subst client_send.simps) (simp add: x nr)
  then show ?thesis using res by (simp add: client_call_def finish_send_def)
qed

lemma client_post_step:
  assumes c: "plain_client c" "cl_socket c = None" "cl_host c = host" "cl_port c = port"
    and he: "\<not> he_fd_too_big he" "0 < he_keep_alive_max he" and p: "plain_path p"
    and bd: "bd \<noteq> []" "header_safe (''Content-Type'', ct)"
    and q: "q = posted_request he p (posted_headers (host_header c) (\<not> keep_alive (cl_settings c)) ct (length bd))"
    and rd: "Server_read_content he q new_Response (bd @ []) = (True, q', new_Response, [])" "same_head q q'"
    and answer: "answers_with (resp q') act content rounds"
  shows "\<exists>res err c'. client_call (full_network he fs (post_server p resp :: 'st full_server) rounds recv host port) c (post_request c p bd ct) =
    Inr (Some res, err, c') \<and> cres_status res = 200 \<and> cres_body res = content"
proof -
  let ?svr = "post_server p resp :: 'st full_server" and ?closing = "\<not> keep_alive (cl_settings c)" and ?max = "he_keep_alive_max he"
  obtain fr out where a: "full_answer he fs ?svr rounds (?max = 1) q new_full_response (bd @ []) =
      Inr (True, status_line 200 @ write_headers (answer_headers he (?max = 1 \<or> ?closing) act fr) @ out, [])"
    and fr: "fr = None \<or> fr = Some (length content)" and rc: "\<forall>b. reads_content (answer_headers he b act fr) out content"
    using post_answered [where resp = resp and q' = q' and 'st = 'st, OF bd(2) q rd answer] by blast
  have act: "header_safe (''Content-Type'', act)" using answer by (simp add: answers_with_def)
  show ?thesis
    using client_post_call [OF c he p bd a [unfolded q] answer_headers_ok(1,2) [OF act fr] rc [rule_format], where recv = recv]
    by (simp add: INT_MAX_def)
qed


lemma sample_answer: "answers_with (set_full_content ''ok'' ''text/plain'' new_full_response) ''text/plain'' ''ok'' 9"
    "answers_with (set_chunked_content_provider ''text/plain'' (two_bytes ''boost'') new_full_response) ''text/plain'' ''boost'' 9"
proof -
  have "\<not> has_crlf ''text/plain''" "header_safe (''Content-Type'', ''text/plain'')" by code_simp+
  moreover have "provides ''boost'' (two_bytes ''boost'')" by (auto simp: provides_def two_bytes_def intro!: take_is_prefix)
  ultimately show "answers_with (set_full_content ''ok'' ''text/plain'' new_full_response) ''text/plain'' ''ok'' 9"
    "answers_with (set_chunked_content_provider ''text/plain'' (two_bytes ''boost'') new_full_response) ''text/plain'' ''boost'' 9"
    by (auto simp: answers_with_def ULONG_MAX_def)
qed

lemma sample_client: "plain_client (new_ClientImpl ''h'' 80)" "cl_socket (new_ClientImpl ''h'' 80) = None"
  "cl_host (new_ClientImpl ''h'' 80) = ''h''" "cl_port (new_ClientImpl ''h'' 80) = 80"
  by (simp_all add: plain_client_def new_ClientImpl_def default_settings_def uses_proxy_def host_header_def header_safe_def is_space_or_tab_def)

lemma sample_limits: "\<not> he_fd_too_big sample_http" "0 < he_keep_alive_max sample_http" "he_payload_max sample_http = 1000"
  by (simp_all add: sample_http_def)

lemma sample_path: "plain_path ''/p''"
proof -
  have "encode_url ''/p'' = ''/p''" by code_simp
  then show ?thesis by (simp add: plain_path_def)
qed




section \<open>Exceptions\<close>

text \<open>The headers of an answer without a content. The text of an exception is kept in a header that is not written.\<close>

definition empty_headers :: "http_env \<Rightarrow> bool \<Rightarrow> multimap" where
  "empty_headers he closing = (if closing then [(''Connection'', ''close'')] else []) @ [(''Content-Length'', ''0'')] @
     (if closing then [] else [(''Keep-Alive'', keep_alive_value he)])"

lemma empty_headers_ok:
  "\<forall>h \<in> set (empty_headers he closing). header_safe h"
  "sorted (map (\<lambda>(k, v). map tolower k) (empty_headers he closing))"
  "reads_content (empty_headers he closing) [] []"
proof -
  have "header_safe (''Content-Type'', ''x'')" by code_simp
  from answer_headers_ok(1) [OF this, of None 0 he True] answer_headers_ok(1) [OF this, of None 0 he False]
  have "header_safe (''Keep-Alive'', keep_alive_value he)" "header_safe (''Connection'', ''close'')"
    by (simp_all add: answer_headers_def)
  moreover have zero: "decimal 0 = ''0''" by code_simp
  ultimately show "\<forall>h \<in> set (empty_headers he closing). header_safe h"
    using decimal_safe [of 0] by (simp add: empty_headers_def)
  have "sorted (map (map tolower) [''Connection'', ''Content-Length''])" "sorted (map (map tolower) [''Content-Length'', ''Keep-Alive''])" by code_simp+
  then show "sorted (map (\<lambda>(k, v). map tolower k) (empty_headers he closing))"
    by (cases closing) (simp_all add: empty_headers_def del: sorted_simps)
  have n: "list_all (\<lambda>k. list_all (\<lambda>k'. ci_equal k' k = (k' = k)) [''Connection'', ''Content-Length'', ''Keep-Alive''])
    [''Content-Length'', ''Transfer-Encoding'', ''Content-Encoding'']" by code_simp
  have e: "find_str [] ''gzip'' = None" "find_str [] ''deflate'' = None" "find_str [] ''br'' = None" "\<not> ci_equal [] ''chunked''"
    by code_simp+
  have "plain_length (empty_headers he closing) (length ([] :: string))"
    using n e zero
    by (simp add: plain_length_def is_chunked_transfer_encoding_def coded_content_def empty_headers_def get_header_value_def headers_have_def ULONG_MAX_def)
  from reads_plain [OF this] show "reads_content (empty_headers he closing) [] []" .
qed

lemma exception_written:
  assumes "fv_error svr = None" and "req_method (sr_req q) \<noteq> ''HEAD''"
  shows "write_full_response he svr rounds close q (set_full_header ''EXCEPTION_WHAT'' what (with_status 500 new_full_response)) False =
    Inr (True, status_line 500 @ write_headers (empty_headers he (close \<or> header_of q ''Connection'' = ''close'')))"
proof -
  let ?r = "set_full_header ''EXCEPTION_WHAT'' what (with_status 500 new_full_response)"
  let ?close = "close \<or> header_of q ''Connection'' = ''close''"
  have ord: "\<not> map tolower ''EXCEPTION_WHAT'' \<le> map tolower ''Connection''" "map tolower ''Connection'' \<le> map tolower ''Content-Length''"
    "\<not> map tolower ''EXCEPTION_WHAT'' \<le> map tolower ''Content-Length''" "\<not> map tolower ''Keep-Alive'' \<le> map tolower ''Content-Length''"
    "map tolower ''EXCEPTION_WHAT'' \<le> map tolower ''Keep-Alive''" by code_simp+
  have no: "\<not> has_crlf ''EXCEPTION_WHAT''" "\<not> has_crlf ''0''" "\<not> ci_equal ''EXCEPTION_WHAT'' ''Content-Length''"
    "\<not> ci_equal ''Keep-Alive'' ''Content-Length''" "\<not> ci_equal ''Connection'' ''Content-Length''" by code_simp+
  let ?x = "if has_crlf what then [] else [(''EXCEPTION_WHAT'', what)]"
  have r: "fr_res ?r = \<lparr>status = 500, headers = ?x, body = []\<rparr>" "fr_content ?r = NoContent"
    by (simp_all add: set_full_header_def with_status_def new_full_response_def new_Response_def set_header_def no ci_emplace_steps)
  let ?hs = "if ?close then [(''Connection'', ''close''), (''Content-Length'', ''0'')] @ ?x
    else [(''Content-Length'', ''0'')] @ ?x @ [(''Keep-Alive'', keep_alive_value he)]"
  have one: "fr_res (final_headers he close q ?r) = \<lparr>status = 500, headers = ?hs, body = []\<rparr>"
    using assms(2) unfolding final_headers_def keep_alive_value_def [symmetric] r(1)
    by (cases ?close; cases "has_crlf what")
      (simp_all add: r(2) set_header_def answer_header_names keep_alive_no_crlf header_names no ci_emplace_steps ord has_header_def headers_have_def
        del: list.map)
  have "write_headers ?hs = write_headers (empty_headers he ?close)"
    by (simp add: write_headers_def empty_headers_def)
  moreover have "fr_content (final_headers he close q ?r) = NoContent" using r(2) by (simp add: final_headers_def Let_def)
  ultimately show ?thesis
    using assms by (simp add: write_full_response_def call_error_handler_def r one provided_content_def)
qed

definition throwing_server :: "string \<Rightarrow> string option \<Rightarrow> 'st full_server" where
  "throwing_server p what = Server_Post (\<lambda>x. x = p) (\<lambda>q r. Raised what r) new_full_server"

lemma exception_answer:
  assumes "header_safe (''Content-Type'', ct)" and "q = posted_request he p (posted_headers host closing ct n)"
    and "Server_read_content he q new_Response s = (True, q', new_Response, rest)" and "same_head q q'"
  shows "full_answer he fs (throwing_server p what :: 'st full_server) rounds close q new_full_response s =
    Inr (True, status_line 500 @ write_headers (empty_headers he (close \<or> closing)) @ [], rest)"
proof -
  let ?svr = "throwing_server p what :: 'st full_server" and ?w = "case what of Some w \<Rightarrow> w | None \<Rightarrow> ''UNKNOWN''"
  let ?r = "set_full_header ''EXCEPTION_WHAT'' ?w (with_status 500 new_full_response)"
  have svr: "fv_error ?svr = None" "reader_handlers_of ?svr ''POST'' = []"
    "handlers_of ?svr ''POST'' = Some [(\<lambda>x. x = p, \<lambda>q r. Raised what r)]"
    by (simp_all add: throwing_server_def Server_Post_def new_full_server_def reader_handlers_of_def handlers_of_def)
  have q: "req_method (sr_req q) = ''POST''" "path (sr_req q) = p" by (simp_all add: assms(2))
  have con: "header_of q ''Connection'' = (if closing then ''close'' else [])"
    using header_of_posted(1) [OF remote_names(1,2), of he p] posted_header_values(1) [OF assms(1)] by (simp add: assms(2))
  have q': "req_method (sr_req q') = ''POST''" "path (sr_req q') = p" "header_of q' ''Connection'' = (if closing then ''close'' else [])"
    using assms(4) q con by (simp_all add: same_head_def)
  have "full_routing he fs ?svr q new_full_response s = Inr (False, q', ?r, rest)"
    using q q' assms(3) by (simp add: full_routing_def expect_content_def new_full_response_def regular_routing_def svr)
  moreover have "status (fr_res ?r) = 500" by (simp add: set_full_header_def with_status_def)
  moreover have "(close \<or> header_of q' ''Connection'' = ''close'') = (close \<or> closing)" and m: "req_method (sr_req q') \<noteq> ''HEAD''"
    using q'(1,3) by simp_all
  ultimately show ?thesis
    using exception_written [OF svr(1) m, of he rounds close ?w] by (simp add: full_answer_def)
qed



end
