(* ===== verification/Workers.thy ===== *)
theory Workers imports Prelude "HOL-Library.Multiset" begin

text \<open>
  What the two thread pools of the repository share: the places of a worker thread around the wait for work, and sums
  over the workers of a pool, by which the invariants count them and the measures bound their steps.

  A critical section is one step, since everything the threads share is read and written under the mutex of the
  pool, and \<open>wait\<close> releases it in the same step in which the thread goes to sleep.
\<close>

section \<open>A worker\<close>

datatype 'j worker = Ready | Waiting | Running 'j | Exited

fun awake :: "'j worker \<Rightarrow> 'j worker" where
  "awake Waiting = Ready"
| "awake w = w"

fun running :: "'j worker \<Rightarrow> 'j multiset" where
  "running (Running j) = {#j#}"
| "running _ = {#}"

fun ready :: "'j worker \<Rightarrow> nat" where
  "ready Ready = 1"
| "ready _ = 0"

fun exited :: "'j worker \<Rightarrow> nat" where
  "exited Exited = 1"
| "exited _ = 0"

text \<open>How many steps a worker can take until it sleeps, exits or takes another job.\<close>

fun effort :: "'j worker \<Rightarrow> nat" where
  "effort Ready = 1"
| "effort (Running j) = 2"
| "effort _ = 0"

section \<open>Sums over the workers\<close>

definition sum_of :: "('w \<Rightarrow> 'a :: comm_monoid_add) \<Rightarrow> 'w list \<Rightarrow> 'a" where
  "sum_of f ws = sum_list (map f ws)"

lemma sum_of_update:
  fixes f :: "'w \<Rightarrow> 'a :: cancel_comm_monoid_add"
  shows "i < length ws \<Longrightarrow> sum_of f (ws[i := w]) + f (ws ! i) = sum_of f ws + f w"
proof (induction ws arbitrary: i)
  case (Cons x xs)
  then show ?case by (cases i) (auto simp: sum_of_def ac_simps)
qed simp

lemma sum_of_replicate: "sum_of ready (replicate n Ready) = n" "sum_of running (replicate n Ready) = {#}"
  "sum_of effort (replicate n Ready) = n" "sum_of exited (replicate n Ready) = 0"
  by (induction n) (simp_all add: sum_of_def)

lemma running_awake [simp]: "running (awake w) = running w"
  by (cases w) simp_all

lemma effort_awake: "effort (awake w) \<le> effort w + 1"
  by (cases w) simp_all

lemma sum_of_awake:
  "sum_of running (map awake ws) = sum_of running ws" "sum_of effort (map awake ws) \<le> sum_of effort ws + length ws"
proof -
  show "sum_of running (map awake ws) = sum_of running ws" by (simp add: sum_of_def comp_def)
  show "sum_of effort (map awake ws) \<le> sum_of effort ws + length ws"
  proof (induction ws)
    case (Cons w ws)
    then show ?case using effort_awake [of w] by (simp add: sum_of_def)
  qed (simp add: sum_of_def)
qed

lemma awake_not_Waiting [simp]: "awake w \<noteq> Waiting"
  by (cases w) simp_all

lemma awake_eq_Exited [simp]: "awake w = Exited \<longleftrightarrow> w = Exited"
  by (cases w) simp_all

lemma no_Waiting_awake [simp]: "Waiting \<notin> awake ` A"
  using awake_not_Waiting by (metis image_iff)

lemma Exited_awake [simp]: "Exited \<in> awake ` A \<longleftrightarrow> Exited \<in> A"
  using awake_eq_Exited by (metis image_iff)

text \<open>A change of one worker, read off its old and its new place.\<close>

lemma worker_sums:
  assumes "i < length ws" and "ws ! i = v"
  shows "sum_of running (ws[i := w]) + running v = sum_of running ws + running w"
    and "sum_of ready (ws[i := w]) + ready v = sum_of ready ws + ready w"
    and "sum_of effort (ws[i := w]) + effort v = sum_of effort ws + effort w"
    and "sum_of exited (ws[i := w]) + exited v = sum_of exited ws + exited w"
  using sum_of_update [OF assms(1)] assms(2) by metis+

lemma in_set_update_iff: "i < length ws \<Longrightarrow> x \<noteq> w \<Longrightarrow> x \<noteq> ws ! i \<Longrightarrow> x \<in> set (ws[i := w]) \<longleftrightarrow> x \<in> set ws"
  by (metis in_set_conv_nth length_list_update nth_list_update_eq nth_list_update_neq)

lemma not_in_set_update: "x \<notin> set ws \<Longrightarrow> x \<noteq> w \<Longrightarrow> x \<notin> set (ws[i := w])"
  using set_update_subset_insert [of ws i w] by auto

lemma Waiting_update: "Waiting \<in> set (ws[i := w]) \<Longrightarrow> w \<noteq> Waiting \<Longrightarrow> Waiting \<in> set ws"
  using not_in_set_update by metis

lemma Exited_update: "Exited \<in> set (ws[i := w]) \<Longrightarrow> w \<noteq> Exited \<Longrightarrow> Exited \<in> set ws"
  using not_in_set_update by metis

lemma sum_of_running_none: "\<forall>w \<in> set ws. \<forall>j. w \<noteq> Running j \<Longrightarrow> sum_of running ws = {#}"
proof (induction ws)
  case (Cons w ws)
  then show ?case by (cases w) (auto simp: sum_of_def)
qed (simp add: sum_of_def)

lemma no_worker_ready: "\<forall>w \<in> set ws. w = Waiting \<or> w = Exited \<Longrightarrow> sum_of ready ws = 0"
proof (induction ws)
  case (Cons w ws)
  then show ?case by (cases w) (auto simp: sum_of_def)
qed (simp add: sum_of_def)

lemma exited_bound: "sum_of exited ws \<le> length ws" "sum_of exited ws = length ws \<longleftrightarrow> (\<forall>w \<in> set ws. w = Exited)"
proof -
  have e: "exited w \<le> 1" "exited w = 1 \<longleftrightarrow> w = Exited" for w :: "'a worker" by (cases w; simp)+
  have "sum_of exited ws \<le> length ws \<and> (sum_of exited ws = length ws \<longleftrightarrow> (\<forall>w \<in> set ws. w = Exited))"
  proof (induction ws)
    case (Cons w ws)
    then show ?case using e [of w] by (auto simp: sum_of_def)
  qed (simp add: sum_of_def)
  then show "sum_of exited ws \<le> length ws" "sum_of exited ws = length ws \<longleftrightarrow> (\<forall>w \<in> set ws. w = Exited)" by auto
qed

end
