(* ===== verification/HttpThreadPool.thy ===== *)
theory HttpThreadPool imports Workers begin

text \<open>
  The thread pool of \<open>httplib.h\<close>, to which the loop of \<open>listen_internal\<close> gives the connections it has accepted.

  \<^item> The state has the queue of jobs, the flag of the shutdown, the place of each worker, and where the thread is that
    runs the loop. \<open>tp_started\<close> and \<open>tp_done\<close> record the jobs that workers have taken and have finished.
  \<^item> What \<open>accept\<close> gives is a list of events; when it is used up, the server socket has been closed by \<open>stop\<close>.
  \<^item> \<open>tp_step False\<close> is a step of a thread, \<open>tp_step True\<close> a spurious wakeup of a sleeping worker. A job returns.
\<close>

section \<open>The threads\<close>

text \<open>A timeout of \<open>select_read\<close>, a connection, no free descriptor, or another error of \<open>accept\<close>.\<close>

datatype 'j accepting = IdleTimeout | Accepted 'j | NoDescriptors | AcceptFailed

datatype 'j main_thread = Accepting "'j accepting list" | Notifying | Joining nat

record 'j thread_pool =
  tp_jobs :: "'j list"
  tp_shutdown :: bool
  tp_workers :: "'j worker list"
  tp_main :: "'j main_thread"
  tp_ret :: bool
  tp_started :: "'j list"
  tp_done :: "'j list"

definition ThreadPool :: "nat \<Rightarrow> 'j accepting list \<Rightarrow> 'j thread_pool" where
  "ThreadPool n es = \<lparr>tp_jobs = [], tp_shutdown = False, tp_workers = replicate n Ready,
     tp_main = Accepting es, tp_ret = True, tp_started = [], tp_done = []\<rparr>"

text \<open>\<open>enqueue\<close> on its own, and what \<open>notify_one\<close> in it does to a sleeping worker \<open>i\<close>.\<close>

definition tp_enqueue :: "'j \<Rightarrow> 'j thread_pool \<Rightarrow> 'j thread_pool" where
  "tp_enqueue j s = s\<lparr>tp_jobs := tp_jobs s @ [j]\<rparr>"

definition tp_goto :: "nat \<Rightarrow> 'j worker \<Rightarrow> 'j thread_pool \<Rightarrow> 'j thread_pool" where
  "tp_goto i w s = s\<lparr>tp_workers := (tp_workers s)[i := w]\<rparr>"

text \<open>A worker under the mutex: the predicate of \<open>wait\<close>, the test for the end, the first job.\<close>

definition tp_check :: "nat \<Rightarrow> 'j thread_pool \<Rightarrow> 'j thread_pool" where
  "tp_check i s =
     (if \<not> (tp_jobs s \<noteq> [] \<or> tp_shutdown s) then tp_goto i Waiting s
      else if tp_shutdown s \<and> tp_jobs s = [] then tp_goto i Exited s
      else tp_goto i (Running (hd (tp_jobs s)))
        (s\<lparr>tp_started := tp_started s @ [hd (tp_jobs s)], tp_jobs := tl (tp_jobs s)\<rparr>))"

definition tp_finish :: "nat \<Rightarrow> 'j \<Rightarrow> 'j thread_pool \<Rightarrow> 'j thread_pool" where
  "tp_finish i j s = tp_goto i Ready (s\<lparr>tp_done := tp_done s @ [j]\<rparr>)"

definition tp_notify_all :: "'j thread_pool \<Rightarrow> 'j thread_pool" where
  "tp_notify_all s = s\<lparr>tp_workers := map awake (tp_workers s)\<rparr>"

inductive tp_step :: "bool \<Rightarrow> 'j thread_pool \<Rightarrow> 'j thread_pool \<Rightarrow> bool" where
  idle: "tp_main s = Accepting (e # es) \<Longrightarrow> e = IdleTimeout \<or> e = NoDescriptors \<Longrightarrow>
    tp_step False s (s\<lparr>tp_main := Accepting es\<rparr>)"
| enqueue_notifies: "tp_main s = Accepting (Accepted j # es) \<Longrightarrow> i < length (tp_workers s) \<Longrightarrow> tp_workers s ! i = Waiting \<Longrightarrow>
    tp_step False s (tp_goto i Ready ((tp_enqueue j s)\<lparr>tp_main := Accepting es\<rparr>))"
| enqueue_no_waiter: "tp_main s = Accepting (Accepted j # es) \<Longrightarrow> Waiting \<notin> set (tp_workers s) \<Longrightarrow>
    tp_step False s ((tp_enqueue j s)\<lparr>tp_main := Accepting es\<rparr>)"
| failed: "tp_main s = Accepting (AcceptFailed # es) \<Longrightarrow> tp_step False s (s\<lparr>tp_main := Accepting [], tp_ret := False\<rparr>)"
| shutdown: "tp_main s = Accepting [] \<Longrightarrow> tp_step False s (s\<lparr>tp_shutdown := True, tp_main := Notifying\<rparr>)"
| notify_all: "tp_main s = Notifying \<Longrightarrow> tp_step False s ((tp_notify_all s)\<lparr>tp_main := Joining 0\<rparr>)"
| join: "tp_main s = Joining i \<Longrightarrow> i < length (tp_workers s) \<Longrightarrow> tp_workers s ! i = Exited \<Longrightarrow>
    tp_step False s (s\<lparr>tp_main := Joining (Suc i)\<rparr>)"
| check: "i < length (tp_workers s) \<Longrightarrow> tp_workers s ! i = Ready \<Longrightarrow> tp_step False s (tp_check i s)"
| finish: "i < length (tp_workers s) \<Longrightarrow> tp_workers s ! i = Running j \<Longrightarrow> tp_step False s (tp_finish i j s)"
| spurious: "i < length (tp_workers s) \<Longrightarrow> tp_workers s ! i = Waiting \<Longrightarrow> tp_step True s (tp_goto i Ready s)"

text \<open>A run, with the number of its steps of threads and of its spurious wakeups.\<close>

inductive tp_run :: "'j thread_pool \<Rightarrow> nat \<Rightarrow> nat \<Rightarrow> 'j thread_pool \<Rightarrow> bool" for s0 where
  start: "tp_run s0 0 0 s0"
| thread: "tp_run s0 a b s \<Longrightarrow> tp_step False s s' \<Longrightarrow> tp_run s0 (a + 1) b s'"
| wakeup: "tp_run s0 a b s \<Longrightarrow> tp_step True s s' \<Longrightarrow> tp_run s0 a (b + 1) s'"

section \<open>What the loop accepts\<close>

fun accepted :: "'j accepting list \<Rightarrow> 'j list" where
  "accepted [] = []"
| "accepted (Accepted j # es) = j # accepted es"
| "accepted (AcceptFailed # es) = []"
| "accepted (_ # es) = accepted es"

fun no_failure :: "'j accepting list \<Rightarrow> bool" where
  "no_failure [] = True"
| "no_failure (AcceptFailed # es) = False"
| "no_failure (_ # es) = no_failure es"

fun events_left :: "'j main_thread \<Rightarrow> 'j accepting list" where
  "events_left (Accepting es) = es"
| "events_left _ = []"

section \<open>The invariant\<close>

definition tp_ok :: "nat \<Rightarrow> 'j accepting list \<Rightarrow> 'j thread_pool \<Rightarrow> bool" where
  "tp_ok n es s \<longleftrightarrow>
     length (tp_workers s) = n \<and> (tp_shutdown s \<longleftrightarrow> (\<forall>es. tp_main s \<noteq> Accepting es)) \<and>
     tp_started s @ tp_jobs s @ accepted (events_left (tp_main s)) = accepted es \<and>
     (tp_ret s \<and> no_failure (events_left (tp_main s)) \<longleftrightarrow> no_failure es) \<and>
     mset (tp_started s) = mset (tp_done s) + sum_of running (tp_workers s) \<and>
     (Waiting \<in> set (tp_workers s) \<longrightarrow> length (tp_jobs s) \<le> sum_of ready (tp_workers s)) \<and>
     (Exited \<in> set (tp_workers s) \<longrightarrow> tp_shutdown s \<and> tp_jobs s = []) \<and>
     (\<forall>i. tp_main s = Joining i \<longrightarrow> i \<le> n \<and> Waiting \<notin> set (tp_workers s))"

lemma tp_goto_simps [simp]:
  "tp_jobs (tp_goto i w s) = tp_jobs s" "tp_shutdown (tp_goto i w s) = tp_shutdown s"
  "tp_workers (tp_goto i w s) = (tp_workers s)[i := w]" "tp_main (tp_goto i w s) = tp_main s"
  "tp_ret (tp_goto i w s) = tp_ret s" "tp_started (tp_goto i w s) = tp_started s" "tp_done (tp_goto i w s) = tp_done s"
  by (simp_all add: tp_goto_def)

lemma tp_okD:
  assumes "tp_ok n es s"
  shows "length (tp_workers s) = n" and "tp_shutdown s \<longleftrightarrow> (\<forall>es. tp_main s \<noteq> Accepting es)"
    and "tp_started s @ tp_jobs s @ accepted (events_left (tp_main s)) = accepted es"
    and "tp_ret s \<and> no_failure (events_left (tp_main s)) \<longleftrightarrow> no_failure es"
    and "mset (tp_started s) = mset (tp_done s) + sum_of running (tp_workers s)"
    and "Waiting \<in> set (tp_workers s) \<Longrightarrow> length (tp_jobs s) \<le> sum_of ready (tp_workers s)"
    and "Exited \<in> set (tp_workers s) \<Longrightarrow> tp_shutdown s \<and> tp_jobs s = []"
    and "tp_main s = Joining i \<Longrightarrow> i \<le> n \<and> Waiting \<notin> set (tp_workers s)"
  using assms unfolding tp_ok_def by blast+

lemma tp_ok_start: "tp_ok n es (ThreadPool n es)"
  by (simp add: tp_ok_def ThreadPool_def sum_of_replicate)

lemma tp_ok_check:
  assumes ok: "tp_ok n es s" and i: "i < length (tp_workers s)" "tp_workers s ! i = Ready"
  shows "tp_ok n es (tp_check i s)"
proof -
  note sums = worker_sums [OF i] and d = tp_okD [OF ok]
  consider (wait) "tp_jobs s = []" "\<not> tp_shutdown s" | (exit) "tp_jobs s = []" "tp_shutdown s" | (take) j js where "tp_jobs s = j # js"
    by (cases "tp_jobs s") auto
  then show ?thesis
  proof cases
    case wait
    then have c: "tp_check i s = tp_goto i Waiting s" by (simp add: tp_check_def)
    have "tp_main s \<noteq> Joining k" for k using d(2) wait by auto
    then show ?thesis
      using d(1-5) d(7) wait sums(1) [of Waiting] Exited_update [of "tp_workers s" i Waiting] by (auto simp: c tp_ok_def)
  next
    case exit
    then have c: "tp_check i s = tp_goto i Exited s" by (simp add: tp_check_def)
    show ?thesis
      using d exit sums(1) [of Exited] Waiting_update [of "tp_workers s" i Exited] by (auto simp: c tp_ok_def)
  next
    case take
    then have c: "tp_check i s = tp_goto i (Running j) (s\<lparr>tp_started := tp_started s @ [j], tp_jobs := js\<rparr>)"
      by (simp add: tp_check_def)
    have "Exited \<notin> set (tp_workers s)" using d(7) take by auto
    then show ?thesis
      using d(1-6) d(8) take sums(1,2) [of "Running j"] Waiting_update [of "tp_workers s" i "Running j"]
        Exited_update [of "tp_workers s" i "Running j"]
      by (auto simp: c tp_ok_def)
  qed
qed

lemma tp_ok_wake:
  assumes ok: "tp_ok n es s" and i: "i < length (tp_workers s)" "tp_workers s ! i = Waiting"
  shows "tp_ok n es (tp_goto i Ready s)"
  using tp_okD [OF ok] worker_sums(1,2) [OF i, of Ready] Waiting_update [of "tp_workers s" i Ready] Exited_update [of "tp_workers s" i Ready]
  by (auto simp: tp_ok_def)

lemma tp_ok_enqueue:
  assumes ok: "tp_ok n es s" and m: "tp_main s = Accepting (Accepted j # es')"
    and i: "i < length (tp_workers s)" "tp_workers s ! i = Waiting"
  shows "tp_ok n es (tp_goto i Ready ((tp_enqueue j s)\<lparr>tp_main := Accepting es'\<rparr>))"
proof -
  note d = tp_okD [OF ok]
  have "Waiting \<in> set (tp_workers s)" using i by (metis nth_mem)
  then show ?thesis
    using d(1-7) m worker_sums(1,2) [OF i, of Ready] Exited_update [of "tp_workers s" i Ready]
    by (auto simp: tp_ok_def tp_enqueue_def)
qed

lemma tp_ok_finish:
  assumes ok: "tp_ok n es s" and i: "i < length (tp_workers s)" "tp_workers s ! i = Running j"
  shows "tp_ok n es (tp_finish i j s)"
proof -
  have "mset (tp_started s) = mset (tp_done s) + {#j#} + sum_of running ((tp_workers s)[i := Ready])"
    using tp_okD(5) [OF ok] worker_sums(1) [OF i, of Ready] by simp
  then show ?thesis
    using tp_okD [OF ok] worker_sums(2) [OF i, of Ready] Waiting_update [of "tp_workers s" i Ready] Exited_update [of "tp_workers s" i Ready]
    by (auto simp: tp_ok_def tp_finish_def)
qed

lemma tp_ok_step:
  assumes ok: "tp_ok n es s" and step: "tp_step sp s s'"
  shows "tp_ok n es s'"
  using step
proof cases
  case (idle e es')
  then show ?thesis using tp_okD [OF ok] by (cases e) (auto simp: tp_ok_def)
next
  case (enqueue_no_waiter j es')
  then show ?thesis using tp_okD [OF ok] by (auto simp: tp_ok_def tp_enqueue_def)
next
  case notify_all
  then show ?thesis using tp_okD [OF ok] by (auto simp: tp_ok_def tp_notify_all_def sum_of_awake)
next
  case (join i)
  then show ?thesis using tp_okD [OF ok] by (auto simp: tp_ok_def)
next
  case failed
  then show ?thesis using tp_okD [OF ok] by (auto simp: tp_ok_def)
next
  case shutdown
  then show ?thesis using tp_okD [OF ok] by (auto simp: tp_ok_def)
next
  case (enqueue_notifies j es' i)
  then show ?thesis using tp_ok_enqueue [OF ok, of j es' i] by simp
next
  case (check i)
  then show ?thesis using tp_ok_check [OF ok, of i] by simp
next
  case (finish i j)
  then show ?thesis using tp_ok_finish [OF ok, of i j] by simp
next
  case (spurious i)
  then show ?thesis using tp_ok_wake [OF ok, of i] by simp
qed

lemma tp_ok_run: "tp_run s0 a b s \<Longrightarrow> s0 = ThreadPool n es \<Longrightarrow> tp_ok n es s"
  by (induction rule: tp_run.induct) (auto simp: tp_ok_start intro: tp_ok_step)

section \<open>A run\<close>

text \<open>One worker and one connection, from the start to the end.\<close>

definition sample_pool :: "nat main_thread \<Rightarrow> nat worker \<Rightarrow> nat list \<Rightarrow> nat list \<Rightarrow> nat list \<Rightarrow> nat thread_pool" where
  "sample_pool m w js started don = \<lparr>tp_jobs = js, tp_shutdown = (\<forall>es. m \<noteq> Accepting es), tp_workers = [w],
     tp_main = m, tp_ret = True, tp_started = started, tp_done = don\<rparr>"

lemmas pool_simps = sample_pool_def tp_enqueue_def tp_check_def tp_finish_def tp_goto_def tp_notify_all_def

lemma pool_taken:
  "tp_run (ThreadPool 1 [Accepted 7]) 2 0 (sample_pool (Accepting []) (Running 7) [] [7] [])"
proof -
  let ?s0 = "ThreadPool 1 [Accepted 7] :: nat thread_pool"
  have "tp_step False ?s0 (sample_pool (Accepting []) Ready [7] [] [])"
    using enqueue_no_waiter [of ?s0 7 "[]"] by (simp add: ThreadPool_def pool_simps)
  moreover have "tp_step False (sample_pool (Accepting []) Ready [7] [] []) (sample_pool (Accepting []) (Running 7) [] [7] [])"
    using check [of 0 "sample_pool (Accepting []) Ready [7] [] []"] by (simp add: pool_simps)
  ultimately show ?thesis using tp_run.thread [OF tp_run.thread [OF tp_run.start]] by (simp add: numeral_2_eq_2)
qed

lemma pool_ended: "tp_run (ThreadPool 1 [Accepted 7]) 7 0 (sample_pool (Joining 1) Exited [] [7] [7])"
proof -
  let ?s = "\<lambda>m w. sample_pool m w [] [7] [7]"
  have "tp_step False (sample_pool (Accepting []) (Running 7) [] [7] []) (?s (Accepting []) Ready)"
    using finish [of 0 "sample_pool (Accepting []) (Running 7) [] [7] []" 7] by (simp add: pool_simps)
  moreover have "tp_step False (?s (Accepting []) Ready) (?s Notifying Ready)"
    using shutdown [of "?s (Accepting []) Ready"] by (simp add: pool_simps)
  moreover have "tp_step False (?s Notifying Ready) (?s (Joining 0) Ready)"
    using notify_all [of "?s Notifying Ready"] by (simp add: pool_simps)
  moreover have "tp_step False (?s (Joining 0) Ready) (?s (Joining 0) Exited)"
    using check [of 0 "?s (Joining 0) Ready"] by (simp add: pool_simps)
  moreover have "tp_step False (?s (Joining 0) Exited) (?s (Joining 1) Exited)"
    using join [of "?s (Joining 0) Exited" 0] by (simp add: pool_simps)
  ultimately show ?thesis
    using tp_run.thread [OF tp_run.thread [OF tp_run.thread [OF tp_run.thread [OF tp_run.thread [OF pool_taken]]]]] by simp
qed

lemma pool_stuck: "\<not> tp_step False (sample_pool (Joining 1) Exited [] [7] [7]) s'"
  by (auto simp: sample_pool_def elim: tp_step.cases)

section \<open>Properties\<close>

text \<open>
  C25: In every state that the threads of the pool can reach, the workers have taken the accepted connections in the
  order of their acceptance, each once; what they have taken is handled or in the hands of a worker; and no
  wakeup is lost: while a connection is waiting in the queue, some worker is awake.
\<close>

theorem thread_pool_fifo:
  assumes "tp_run (ThreadPool n es) a b s"
  shows "prefix (tp_started s @ tp_jobs s) (accepted es) \<and>
    mset (tp_started s) = mset (tp_done s) + sum_of running (tp_workers s) \<and>
    (0 < n \<and> tp_jobs s \<noteq> [] \<longrightarrow> (\<exists>w \<in> set (tp_workers s). w = Ready \<or> (\<exists>j. w = Running j)))"
proof -
  note d = tp_okD [OF tp_ok_run [OF assms refl]]
  have "\<exists>w \<in> set (tp_workers s). w = Ready \<or> (\<exists>j. w = Running j)" if n: "0 < n" and jobs: "tp_jobs s \<noteq> []"
  proof (rule ccontr)
    assume "\<not> (\<exists>w \<in> set (tp_workers s). w = Ready \<or> (\<exists>j. w = Running j))"
    then have all: "\<forall>w \<in> set (tp_workers s). w = Waiting \<or> w = Exited" by (meson worker.exhaust)
    obtain w where "w \<in> set (tp_workers s)" using d(1) n by (cases "tp_workers s") auto
    moreover have "Exited \<notin> set (tp_workers s)" using d(7) jobs by blast
    ultimately have "Waiting \<in> set (tp_workers s)" using all by auto
    then show False using d(6) no_worker_ready [OF all] jobs by simp
  qed
  moreover have "prefix (tp_started s @ tp_jobs s) (accepted es)" using d(3) unfolding prefix_def by (metis append_assoc)
  ultimately show ?thesis using d(5) by blast
qed

theorem thread_pool_fifo_witness:
  "\<exists>s :: nat thread_pool. tp_started s @ tp_jobs s = [7] \<and> tp_done s = [] \<and> prefix (tp_started s @ tp_jobs s) (accepted [Accepted 7]) \<and>
    sum_of running (tp_workers s) = {#7#}"
  using thread_pool_fifo [OF pool_taken] by (intro exI [of _ "sample_pool (Accepting []) (Running 7) [] [7] []"]) (simp add: sample_pool_def)

text \<open>A step of a thread brings the pool nearer to its end, a spurious wakeup sets it back by one.\<close>

fun main_effort :: "nat \<Rightarrow> 'j main_thread \<Rightarrow> nat" where
  "main_effort n (Accepting es) = 4 * length es + 2 * n + 2"
| "main_effort n Notifying = 2 * n + 1"
| "main_effort n (Joining i) = n - i"

definition tp_measure :: "'j thread_pool \<Rightarrow> nat" where
  "tp_measure s = main_effort (length (tp_workers s)) (tp_main s) + 2 * length (tp_jobs s) + sum_of effort (tp_workers s)"

lemma tp_measure_check:
  assumes i: "i < length (tp_workers s)" "tp_workers s ! i = Ready"
  shows "tp_measure (tp_check i s) < tp_measure s"
proof -
  have e: "sum_of effort ((tp_workers s)[i := w]) + 1 = sum_of effort (tp_workers s) + effort w" for w
    using worker_sums(3) [OF i, of w] by simp
  show ?thesis
    using e [of Waiting] e [of Exited] e [of "Running (hd (tp_jobs s))"] by (cases "tp_jobs s") (auto simp: tp_check_def tp_measure_def)
qed

lemma tp_measure_step: "tp_step sp s s' \<Longrightarrow> tp_measure s' + of_bool (\<not> sp) \<le> tp_measure s + of_bool sp"
proof (induction rule: tp_step.induct)
  case (enqueue_notifies s j es i)
  then show ?case
    using worker_sums(3) [of i "tp_workers s" Waiting Ready] by (simp add: tp_measure_def tp_enqueue_def)
next
  case (notify_all s)
  then show ?case using sum_of_awake(2) [of "tp_workers s"] by (simp add: tp_measure_def tp_notify_all_def)
next
  case (check i s)
  then show ?case using tp_measure_check [of i s] by simp
next
  case (finish i s j)
  then show ?case using worker_sums(3) [of i "tp_workers s" "Running j" Ready] by (simp add: tp_measure_def tp_finish_def)
next
  case (spurious i s)
  then show ?case using worker_sums(3) [of i "tp_workers s" Waiting Ready] by (simp add: tp_measure_def)
qed (simp_all add: tp_measure_def tp_enqueue_def)

text \<open>
  C26: The pool does not run on: from its start, with \<open>n\<close> workers and the events of \<open>accept\<close> that are given, the threads
  take no more steps than four for each event, three for each worker, two, and one for each spurious wakeup of
  the system.
\<close>

theorem thread_pool_terminates:
  assumes "tp_run (ThreadPool n es) a b s"
  shows "a \<le> 4 * length es + 3 * n + 2 + b"
proof -
  have "tp_measure s + a \<le> tp_measure (ThreadPool n es) + b"
    using assms
  proof (induction rule: tp_run.induct)
    case (thread a b s s')
    then show ?case using tp_measure_step [of False s s'] by simp
  next
    case (wakeup a b s s')
    then show ?case using tp_measure_step [of True s s'] by simp
  qed simp
  then show ?thesis by (simp add: tp_measure_def ThreadPool_def sum_of_replicate)
qed

theorem thread_pool_terminates_witness:
  "\<exists>a. tp_run (ThreadPool 1 [Accepted (7 :: nat)]) a 0 (sample_pool (Joining 1) Exited [] [7] [7]) \<and> a \<le> 4 * 1 + 3 * 1 + 2 + 0"
  using thread_pool_terminates [OF pool_ended] pool_ended by (intro exI [of _ 7]) simp

text \<open>
  C24: And it does not get stuck: when no thread can take a step any more, \<open>shutdown\<close> has returned, all workers have been
  joined, and every accepted connection has been handled exactly once, the ones still in the queue at the
  shutdown too; \<open>listen\<close> gives \<open>false\<close> exactly when \<open>accept\<close> has failed.
\<close>

theorem thread_pool_completes:
  assumes "tp_run (ThreadPool n es) a b s" and "0 < n" and "\<forall>s'. \<not> tp_step False s s'"
  shows "tp_main s = Joining n \<and> tp_workers s = replicate n Exited \<and> tp_started s = accepted es \<and>
    mset (tp_done s) = mset (accepted es) \<and> tp_ret s = no_failure es"
proof -
  note d = tp_okD [OF tp_ok_run [OF assms(1) refl]] and stuck = assms(3)
  have idle: "w = Waiting \<or> w = Exited" if w: "w \<in> set (tp_workers s)" for w
  proof -
    obtain i where "i < length (tp_workers s)" "tp_workers s ! i = w" using w by (metis in_set_conv_nth)
    then show ?thesis using stuck check [of i s] finish [of i s] by (cases w) blast+
  qed
  have "tp_main s \<noteq> Accepting es'" for es'
  proof
    assume m: "tp_main s = Accepting es'"
    show False
    proof (cases es')
      case Nil
      then show ?thesis using m stuck tp_step.shutdown [of s] by blast
    next
      case (Cons e es'')
      then show ?thesis
        using m stuck tp_step.idle [of s e es''] enqueue_notifies [of s _ es''] enqueue_no_waiter [of s _ es''] failed [of s es'']
        by (cases e) (blast | metis in_set_conv_nth)+
    qed
  qed
  then obtain i where m: "tp_main s = Joining i" using stuck tp_step.notify_all [of s] by (cases "tp_main s") blast+
  then have exited: "\<forall>w \<in> set (tp_workers s). w = Exited" using idle d(8) by blast
  then have "i = n" using m stuck join [of s i] d(1,8) by (metis le_neq_implies_less nth_mem)
  moreover have ws: "tp_workers s = replicate n Exited" using exited d(1) by (metis replicate_length_same)
  moreover have "tp_jobs s = []" using d(7) ws assms(2) by simp
  moreover have "sum_of running (tp_workers s) = {#}" using exited by (intro sum_of_running_none) auto
  ultimately show ?thesis using d(3,4,5) m by simp
qed

theorem thread_pool_completes_witness:
  "mset (tp_done (sample_pool (Joining 1) Exited [] [7] [7])) = mset (accepted [Accepted 7]) \<and> 0 < (1 :: nat)"
  using thread_pool_completes [OF pool_ended] pool_stuck by simp

end
