(* ===== verification/BoundedQueue.thy ===== *)
theory BoundedQueue imports Prelude begin

text \<open>
  \<open>limonp/BoundedQueue.hpp\<close>, a queue in a circular buffer of fixed size, which the blocking queue of the thread
  pool is made of.

  \<^item> A failed \<open>assert\<close> is \<open>None\<close>. The vector of the constructor is filled with a value of the element type.
  \<^item> \<open>bq_abs\<close> is the content from the oldest element on. The interface \<open>bounded_queue\<close> is what the clients
    rely on, and it is interpreted on the circular buffer.
\<close>

section \<open>The object\<close>

record 'a bounded_queue =
  bq_head :: nat
  bq_tail :: nat
  bq_size :: nat
  bq_capacity :: nat
  bq_buffer :: "'a list"

definition bq_new :: "'a \<Rightarrow> nat \<Rightarrow> 'a bounded_queue option" where
  "bq_new x0 capacity =
     (if capacity = 0 then None
      else Some \<lparr>bq_head = 0, bq_tail = 0, bq_size = 0, bq_capacity = capacity, bq_buffer = replicate capacity x0\<rparr>)"

definition bq_Clear :: "'a bounded_queue \<Rightarrow> 'a bounded_queue" where
  "bq_Clear q = q\<lparr>bq_head := 0, bq_tail := 0, bq_size := 0\<rparr>"

definition bq_Empty :: "'a bounded_queue \<Rightarrow> bool" where
  "bq_Empty q \<longleftrightarrow> bq_size q = 0"

definition bq_Full :: "'a bounded_queue \<Rightarrow> bool" where
  "bq_Full q \<longleftrightarrow> bq_capacity q = bq_size q"

definition bq_Push :: "'a bounded_queue \<Rightarrow> 'a \<Rightarrow> 'a bounded_queue option" where
  "bq_Push q t =
     (if bq_Full q then None
      else Some (q\<lparr>bq_buffer := (bq_buffer q)[bq_tail q := t], bq_tail := (bq_tail q + 1) mod bq_capacity q,
        bq_size := bq_size q + 1\<rparr>))"

definition bq_Pop :: "'a bounded_queue \<Rightarrow> ('a \<times> 'a bounded_queue) option" where
  "bq_Pop q =
     (if bq_Empty q then None
      else (let oldPos = bq_head q
            in Some (bq_buffer q ! oldPos, q\<lparr>bq_head := (bq_head q + 1) mod bq_capacity q, bq_size := bq_size q - 1\<rparr>)))"

section \<open>The content\<close>

definition bq_abs :: "'a bounded_queue \<Rightarrow> 'a list" where
  "bq_abs q = map (\<lambda>i. bq_buffer q ! ((bq_head q + i) mod bq_capacity q)) [0..<bq_size q]"

definition bq_ok :: "'a bounded_queue \<Rightarrow> bool" where
  "bq_ok q \<longleftrightarrow> 0 < bq_capacity q \<and> length (bq_buffer q) = bq_capacity q \<and> bq_head q < bq_capacity q \<and>
     bq_size q \<le> bq_capacity q \<and> bq_tail q = (bq_head q + bq_size q) mod bq_capacity q"

lemma length_bq_abs [simp]: "length (bq_abs q) = bq_size q"
  by (simp add: bq_abs_def)

lemma bq_abs_Nil: "bq_abs q = [] \<longleftrightarrow> bq_size q = 0"
  by (simp add: bq_abs_def)

text \<open>Two places of the buffer that are less than its size apart are different.\<close>

lemma mod_distance: "i < j \<Longrightarrow> j < i + c \<Longrightarrow> i mod c \<noteq> j mod (c :: nat)"
  by (metis add_diff_inverse_nat dvd_imp_le less_diff_conv2 less_imp_not_less mod_eq_dvd_iff_nat nat_less_le not_le zero_less_diff add.commute)

lemma bq_Push_ok:
  assumes "bq_ok q" and "bq_size q < bq_capacity q"
  shows "\<exists>q'. bq_Push q x = Some q' \<and> bq_ok q' \<and> bq_abs q' = bq_abs q @ [x] \<and> bq_capacity q' = bq_capacity q"
proof -
  let ?c = "bq_capacity q" and ?t = "(bq_head q + bq_size q) mod bq_capacity q"
  define q' where "q' = q\<lparr>bq_buffer := (bq_buffer q)[bq_tail q := x], bq_tail := (bq_tail q + 1) mod ?c, bq_size := bq_size q + 1\<rparr>"
  have "bq_Push q x = Some q'" using assms(2) by (simp add: bq_Push_def bq_Full_def q'_def)
  moreover have "bq_ok q'" using assms by (simp add: bq_ok_def q'_def mod_Suc_eq)
  moreover have "(bq_buffer q)[?t := x] ! ((bq_head q + i) mod ?c) = bq_buffer q ! ((bq_head q + i) mod ?c)" if "i < bq_size q" for i
    using mod_distance [of "bq_head q + i" "bq_head q + bq_size q" ?c] that assms by (simp add: bq_ok_def)
  then have "bq_abs q' = bq_abs q @ [x]"
    using assms by (simp add: bq_abs_def q'_def bq_ok_def)
  ultimately show ?thesis by (simp add: q'_def)
qed

lemma bq_Pop_ok:
  assumes "bq_ok q" and "bq_abs q = x # xs"
  shows "\<exists>q'. bq_Pop q = Some (x, q') \<and> bq_ok q' \<and> bq_abs q' = xs \<and> bq_capacity q' = bq_capacity q"
proof -
  define q' where "q' = q\<lparr>bq_head := (bq_head q + 1) mod bq_capacity q, bq_size := bq_size q - 1\<rparr>"
  obtain n where n: "bq_size q = Suc n" using assms(2) length_bq_abs [of q] by (cases "bq_size q") auto
  have abs: "bq_abs q = bq_buffer q ! bq_head q # bq_abs q'"
    using assms(1) n unfolding bq_abs_def q'_def bq_ok_def
    by (simp add: upt_conv_Cons del: upt_Suc) (simp add: map_Suc_upt [symmetric] mod_simps comp_def del: upt_Suc)
  have "bq_Pop q = Some (bq_buffer q ! bq_head q, q')" using n by (simp add: bq_Pop_def bq_Empty_def q'_def Let_def)
  moreover have "bq_ok q'" using assms(1) n by (simp add: bq_ok_def q'_def mod_simps)
  ultimately show ?thesis using abs assms(2) by (simp add: q'_def)
qed

section \<open>The interface\<close>

locale bounded_queue =
  fixes abs :: "'q \<Rightarrow> 'a list" and ok :: "'q \<Rightarrow> bool" and cap :: "'q \<Rightarrow> nat"
    and push :: "'q \<Rightarrow> 'a \<Rightarrow> 'q option" and pop :: "'q \<Rightarrow> ('a \<times> 'q) option" and clear :: "'q \<Rightarrow> 'q"
  assumes bounded: "ok q \<Longrightarrow> length (abs q) \<le> cap q"
    and push_room: "ok q \<Longrightarrow> length (abs q) < cap q \<Longrightarrow>
      \<exists>q'. push q x = Some q' \<and> ok q' \<and> abs q' = abs q @ [x] \<and> cap q' = cap q"
    and push_full: "ok q \<Longrightarrow> length (abs q) = cap q \<Longrightarrow> push q x = None"
    and pop_first: "ok q \<Longrightarrow> abs q = x # xs \<Longrightarrow> \<exists>q'. pop q = Some (x, q') \<and> ok q' \<and> abs q' = xs \<and> cap q' = cap q"
    and pop_empty: "ok q \<Longrightarrow> abs q = [] \<Longrightarrow> pop q = None"
    and clear: "ok q \<Longrightarrow> ok (clear q) \<and> abs (clear q) = [] \<and> cap (clear q) = cap q"
begin

lemma push_cases:
  assumes "ok q"
  shows "push q x = None \<and> length (abs q) = cap q \<or>
    (\<exists>q'. push q x = Some q' \<and> ok q' \<and> abs q' = abs q @ [x] \<and> cap q' = cap q \<and> length (abs q) < cap q)"
  using assms bounded [OF assms] push_full push_room [of q x] by (cases "length (abs q) = cap q") auto

lemma push_Some: "ok q \<Longrightarrow> push q x = Some q' \<Longrightarrow> ok q' \<and> abs q' = abs q @ [x] \<and> cap q' = cap q \<and> length (abs q) < cap q"
  using push_cases [of q x] by auto

lemma pop_Some: "ok q \<Longrightarrow> pop q = Some (x, q') \<Longrightarrow> ok q' \<and> abs q = x # abs q' \<and> cap q' = cap q"
  using pop_empty [of q] pop_first [of q] by (cases "abs q") fastforce+

lemma pop_None: "ok q \<Longrightarrow> pop q = None \<longleftrightarrow> abs q = []"
  using pop_empty [of q] pop_first [of q] by (cases "abs q") fastforce+

lemma push_None: "ok q \<Longrightarrow> push q x = None \<longleftrightarrow> length (abs q) = cap q"
  using push_cases [of q x] by auto

end

interpretation bq: bounded_queue bq_abs bq_ok bq_capacity bq_Push bq_Pop bq_Clear
proof unfold_locales
  fix q :: "'a bounded_queue" and x xs
  assume ok: "bq_ok q"
  show "length (bq_abs q) \<le> bq_capacity q" using ok by (simp add: bq_ok_def)
  show "length (bq_abs q) < bq_capacity q \<Longrightarrow>
      \<exists>q'. bq_Push q x = Some q' \<and> bq_ok q' \<and> bq_abs q' = bq_abs q @ [x] \<and> bq_capacity q' = bq_capacity q"
    using bq_Push_ok [OF ok] by simp
  show "length (bq_abs q) = bq_capacity q \<Longrightarrow> bq_Push q x = None" by (simp add: bq_Push_def bq_Full_def)
  show "bq_abs q = x # xs \<Longrightarrow> \<exists>q'. bq_Pop q = Some (x, q') \<and> bq_ok q' \<and> bq_abs q' = xs \<and> bq_capacity q' = bq_capacity q"
    by (rule bq_Pop_ok [OF ok])
  show "bq_abs q = [] \<Longrightarrow> bq_Pop q = None" by (simp add: bq_Pop_def bq_Empty_def bq_abs_Nil)
  show "bq_ok (bq_Clear q) \<and> bq_abs (bq_Clear q) = [] \<and> bq_capacity (bq_Clear q) = bq_capacity q"
    using ok by (simp add: bq_ok_def bq_Clear_def bq_abs_def)
qed

section \<open>Any sequence of operations\<close>

datatype 'a bq_op = Push 'a | Pop | Clear_all

text \<open>The queue afterwards and what the calls of \<open>Pop\<close> gave; \<open>None\<close> when an \<open>assert\<close> failed.\<close>

fun bq_run :: "'a bq_op list \<Rightarrow> 'a bounded_queue \<Rightarrow> ('a list \<times> 'a bounded_queue) option" where
  "bq_run [] q = Some ([], q)"
| "bq_run (Push x # ops) q = (case bq_Push q x of None \<Rightarrow> None | Some q' \<Rightarrow> bq_run ops q')"
| "bq_run (Pop # ops) q = (case bq_Pop q of None \<Rightarrow> None | Some (x, q') \<Rightarrow> map_option (apfst ((#) x)) (bq_run ops q'))"
| "bq_run (Clear_all # ops) q = bq_run ops (bq_Clear q)"

text \<open>The same on a list that never has more than \<open>c\<close> elements.\<close>

fun list_run :: "nat \<Rightarrow> 'a bq_op list \<Rightarrow> 'a list \<Rightarrow> ('a list \<times> 'a list) option" where
  "list_run c [] xs = Some ([], xs)"
| "list_run c (Push x # ops) xs = (if length xs = c then None else list_run c ops (xs @ [x]))"
| "list_run c (Pop # ops) xs = (case xs of [] \<Rightarrow> None | x # xs \<Rightarrow> map_option (apfst ((#) x)) (list_run c ops xs))"
| "list_run c (Clear_all # ops) xs = list_run c ops []"

lemma bq_run_ok:
  "bq_ok q \<Longrightarrow> map_option (apsnd bq_abs) (bq_run ops q) = list_run (bq_capacity q) ops (bq_abs q) \<and>
    (\<forall>out q'. bq_run ops q = Some (out, q') \<longrightarrow> bq_ok q')"
proof (induction ops arbitrary: q)
  case (Cons op ops)
  show ?case
  proof (cases op)
    case (Push x)
    then show ?thesis using Cons bq.push_cases [OF Cons.prems, of x] bq.bounded [OF Cons.prems] by auto
  next
    case Pop
    show ?thesis
    proof (cases "bq_abs q")
      case Nil
      then show ?thesis using Pop bq.pop_empty [OF Cons.prems Nil] by simp
    next
      case (Cons x xs)
      obtain q' where q: "bq_Pop q = Some (x, q')" "bq_ok q'" "bq_abs q' = xs" "bq_capacity q' = bq_capacity q"
        using bq_Pop_ok [OF Cons.prems Cons] by blast
      note ih = Cons.IH [OF q(2), unfolded q(3,4)]
      show ?thesis
        using ih q(1) Pop Cons by (cases "bq_run ops q'") (auto simp flip: ih [THEN conjunct1])
    qed
  next
    case Clear_all
    then show ?thesis using Cons bq.clear [OF Cons.prems] by auto
  qed
qed simp

text \<open>
  C31: The circular buffer is a bounded first-in first-out queue: whatever sequence of pushes, pops and clears a
  new queue runs through, it gives the results of the same operations on a list of at most \<open>capacity\<close> elements, keeps
  that list's content in order across the end of the buffer, and its asserts fail exactly for a push on a
  full and a pop on an empty queue.
\<close>

theorem bounded_queue_refines_list:
  assumes "bq_new x0 c = Some q"
  shows "map_option (apsnd bq_abs) (bq_run ops q) = list_run c ops []"
proof -
  have "bq_ok q" and "bq_capacity q = c" and "bq_abs q = []"
    using assms by (auto simp: bq_new_def bq_ok_def bq_abs_def split: if_splits)
  then show ?thesis using bq_run_ok [of q ops] by simp
qed

theorem bounded_queue_refines_list_witness:
  "\<exists>q. bq_new 0 2 = Some q \<and>
    map_option (apsnd bq_abs) (bq_run [Push 1, Push 2, Pop, Push 3, Pop] q) = Some ([1, 2 :: nat], [3])"
proof -
  have "bq_new 0 2 = Some \<lparr>bq_head = 0, bq_tail = 0, bq_size = 0, bq_capacity = 2, bq_buffer = [0, 0 :: nat]\<rparr>"
    by (simp add: bq_new_def numeral_2_eq_2)
  from bounded_queue_refines_list [OF this, of "[Push 1, Push 2, Pop, Push 3, Pop]"] this show ?thesis by simp
qed

end
