(* ===== verification/LimonpThreadPool.thy ===== *)
theory LimonpThreadPool imports Workers BoundedQueue begin

text \<open>
  \<open>limonp/ThreadPool.hpp\<close> over \<open>limonp/BoundedBlockingQueue.hpp\<close>: a thread that adds tasks and then stops the pool, and the
  workers that take them from a queue of bounded size, whose elements are pointers to closures, \<open>None\<close> the null
  pointer by which a worker is told to end.

  \<^item> Only the thread of the client pushes, so that at most one thread sleeps on \<open>notFull_\<close>: \<open>lp_asleep\<close>. The workers
    sleep on \<open>notEmpty_\<close>. A call of \<open>Push\<close> or \<open>Pop\<close> is one step when it does not sleep.
  \<^item> \<open>lp_popped\<close> records what the workers have taken, \<open>lp_done\<close> the tasks that have run, \<open>lp_logged\<close> those of them whose
    exception was caught and logged.
  \<^item> The run begins after \<open>Start\<close>. \<open>lp_step True\<close> is a spurious wakeup; a task returns or throws.
\<close>

section \<open>The threads\<close>

datatype client = Pushing | Joining nat

record 'j limonp_pool =
  lp_queue :: "'j option bounded_queue"
  lp_workers :: "'j worker list"
  lp_pushes :: "'j option list"
  lp_client :: client
  lp_asleep :: bool
  lp_popped :: "'j option list"
  lp_done :: "'j list"
  lp_logged :: "'j list"

text \<open>What the client pushes: the tasks by \<open>Add\<close>, and a null pointer for each thread by \<open>Stop\<close>.\<close>

definition all_pushes :: "nat \<Rightarrow> 'j list \<Rightarrow> 'j option list" where
  "all_pushes n tasks = map Some tasks @ replicate n None"

text \<open>The constructor and \<open>Start\<close>.\<close>

definition lp_start :: "nat \<Rightarrow> 'j list \<Rightarrow> 'j limonp_pool option" where
  "lp_start thread_num tasks = map_option (\<lambda>q. \<lparr>lp_queue = q, lp_workers = replicate thread_num Ready,
     lp_pushes = all_pushes thread_num tasks, lp_client = Pushing, lp_asleep = False, lp_popped = [],
     lp_done = [], lp_logged = []\<rparr>) (bq_new None thread_num)"

definition lp_goto :: "nat \<Rightarrow> 'j worker \<Rightarrow> 'j limonp_pool \<Rightarrow> 'j limonp_pool" where
  "lp_goto i w s = s\<lparr>lp_workers := (lp_workers s)[i := w]\<rparr>"

text \<open>\<open>BoundedBlockingQueue::Push\<close> under the mutex, up to \<open>notEmpty_.Notify()\<close>; \<open>None\<close> is a failed \<open>assert\<close>.\<close>

definition lp_push :: "'j limonp_pool \<Rightarrow> 'j limonp_pool option" where
  "lp_push s =
     (if bq_Full (lp_queue s) then Some (s\<lparr>lp_asleep := True\<rparr>)
      else map_option (\<lambda>q. s\<lparr>lp_queue := q, lp_pushes := tl (lp_pushes s)\<rparr>) (bq_Push (lp_queue s) (hd (lp_pushes s))))"

text \<open>\<open>BoundedBlockingQueue::Pop\<close> by worker \<open>i\<close>, with \<open>notFull_.Notify()\<close>, and the test for the null pointer.\<close>

definition lp_pop :: "nat \<Rightarrow> 'j limonp_pool \<Rightarrow> 'j limonp_pool option" where
  "lp_pop i s =
     (if bq_Empty (lp_queue s) then Some (lp_goto i Waiting s)
      else map_option (\<lambda>(closure, q). lp_goto i (case closure of None \<Rightarrow> Exited | Some j \<Rightarrow> Running j)
             (s\<lparr>lp_queue := q, lp_asleep := False, lp_popped := lp_popped s @ [closure]\<rparr>)) (bq_Pop (lp_queue s)))"

definition lp_finish :: "nat \<Rightarrow> 'j \<Rightarrow> bool \<Rightarrow> 'j limonp_pool \<Rightarrow> 'j limonp_pool" where
  "lp_finish i j throws s = lp_goto i Ready
     (s\<lparr>lp_done := lp_done s @ [j], lp_logged := (if throws then lp_logged s @ [j] else lp_logged s)\<rparr>)"

definition lp_can_push :: "'j limonp_pool \<Rightarrow> bool" where
  "lp_can_push s \<longleftrightarrow> lp_client s = Pushing \<and> lp_pushes s \<noteq> [] \<and> \<not> lp_asleep s"

inductive lp_step :: "bool \<Rightarrow> 'j limonp_pool \<Rightarrow> 'j limonp_pool \<Rightarrow> bool" where
  push_waits: "lp_can_push s \<Longrightarrow> bq_Full (lp_queue s) \<Longrightarrow> lp_push s = Some s' \<Longrightarrow> lp_step False s s'"
| push_notifies: "lp_can_push s \<Longrightarrow> \<not> bq_Full (lp_queue s) \<Longrightarrow> lp_push s = Some s' \<Longrightarrow>
    i < length (lp_workers s) \<Longrightarrow> lp_workers s ! i = Waiting \<Longrightarrow> lp_step False s (lp_goto i Ready s')"
| push_no_waiter: "lp_can_push s \<Longrightarrow> \<not> bq_Full (lp_queue s) \<Longrightarrow> lp_push s = Some s' \<Longrightarrow>
    Waiting \<notin> set (lp_workers s) \<Longrightarrow> lp_step False s s'"
| pushed: "lp_client s = Pushing \<Longrightarrow> lp_pushes s = [] \<Longrightarrow> lp_step False s (s\<lparr>lp_client := Joining 0\<rparr>)"
| join: "lp_client s = Joining i \<Longrightarrow> i < length (lp_workers s) \<Longrightarrow> lp_workers s ! i = Exited \<Longrightarrow>
    lp_step False s (s\<lparr>lp_client := Joining (Suc i)\<rparr>)"
| pop: "i < length (lp_workers s) \<Longrightarrow> lp_workers s ! i = Ready \<Longrightarrow> lp_pop i s = Some s' \<Longrightarrow> lp_step False s s'"
| finish: "i < length (lp_workers s) \<Longrightarrow> lp_workers s ! i = Running j \<Longrightarrow> lp_step False s (lp_finish i j throws s)"
| spurious_worker: "i < length (lp_workers s) \<Longrightarrow> lp_workers s ! i = Waiting \<Longrightarrow> lp_step True s (lp_goto i Ready s)"
| spurious_client: "lp_asleep s \<Longrightarrow> lp_step True s (s\<lparr>lp_asleep := False\<rparr>)"

inductive lp_run :: "'j limonp_pool \<Rightarrow> nat \<Rightarrow> nat \<Rightarrow> 'j limonp_pool \<Rightarrow> bool" for s0 where
  start: "lp_run s0 0 0 s0"
| thread: "lp_run s0 a b s \<Longrightarrow> lp_step False s s' \<Longrightarrow> lp_run s0 (a + 1) b s'"
| wakeup: "lp_run s0 a b s \<Longrightarrow> lp_step True s s' \<Longrightarrow> lp_run s0 a (b + 1) s'"

section \<open>The invariant\<close>

definition tasks_of :: "'j option list \<Rightarrow> 'j list" where
  "tasks_of xs = List.map_filter id xs"

definition lp_ok :: "nat \<Rightarrow> 'j list \<Rightarrow> 'j limonp_pool \<Rightarrow> bool" where
  "lp_ok n tasks s \<longleftrightarrow>
     length (lp_workers s) = n \<and> bq_ok (lp_queue s) \<and> bq_capacity (lp_queue s) = n \<and>
     lp_popped s @ bq_abs (lp_queue s) @ lp_pushes s = all_pushes n tasks \<and>
     mset (tasks_of (lp_popped s)) = mset (lp_done s) + sum_of running (lp_workers s) \<and>
     sum_of exited (lp_workers s) = count_list (lp_popped s) None \<and>
     (lp_asleep s \<longrightarrow> lp_client s = Pushing \<and> lp_pushes s \<noteq> [] \<and> length (bq_abs (lp_queue s)) = n) \<and>
     (Waiting \<in> set (lp_workers s) \<longrightarrow> length (bq_abs (lp_queue s)) \<le> sum_of ready (lp_workers s)) \<and>
     (\<forall>i. lp_client s = Joining i \<longrightarrow> i \<le> n \<and> lp_pushes s = [])"

lemma lp_okD:
  assumes "lp_ok n tasks s"
  shows "length (lp_workers s) = n" and "bq_ok (lp_queue s)" and "bq_capacity (lp_queue s) = n"
    and "lp_popped s @ bq_abs (lp_queue s) @ lp_pushes s = all_pushes n tasks"
    and "mset (tasks_of (lp_popped s)) = mset (lp_done s) + sum_of running (lp_workers s)"
    and "sum_of exited (lp_workers s) = count_list (lp_popped s) None"
    and "lp_asleep s \<Longrightarrow> lp_client s = Pushing \<and> lp_pushes s \<noteq> [] \<and> length (bq_abs (lp_queue s)) = n"
    and "Waiting \<in> set (lp_workers s) \<Longrightarrow> length (bq_abs (lp_queue s)) \<le> sum_of ready (lp_workers s)"
    and "lp_client s = Joining i \<Longrightarrow> i \<le> n \<and> lp_pushes s = []"
  using assms unfolding lp_ok_def by blast+

lemma lp_goto_simps [simp]:
  "lp_queue (lp_goto i w s) = lp_queue s" "lp_workers (lp_goto i w s) = (lp_workers s)[i := w]"
  "lp_pushes (lp_goto i w s) = lp_pushes s" "lp_client (lp_goto i w s) = lp_client s"
  "lp_asleep (lp_goto i w s) = lp_asleep s" "lp_popped (lp_goto i w s) = lp_popped s"
  "lp_done (lp_goto i w s) = lp_done s" "lp_logged (lp_goto i w s) = lp_logged s"
  by (simp_all add: lp_goto_def)

lemma tasks_of_simps [simp]:
  "tasks_of [] = []" "tasks_of (xs @ ys) = tasks_of xs @ tasks_of ys" "tasks_of (None # xs) = tasks_of xs"
  "tasks_of (Some j # xs) = j # tasks_of xs" "tasks_of (map Some js) = js" "tasks_of (replicate n None) = []"
proof -
  show "tasks_of (map Some js) = js" by (induction js) (simp_all add: tasks_of_def map_filter_simps)
  show "tasks_of (replicate n None) = []" by (induction n) (simp_all add: tasks_of_def map_filter_simps)
qed (simp_all add: tasks_of_def map_filter_simps map_filter_def)

lemma lp_ok_start: "lp_start n tasks = Some s \<Longrightarrow> lp_ok n tasks s \<and> 0 < n"
  by (auto simp: lp_start_def bq_new_def lp_ok_def bq_ok_def bq_abs_def sum_of_replicate split: if_splits)

lemma lp_ok_wake:
  assumes ok: "lp_ok n tasks s" and i: "i < length (lp_workers s)" "lp_workers s ! i = Waiting"
  shows "lp_ok n tasks (lp_goto i Ready s)"
  using lp_okD [OF ok] worker_sums [OF i, of Ready] Waiting_update [of "lp_workers s" i Ready]
  by (auto simp: lp_ok_def)

text \<open>\<open>Push\<close> on a queue with room.\<close>

lemma lp_push_room:
  assumes ok: "lp_ok n tasks s" and can: "lp_can_push s" and room: "\<not> bq_Full (lp_queue s)" and push: "lp_push s = Some s'"
  shows "\<exists>q. s' = s\<lparr>lp_queue := q, lp_pushes := tl (lp_pushes s)\<rparr> \<and> bq_ok q \<and> bq_capacity q = n \<and>
    bq_abs q = bq_abs (lp_queue s) @ [hd (lp_pushes s)]"
proof -
  from push room obtain q where q: "bq_Push (lp_queue s) (hd (lp_pushes s)) = Some q"
    and s': "s' = s\<lparr>lp_queue := q, lp_pushes := tl (lp_pushes s)\<rparr>"
    by (auto simp: lp_push_def)
  from bq.push_Some [OF lp_okD(2) [OF ok] q] s' lp_okD(3) [OF ok] show ?thesis by blast
qed

lemma lp_ok_push:
  assumes ok: "lp_ok n tasks s" and can: "lp_can_push s" and room: "\<not> bq_Full (lp_queue s)" and push: "lp_push s = Some s'"
  shows "Waiting \<notin> set (lp_workers s) \<Longrightarrow> lp_ok n tasks s'"
    and "i < length (lp_workers s) \<Longrightarrow> lp_workers s ! i = Waiting \<Longrightarrow> lp_ok n tasks (lp_goto i Ready s')"
proof -
  note d = lp_okD [OF ok]
  obtain q where s': "s' = s\<lparr>lp_queue := q, lp_pushes := tl (lp_pushes s)\<rparr>" and q: "bq_ok q" "bq_capacity q = n"
    "bq_abs q = bq_abs (lp_queue s) @ [hd (lp_pushes s)]"
    using lp_push_room [OF assms] by blast
  have p: "lp_pushes s \<noteq> []" "\<not> lp_asleep s" "lp_client s = Pushing" using can by (auto simp: lp_can_push_def)
  have all: "lp_popped s @ bq_abs q @ tl (lp_pushes s) = all_pushes n tasks" using d(4) p q(3) by simp
  show "lp_ok n tasks s'" if "Waiting \<notin> set (lp_workers s)"
    using d q(1,2) p all that by (simp add: s' lp_ok_def)
  show "lp_ok n tasks (lp_goto i Ready s')" if i: "i < length (lp_workers s)" "lp_workers s ! i = Waiting"
  proof -
    have "Waiting \<in> set (lp_workers s)" using i by (metis nth_mem)
    then show ?thesis using d q p all worker_sums [OF i, of Ready] by (simp add: s' lp_ok_def)
  qed
qed

lemma lp_ok_pop:
  assumes ok: "lp_ok n tasks s" and i: "i < length (lp_workers s)" "lp_workers s ! i = Ready" and pop: "lp_pop i s = Some s'"
  shows "lp_ok n tasks s'"
proof (cases "bq_Empty (lp_queue s)")
  case True
  then have s': "s' = lp_goto i Waiting s" using pop by (simp add: lp_pop_def)
  moreover have "bq_abs (lp_queue s) = []" using True by (simp add: bq_Empty_def bq_abs_Nil)
  ultimately show ?thesis using lp_okD [OF ok] worker_sums [OF i, of Waiting] by (auto simp: lp_ok_def)
next
  case False
  note d = lp_okD [OF ok]
  from pop False obtain x q where q: "bq_Pop (lp_queue s) = Some (x, q)"
    and s': "s' = lp_goto i (case x of None \<Rightarrow> Exited | Some j \<Rightarrow> Running j)
      (s\<lparr>lp_queue := q, lp_asleep := False, lp_popped := lp_popped s @ [x]\<rparr>)"
    by (auto simp: lp_pop_def)
  have a: "bq_ok q" "bq_abs (lp_queue s) = x # bq_abs q" "bq_capacity q = n" using bq.pop_Some [OF d(2) q] d(3) by simp_all
  have w: "Waiting \<in> set ((lp_workers s)[i := w]) \<Longrightarrow> w \<noteq> Waiting \<Longrightarrow> Suc (length (bq_abs q)) \<le> sum_of ready (lp_workers s)" for w
    using Waiting_update [of "lp_workers s" i w] d(8) a(2) by simp
  show ?thesis
  proof (cases x)
    case None
    then show ?thesis using d a w [of Exited] worker_sums [OF i, of Exited] by (auto simp: s' lp_ok_def)
  next
    case (Some j)
    then show ?thesis using d a w [of "Running j"] worker_sums [OF i, of "Running j"] by (auto simp: s' lp_ok_def)
  qed
qed

lemma lp_ok_finish:
  assumes ok: "lp_ok n tasks s" and i: "i < length (lp_workers s)" "lp_workers s ! i = Running j"
  shows "lp_ok n tasks (lp_finish i j throws s)"
proof -
  have "mset (tasks_of (lp_popped s)) = mset (lp_done s) + {#j#} + sum_of running ((lp_workers s)[i := Ready])"
    using lp_okD(5) [OF ok] worker_sums(1) [OF i, of Ready] by simp
  then show ?thesis
    using lp_okD [OF ok] worker_sums [OF i, of Ready] Waiting_update [of "lp_workers s" i Ready]
    by (auto simp: lp_ok_def lp_finish_def)
qed

lemma lp_ok_step:
  assumes ok: "lp_ok n tasks s" and step: "lp_step sp s s'"
  shows "lp_ok n tasks s'"
  using step
proof cases
  case push_waits
  then have "s' = s\<lparr>lp_asleep := True\<rparr>" "lp_client s = Pushing" "lp_pushes s \<noteq> []" "bq_size (lp_queue s) = n"
    using lp_okD(3) [OF ok] by (auto simp: lp_push_def lp_can_push_def bq_Full_def)
  then show ?thesis using lp_okD [OF ok] by (simp add: lp_ok_def)
next
  case (push_notifies s'' i)
  then show ?thesis using lp_ok_push(2) [OF ok, of s'' i] by simp
next
  case push_no_waiter
  then show ?thesis using lp_ok_push(1) [OF ok, of s'] by simp
next
  case (pop i)
  then show ?thesis using lp_ok_pop [OF ok, of i s'] by simp
next
  case (finish i j throws)
  then show ?thesis using lp_ok_finish [OF ok, of i j throws] by simp
next
  case (spurious_worker i)
  then show ?thesis using lp_ok_wake [OF ok, of i] by simp
next
  case pushed
  then show ?thesis using lp_okD [OF ok] by (auto simp: lp_ok_def)
next
  case (join i)
  then show ?thesis using lp_okD [OF ok] by (auto simp: lp_ok_def)
next
  case spurious_client
  then show ?thesis using lp_okD [OF ok] by (simp add: lp_ok_def)
qed

lemma lp_ok_run: "lp_run s0 a b s \<Longrightarrow> lp_start n tasks = Some s0 \<Longrightarrow> lp_ok n tasks s"
  by (induction rule: lp_run.induct) (auto dest: lp_ok_start intro: lp_ok_step)

section \<open>A run\<close>

text \<open>One thread and one task, which throws; the queue has one place.\<close>

definition sample_limonp :: "nat option \<Rightarrow> nat \<Rightarrow> nat worker \<Rightarrow> nat option list \<Rightarrow> client \<Rightarrow> nat option list \<Rightarrow> nat list \<Rightarrow>
    nat limonp_pool" where
  "sample_limonp x k w pushes c popped don = \<lparr>
     lp_queue = \<lparr>bq_head = 0, bq_tail = 0, bq_size = k, bq_capacity = 1, bq_buffer = [x]\<rparr>,
     lp_workers = [w], lp_pushes = pushes, lp_client = c, lp_asleep = False, lp_popped = popped, lp_done = don, lp_logged = don\<rparr>"

lemmas limonp_simps = sample_limonp_def lp_can_push_def lp_push_def lp_pop_def lp_finish_def lp_goto_def
  bq_Push_def bq_Pop_def bq_Full_def bq_Empty_def

lemma limonp_started: "lp_start 1 [7] = Some (sample_limonp None 0 Ready [Some 7, None] Pushing [] [])"
  by (simp add: lp_start_def bq_new_def all_pushes_def sample_limonp_def)

lemma limonp_taken:
  "lp_run (sample_limonp None 0 Ready [Some 7, None] Pushing [] []) 2 0 (sample_limonp (Some 7) 0 (Running 7) [None] Pushing [Some 7] [])"
proof -
  let ?s0 = "sample_limonp None 0 Ready [Some 7, None] Pushing [] []"
  let ?s1 = "sample_limonp (Some 7) 1 Ready [None] Pushing [] []"
  have "lp_step False ?s0 ?s1" by (rule push_no_waiter) (simp_all add: limonp_simps)
  moreover have "lp_step False ?s1 (sample_limonp (Some 7) 0 (Running 7) [None] Pushing [Some 7] [])"
    by (rule pop [of 0]) (simp_all add: limonp_simps)
  ultimately show ?thesis using lp_run.thread [OF lp_run.thread [OF lp_run.start]] by (simp add: numeral_2_eq_2)
qed

lemma limonp_ended:
  "lp_run (sample_limonp None 0 Ready [Some 7, None] Pushing [] []) 7 0 (sample_limonp None 0 Exited [] (Joining 1) [Some 7, None] [7])"
proof -
  let ?s2 = "sample_limonp (Some 7) 0 (Running 7) [None] Pushing [Some 7] []"
  let ?s3 = "sample_limonp (Some 7) 0 Ready [None] Pushing [Some 7] [7]"
  let ?s4 = "sample_limonp None 1 Ready [] Pushing [Some 7] [7]"
  let ?s5 = "\<lambda>c. sample_limonp None 0 Exited [] c [Some 7, None] [7]"
  have "lp_step False ?s2 ?s3" using finish [of 0 ?s2 7 True] by (simp add: limonp_simps)
  moreover have "lp_step False ?s3 ?s4" by (rule push_no_waiter) (simp_all add: limonp_simps)
  moreover have "lp_step False ?s4 (?s5 Pushing)" by (rule pop [of 0]) (simp_all add: limonp_simps)
  moreover have "lp_step False (?s5 Pushing) (?s5 (Joining 0))" using pushed [of "?s5 Pushing"] by (simp add: limonp_simps)
  moreover have "lp_step False (?s5 (Joining 0)) (?s5 (Joining 1))" using join [of "?s5 (Joining 0)" 0] by (simp add: limonp_simps)
  ultimately show ?thesis
    using lp_run.thread [OF lp_run.thread [OF lp_run.thread [OF lp_run.thread [OF lp_run.thread [OF limonp_taken]]]]] by simp
qed

lemma limonp_stuck: "\<not> lp_step False (sample_limonp None 0 Exited [] (Joining 1) [Some 7, None] [7]) s'"
  by (auto simp: sample_limonp_def lp_can_push_def elim: lp_step.cases)

section \<open>Properties\<close>

text \<open>When all threads have had their null pointer, nothing is left in the queue or to be pushed.\<close>

lemma all_exited_nothing_left:
  assumes ok: "lp_ok n tasks s" and n: "0 < n" and all: "\<forall>w \<in> set (lp_workers s). w = Exited"
  shows "bq_abs (lp_queue s) = [] \<and> lp_pushes s = [] \<and> lp_popped s = all_pushes n tasks"
proof -
  note d = lp_okD [OF ok]
  define rest where "rest = bq_abs (lp_queue s) @ lp_pushes s"
  have whole: "lp_popped s @ rest = map Some tasks @ replicate n None" using d(4) by (simp add: rest_def all_pushes_def)
  have "count_list (lp_popped s) None = n" using d(1,6) all exited_bound(2) [of "lp_workers s"] by simp
  moreover have "count_list (map Some tasks @ replicate n None) None = n"
    by (simp add: count_list_0_iff) (induction n; simp)
  ultimately have "count_list rest None = 0" using whole by (metis add_cancel_right_right count_list_append)
  then have "None \<notin> set rest" by (simp add: count_list_0_iff)
  moreover have "last (map Some tasks @ replicate n None) = None" using n by simp
  ultimately have "rest = []" using whole by (metis last_appendR last_in_set)
  then show ?thesis using d(4) by (simp add: rest_def)
qed

lemma idle_workers_empty_queue:
  assumes ok: "lp_ok n tasks s" and n: "0 < n" and idle: "\<forall>w \<in> set (lp_workers s). w = Waiting \<or> w = Exited"
  shows "bq_abs (lp_queue s) = []"
proof (cases "Waiting \<in> set (lp_workers s)")
  case True
  then show ?thesis using lp_okD(8) [OF ok] no_worker_ready [OF idle] by (simp add: bq_abs_Nil)
next
  case False
  then have "\<forall>w \<in> set (lp_workers s). w = Exited" using idle by metis
  then show ?thesis using all_exited_nothing_left [OF ok n] by simp
qed

lemma not_idle: "\<not> (\<exists>w \<in> set ws. w = Ready \<or> (\<exists>j. w = Running j)) \<Longrightarrow> \<forall>w \<in> set ws. w = Waiting \<or> w = Exited"
  by (meson worker.exhaust)

text \<open>
  In every state that the threads can reach, the queue has at most as many elements as there are threads and no
  \<open>assert\<close> has failed; the tasks have been taken in the order of \<open>Add\<close>, each once; what has been taken has run
  or is in the hands of a worker; and no wakeup is lost: while the queue has an element, some worker is awake, and
  the client sleeps only while the queue is full.
\<close>

theorem limonp_pool_fifo:
  assumes "lp_start n tasks = Some s0" and "lp_run s0 a b s"
  shows "length (bq_abs (lp_queue s)) \<le> n \<and> prefix (tasks_of (lp_popped s)) tasks \<and>
    mset (tasks_of (lp_popped s)) = mset (lp_done s) + sum_of running (lp_workers s) \<and>
    (bq_abs (lp_queue s) \<noteq> [] \<longrightarrow> (\<exists>w \<in> set (lp_workers s). w = Ready \<or> (\<exists>j. w = Running j))) \<and>
    (lp_asleep s \<longrightarrow> length (bq_abs (lp_queue s)) = n)"
proof -
  have ok: "lp_ok n tasks s" and n: "0 < n" using lp_ok_run [OF assms(2,1)] lp_ok_start [OF assms(1)] by auto
  note d = lp_okD [OF ok]
  have "tasks_of (lp_popped s) @ tasks_of (bq_abs (lp_queue s) @ lp_pushes s) = tasks_of (all_pushes n tasks)"
    using d(4) by (metis tasks_of_simps(2))
  then have "prefix (tasks_of (lp_popped s)) tasks" by (simp add: all_pushes_def prefix_def) metis
  then show ?thesis
    using d(5,7) bq.bounded [OF d(2)] d(3) idle_workers_empty_queue [OF ok n] not_idle [of "lp_workers s"] by auto
qed

theorem limonp_pool_fifo_witness:
  "\<exists>s :: nat limonp_pool. length (bq_abs (lp_queue s)) \<le> 1 \<and> tasks_of (lp_popped s) = [7] \<and>
    mset (tasks_of (lp_popped s)) = mset (lp_done s) + sum_of running (lp_workers s) \<and> lp_done s = []"
  using limonp_pool_fifo [OF limonp_started limonp_taken]
  by (intro exI [of _ "sample_limonp (Some 7) 0 (Running 7) [None] Pushing [Some 7] []"]) (simp add: sample_limonp_def)

fun client_effort :: "nat \<Rightarrow> nat \<Rightarrow> client \<Rightarrow> nat" where
  "client_effort n pushes Pushing = 5 * pushes + n + 1"
| "client_effort n pushes (Joining i) = n - i"

definition lp_measure :: "'j limonp_pool \<Rightarrow> nat" where
  "lp_measure s = client_effort (length (lp_workers s)) (length (lp_pushes s)) (lp_client s) + of_bool (\<not> lp_asleep s) +
     3 * bq_size (lp_queue s) + sum_of effort (lp_workers s)"

lemma lp_measure_pop:
  assumes ok: "lp_ok n tasks s" and i: "i < length (lp_workers s)" "lp_workers s ! i = Ready" and pop: "lp_pop i s = Some s'"
  shows "lp_measure s' < lp_measure s"
proof (cases "bq_Empty (lp_queue s)")
  case True
  then show ?thesis using pop worker_sums(3) [OF i, of Waiting] by (auto simp: lp_pop_def lp_measure_def)
next
  case False
  from pop False obtain x q where q: "bq_Pop (lp_queue s) = Some (x, q)"
    and s': "s' = lp_goto i (case x of None \<Rightarrow> Exited | Some j \<Rightarrow> Running j)
      (s\<lparr>lp_queue := q, lp_asleep := False, lp_popped := lp_popped s @ [x]\<rparr>)"
    by (auto simp: lp_pop_def)
  have "bq_size (lp_queue s) = Suc (bq_size q)"
    using bq.pop_Some [OF lp_okD(2) [OF ok] q] by (metis length_Cons length_bq_abs)
  moreover have "sum_of effort ((lp_workers s)[i := w]) + 1 = sum_of effort (lp_workers s) + effort w" for w
    using worker_sums(3) [OF i, of w] by simp
  from this [of Exited] this [of "Running (the x)"] have
    "sum_of effort (lp_workers s') \<le> sum_of effort (lp_workers s) + 1"
    by (cases x) (simp_all add: s')
  ultimately show ?thesis by (simp add: lp_measure_def s')
qed

lemma lp_measure_push:
  assumes ok: "lp_ok n tasks s" and can: "lp_can_push s" and room: "\<not> bq_Full (lp_queue s)" and push: "lp_push s = Some s'"
  shows "lp_measure s' + 2 = lp_measure s" and "lp_workers s' = lp_workers s"
proof -
  obtain q where s': "s' = s\<lparr>lp_queue := q, lp_pushes := tl (lp_pushes s)\<rparr>"
    and q: "bq_abs q = bq_abs (lp_queue s) @ [hd (lp_pushes s)]"
    using lp_push_room [OF assms] by blast
  have "bq_size q = Suc (bq_size (lp_queue s))" using q by (metis length_append_singleton length_bq_abs)
  moreover obtain x xs where "lp_pushes s = x # xs" using can by (cases "lp_pushes s") (auto simp: lp_can_push_def)
  ultimately show "lp_measure s' + 2 = lp_measure s" using can by (simp add: s' lp_measure_def lp_can_push_def)
  show "lp_workers s' = lp_workers s" by (simp add: s')
qed

lemma lp_measure_goto:
  "i < length (lp_workers s) \<Longrightarrow> lp_workers s ! i = Waiting \<Longrightarrow> lp_measure (lp_goto i Ready s) = lp_measure s + 1"
  using worker_sums(3) [of i "lp_workers s" Waiting Ready] by (simp add: lp_measure_def)

lemma lp_measure_step:
  assumes ok: "lp_ok n tasks s" and step: "lp_step sp s s'"
  shows "lp_measure s' + of_bool (\<not> sp) \<le> lp_measure s + of_bool sp"
  using step
proof cases
  case push_waits
  then show ?thesis by (auto simp: lp_push_def lp_can_push_def lp_measure_def)
next
  case (push_notifies s'' i)
  then show ?thesis using lp_measure_push [OF ok, of s''] lp_measure_goto [of i s''] by simp
next
  case push_no_waiter
  then show ?thesis using lp_measure_push [OF ok, of s'] by simp
next
  case (pop i)
  then show ?thesis using lp_measure_pop [OF ok, of i s'] by simp
next
  case (finish i j throws)
  then show ?thesis using worker_sums(3) [of i "lp_workers s" "Running j" Ready] by (simp add: lp_measure_def lp_finish_def)
next
  case (spurious_worker i)
  then show ?thesis using lp_measure_goto [of i s] by simp
qed (simp_all add: lp_measure_def)

text \<open>
  The pool ends: with \<open>n\<close> threads, the client and the workers take at most five steps for each task, seven for each
  thread, two, and one for each spurious wakeup of the system.
\<close>

theorem limonp_pool_terminates:
  assumes "lp_start n tasks = Some s0" and "lp_run s0 a b s"
  shows "a \<le> 5 * length tasks + 7 * n + 2 + b"
proof -
  have "lp_measure s + a \<le> lp_measure s0 + b"
    using assms(2)
  proof (induction rule: lp_run.induct)
    case (thread a b s s')
    then show ?case using lp_measure_step [OF lp_ok_run [OF thread.hyps(1) assms(1)] thread.hyps(2)] by simp
  next
    case (wakeup a b s s')
    then show ?case using lp_measure_step [OF lp_ok_run [OF wakeup.hyps(1) assms(1)] wakeup.hyps(2)] by simp
  qed simp
  then show ?thesis
    using assms(1) by (auto simp: lp_start_def bq_new_def lp_measure_def sum_of_replicate all_pushes_def split: if_splits)
qed

theorem limonp_pool_terminates_witness:
  "\<exists>s0. lp_start 1 [7 :: nat] = Some s0 \<and> lp_run s0 7 0 (sample_limonp None 0 Exited [] (Joining 1) [Some 7, None] [7]) \<and>
    (7 :: nat) \<le> 5 * 1 + 7 * 1 + 2 + 0"
  using limonp_pool_terminates [OF limonp_started limonp_ended] limonp_started limonp_ended by simp

text \<open>
  C27: And it does not get stuck: when no thread can take a step any more, \<open>Stop\<close> has joined all threads, each by a null
  pointer of its own, and every task has run exactly once, whether it threw or not.
\<close>

theorem limonp_pool_completes:
  assumes "lp_start n tasks = Some s0" and "lp_run s0 a b s" and "\<forall>s'. \<not> lp_step False s s'"
  shows "lp_client s = Joining n \<and> lp_workers s = replicate n Exited \<and> bq_abs (lp_queue s) = [] \<and>
    tasks_of (lp_popped s) = tasks \<and> mset (lp_done s) = mset tasks"
proof -
  have ok: "lp_ok n tasks s" and n: "0 < n" using lp_ok_run [OF assms(2,1)] lp_ok_start [OF assms(1)] by auto
  note d = lp_okD [OF ok] and stuck = assms(3)
  have idle: "\<forall>w \<in> set (lp_workers s). w = Waiting \<or> w = Exited"
  proof
    fix w assume "w \<in> set (lp_workers s)"
    then obtain i where i: "i < length (lp_workers s)" "lp_workers s ! i = w" by (metis in_set_conv_nth)
    have "\<exists>s'. lp_pop i s = Some s'" using bq.pop_None [OF d(2)] by (auto simp: lp_pop_def bq_Empty_def bq_abs_Nil)
    then show "w = Waiting \<or> w = Exited" using stuck i pop [of i s] finish [of i s] by (cases w) blast+
  qed
  have empty: "bq_abs (lp_queue s) = []" by (rule idle_workers_empty_queue [OF ok n idle])
  have "\<not> lp_asleep s" using d(7) empty n by auto
  moreover have "\<not> lp_can_push s"
  proof
    assume c: "lp_can_push s"
    have "bq_Push (lp_queue s) (hd (lp_pushes s)) \<noteq> None" using bq.push_None [OF d(2)] empty d(3) n by auto
    moreover have f: "\<not> bq_Full (lp_queue s)" using empty d(3) n by (simp add: bq_Full_def bq_abs_Nil)
    ultimately obtain s' where "lp_push s = Some s'" by (auto simp: lp_push_def)
    then show False using stuck push_no_waiter [OF c f] push_notifies [OF c f] by (metis in_set_conv_nth)
  qed
  ultimately obtain i where m: "lp_client s = Joining i"
    using stuck pushed [of s] by (cases "lp_client s") (auto simp: lp_can_push_def)
  have "count_list (lp_popped s) None = n"
  proof -
    have "lp_popped s = map Some tasks @ replicate n None" using d(4) empty d(9) [OF m] by (simp add: all_pushes_def)
    moreover have "count_list (map Some tasks @ replicate n None) None = n" by (simp add: count_list_0_iff) (induction n; simp)
    ultimately show ?thesis by simp
  qed
  then have all: "\<forall>w \<in> set (lp_workers s). w = Exited" using d(1,6) exited_bound(2) [of "lp_workers s"] by simp
  then have ws: "lp_workers s = replicate n Exited" using d(1) by (metis replicate_length_same)
  have "i = n" using m stuck join [of s i] d(1) d(9) [OF m] all by (metis le_neq_implies_less nth_mem)
  moreover have "tasks_of (lp_popped s) = tasks"
    using all_exited_nothing_left [OF ok n all] by (simp add: all_pushes_def)
  moreover have "sum_of running (lp_workers s) = {#}" using all by (intro sum_of_running_none) auto
  ultimately show ?thesis using m ws empty d(5) by simp
qed

theorem limonp_pool_completes_witness:
  "mset (lp_done (sample_limonp None 0 Exited [] (Joining 1) [Some 7, None] [7])) = mset [7] \<and> lp_start 1 [7 :: nat] \<noteq> None"
  using limonp_pool_completes [OF limonp_started limonp_ended] limonp_stuck limonp_started by simp

end
