(* ===== verification/BlockingQueue.thy ===== *)
theory BlockingQueue imports Workers begin

text \<open>
  \<open>limonp/BlockingQueue.hpp\<close>: the queue without a bound between threads that push and threads that pop.

  \<^item> A consumer is a worker of \<open>Workers\<close>: \<open>Ready\<close> before the test of the loop in \<open>Pop\<close>, \<open>Waiting\<close> in \<open>notEmpty_.Wait()\<close>,
    \<open>Running x\<close> once \<open>Pop\<close> has given it \<open>x\<close>. A call of \<open>Push\<close> is one step of any thread.
  \<^item> \<open>bl_pushed\<close> and \<open>bl_popped\<close> record the arguments of \<open>Push\<close> and the results of \<open>Pop\<close>, in order.
\<close>

record 'x blocking_queue =
  bl_queue :: "'x list"
  bl_consumers :: "'x worker list"
  bl_pushed :: "'x list"
  bl_popped :: "'x list"

definition bl_new :: "nat \<Rightarrow> 'x blocking_queue" where
  "bl_new n = \<lparr>bl_queue = [], bl_consumers = replicate n Ready, bl_pushed = [], bl_popped = []\<rparr>"

definition bl_Size :: "'x blocking_queue \<Rightarrow> nat" where "bl_Size s = length (bl_queue s)"

definition bl_Empty :: "'x blocking_queue \<Rightarrow> bool" where "bl_Empty s \<longleftrightarrow> bl_Size s = 0"

definition bl_goto :: "nat \<Rightarrow> 'x worker \<Rightarrow> 'x blocking_queue \<Rightarrow> 'x blocking_queue" where
  "bl_goto i w s = s\<lparr>bl_consumers := (bl_consumers s)[i := w]\<rparr>"

text \<open>\<open>Push\<close> up to \<open>notEmpty_.Notify()\<close>, which is in the steps.\<close>

definition bl_push :: "'x \<Rightarrow> 'x blocking_queue \<Rightarrow> 'x blocking_queue" where
  "bl_push x s = s\<lparr>bl_queue := bl_queue s @ [x], bl_pushed := bl_pushed s @ [x]\<rparr>"

text \<open>\<open>Pop\<close> by consumer \<open>i\<close>, from the test of its loop: it goes to sleep, or leaves with the front.\<close>

definition bl_pop :: "nat \<Rightarrow> 'x blocking_queue \<Rightarrow> 'x blocking_queue" where
  "bl_pop i s = (case bl_queue s of
     [] \<Rightarrow> bl_goto i Waiting s
   | front # queue \<Rightarrow> bl_goto i (Running front) (s\<lparr>bl_queue := queue, bl_popped := bl_popped s @ [front]\<rparr>))"

inductive bl_step :: "'x blocking_queue \<Rightarrow> 'x blocking_queue \<Rightarrow> bool" where
  push_notifies: "i < length (bl_consumers s) \<Longrightarrow> bl_consumers s ! i = Waiting \<Longrightarrow> bl_step s (bl_goto i Ready (bl_push x s))"
| push_no_waiter: "Waiting \<notin> set (bl_consumers s) \<Longrightarrow> bl_step s (bl_push x s)"
| pop: "i < length (bl_consumers s) \<Longrightarrow> bl_consumers s ! i = Ready \<Longrightarrow> bl_step s (bl_pop i s)"
| spurious: "i < length (bl_consumers s) \<Longrightarrow> bl_consumers s ! i = Waiting \<Longrightarrow> bl_step s (bl_goto i Ready s)"
| calls_again: "i < length (bl_consumers s) \<Longrightarrow> bl_consumers s ! i = Running x \<Longrightarrow> bl_step s (bl_goto i Ready s)"

inductive bl_run :: "nat \<Rightarrow> 'x blocking_queue \<Rightarrow> bool" for n where
  start: "bl_run n (bl_new n)"
| step: "bl_run n s \<Longrightarrow> bl_step s s' \<Longrightarrow> bl_run n s'"

lemma bl_goto_simps [simp]:
  "bl_queue (bl_goto i w s) = bl_queue s" "bl_consumers (bl_goto i w s) = (bl_consumers s)[i := w]"
  "bl_pushed (bl_goto i w s) = bl_pushed s" "bl_popped (bl_goto i w s) = bl_popped s"
  "bl_queue (bl_push x s) = bl_queue s @ [x]" "bl_consumers (bl_push x s) = bl_consumers s"
  "bl_pushed (bl_push x s) = bl_pushed s @ [x]" "bl_popped (bl_push x s) = bl_popped s"
  by (simp_all add: bl_goto_def bl_push_def)

text \<open>
  The invariant: elements leave in the order in which they came, and while a consumer sleeps there are not more elements
  than consumers that are on their way to the test.
\<close>

definition bl_ok :: "nat \<Rightarrow> 'x blocking_queue \<Rightarrow> bool" where
  "bl_ok n s \<longleftrightarrow> length (bl_consumers s) = n \<and> bl_pushed s = bl_popped s @ bl_queue s \<and>
     (Waiting \<in> set (bl_consumers s) \<longrightarrow> length (bl_queue s) \<le> sum_of ready (bl_consumers s))"

lemma bl_ok_step:
  assumes "bl_ok n s" and "bl_step s s'"
  shows "bl_ok n s'"
  using assms(2,1)
proof cases
  case (push_notifies i x)
  then show ?thesis using assms(1) worker_sums(2) [OF push_notifies(2,3), of Ready] Waiting_update [of "bl_consumers s" i Ready]
    by (auto simp: bl_ok_def)
next
  case (push_no_waiter x)
  then show ?thesis using assms(1) by (auto simp: bl_ok_def)
next
  case (pop i)
  show ?thesis
  proof (cases "bl_queue s")
    case Nil
    then show ?thesis using pop(1) assms(1) by (auto simp: bl_ok_def bl_pop_def)
  next
    case (Cons x q)
    then show ?thesis using pop(1) assms(1) worker_sums(2) [OF pop(2,3), of "Running x"]
        Waiting_update [of "bl_consumers s" i "Running x"] by (auto simp: bl_ok_def bl_pop_def)
  qed
next
  case (spurious i)
  then show ?thesis using assms(1) worker_sums(2) [OF spurious(2,3), of Ready] Waiting_update [of "bl_consumers s" i Ready]
    by (auto simp: bl_ok_def)
next
  case (calls_again i x)
  then show ?thesis using assms(1) worker_sums(2) [OF calls_again(2,3), of Ready] Waiting_update [of "bl_consumers s" i Ready]
    by (auto simp: bl_ok_def)
qed

lemma bl_run_ok: "bl_run n s \<Longrightarrow> bl_ok n s"
proof (induction rule: bl_run.induct)
  case start
  then show ?case by (simp add: bl_ok_def bl_new_def)
next
  case (step s s')
  then show ?case using bl_ok_step by blast
qed

text \<open>
  C28: Nothing is lost, doubled or overtaken between the threads, and no wakeup is lost: in every state that threads can
  reach, a consumer sleeps on a queue with elements only if at least as many consumers as there are elements are awake in
  \<open>Pop\<close> and will take them.
\<close>

theorem blocking_queue_safe:
  assumes "bl_run n s"
  shows "bl_pushed s = bl_popped s @ bl_queue s \<and>
    (Waiting \<in> set (bl_consumers s) \<longrightarrow> bl_Size s \<le> sum_of ready (bl_consumers s))"
  using bl_run_ok [OF assms] by (simp add: bl_ok_def bl_Size_def)

text \<open>Two consumers go to sleep, two elements come, and one of the consumers takes the first.\<close>

theorem blocking_queue_safe_witness:
  "\<exists>s. bl_run 2 s \<and> bl_pushed s = [1 :: nat, 2] \<and> bl_popped s = [1] \<and> bl_pushed s = bl_popped s @ bl_queue s"
proof -
  let ?sleep = "bl_pop 1 (bl_pop 0 (bl_new 2)) :: nat blocking_queue"
  let ?full = "bl_goto 1 Ready (bl_push 2 (bl_goto 0 Ready (bl_push 1 ?sleep)))"
  note r = bl_new_def bl_pop_def numeral_2_eq_2 bl_goto_def bl_push_def
  have "bl_run 2 (bl_new 2 :: nat blocking_queue)" by (rule bl_run.start)
  then have "bl_run 2 (bl_pop 0 (bl_new 2) :: nat blocking_queue)" by (rule bl_run.step) (rule bl_step.pop; simp add: r)
  then have "bl_run 2 ?sleep" by (rule bl_run.step) (rule bl_step.pop; simp add: r)
  then have "bl_run 2 (bl_goto 0 Ready (bl_push 1 ?sleep))" by (rule bl_run.step) (rule bl_step.push_notifies; simp add: r)
  then have "bl_run 2 ?full" by (rule bl_run.step) (rule bl_step.push_notifies; simp add: r)
  then have run: "bl_run 2 (bl_pop 0 ?full)" by (rule bl_run.step) (rule bl_step.pop; simp add: r)
  show ?thesis using run blocking_queue_safe [OF run] by (intro exI [of _ "bl_pop 0 ?full"]) (simp add: r)
qed

text \<open>No deadlock: with elements in the queue and a consumer in \<open>Pop\<close>, some consumer can take the front.\<close>

lemma blocking_queue_pops:
  assumes "bl_run n s" and "bl_queue s = x # q" and "\<exists>w \<in> set (bl_consumers s). w = Ready \<or> w = Waiting"
  shows "\<exists>i s'. i < n \<and> bl_step s s' \<and> bl_popped s' = bl_popped s @ [x]"
proof -
  have ok: "bl_ok n s" by (rule bl_run_ok [OF assms(1)])
  have "Ready \<in> set (bl_consumers s)"
  proof (rule ccontr)
    assume no: "Ready \<notin> set (bl_consumers s)"
    then have "Waiting \<in> set (bl_consumers s)" using assms(3) by auto
    then have "0 < sum_of ready (bl_consumers s)" using ok assms(2) by (auto simp: bl_ok_def)
    moreover have "ready w = 0" if "w \<in> set (bl_consumers s)" for w using no that by (cases w) auto
    then have "sum_of ready (bl_consumers s) = 0" by (simp add: sum_of_def)
    ultimately show False by simp
  qed
  then obtain i where i: "i < length (bl_consumers s)" "bl_consumers s ! i = Ready" by (metis in_set_conv_nth)
  then have "bl_step s (bl_pop i s)" by (rule bl_step.pop)
  then show ?thesis using i ok assms(2) by (auto simp: bl_pop_def bl_ok_def intro!: exI [of _ i] exI [of _ "bl_pop i s"])
qed

end
