(* ===== verification/Singleton.thy ===== *)
theory Singleton imports Main begin

text \<open>
  The two \<open>getInstance\<close> functions, of \<open>index\<close> (\<open>index.hpp\<close>) and of \<open>jiebaUtil\<close> (\<open>util.hpp\<close>): the check of
  \<open>_instance\<close> without the lock, the lock, the second check, the construction.

  One step is one access of a thread to the shared state, and the steps of any number of threads
  interleave in any order (the plain pointer is taken to be read and written atomically, which the
  language does not promise). \<open>inits\<close> tells the two apart: \<open>jiebaUtil\<close> calls \<open>initJiebaUtil\<close> on the object
  after its pointer is in \<open>_instance\<close>.
\<close>

section \<open>The threads\<close>

datatype pc = OuterCheck | Acquire | InnerCheck | New | Publish nat | InitObject | Release | ReadInstance
  | Returned "nat option"

text \<open>\<open>_instance\<close>, the holder of the mutex, the number of objects made, whether \<open>initJiebaUtil\<close> (or the
constructor alone) is through, and where each thread is.\<close>

record singleton =
  inst :: "nat option"
  mtx :: "nat option"
  made :: nat
  ready :: bool
  pcs :: "nat \<Rightarrow> pc"

definition no_instance :: singleton where
  "no_instance = \<lparr>inst = None, mtx = None, made = 0, ready = False, pcs = (\<lambda>t. OuterCheck)\<rparr>"

definition goto :: "nat \<Rightarrow> pc \<Rightarrow> singleton \<Rightarrow> singleton" where
  "goto t p s = s\<lparr>pcs := (pcs s)(t := p)\<rparr>"

inductive getInstance_step :: "bool \<Rightarrow> singleton \<Rightarrow> singleton \<Rightarrow> bool" for inits where
  outer_null: "pcs s t = OuterCheck \<Longrightarrow> inst s = None \<Longrightarrow> getInstance_step inits s (goto t Acquire s)"
| outer_set: "pcs s t = OuterCheck \<Longrightarrow> inst s \<noteq> None \<Longrightarrow> getInstance_step inits s (goto t ReadInstance s)"
| lock: "pcs s t = Acquire \<Longrightarrow> mtx s = None \<Longrightarrow> getInstance_step inits s (goto t InnerCheck (s\<lparr>mtx := Some t\<rparr>))"
| inner_null: "pcs s t = InnerCheck \<Longrightarrow> inst s = None \<Longrightarrow> getInstance_step inits s (goto t New s)"
| inner_set: "pcs s t = InnerCheck \<Longrightarrow> inst s \<noteq> None \<Longrightarrow> getInstance_step inits s (goto t Release s)"
| new: "pcs s t = New \<Longrightarrow> getInstance_step inits s (goto t (Publish (made s)) (s\<lparr>made := made s + 1\<rparr>))"
| publish: "pcs s t = Publish n \<Longrightarrow> getInstance_step inits s
    (goto t (if inits then InitObject else Release) (s\<lparr>inst := Some n, ready := \<not> inits\<rparr>))"
| initialise: "pcs s t = InitObject \<Longrightarrow> getInstance_step inits s (goto t Release (s\<lparr>ready := True\<rparr>))"
| unlock: "pcs s t = Release \<Longrightarrow> getInstance_step inits s (goto t ReadInstance (s\<lparr>mtx := None\<rparr>))"
| return: "pcs s t = ReadInstance \<Longrightarrow> getInstance_step inits s (goto t (Returned (inst s)) s)"

inductive_cases getInstance_stepE: "getInstance_step inits s s'"

definition reachable :: "bool \<Rightarrow> singleton \<Rightarrow> bool" where
  "reachable inits s \<longleftrightarrow> (getInstance_step inits)\<^sup>*\<^sup>* no_instance s"

section \<open>The invariant\<close>

fun critical :: "pc \<Rightarrow> bool" where
  "critical InnerCheck = True"
| "critical New = True"
| "critical (Publish n) = True"
| "critical InitObject = True"
| "critical Release = True"
| "critical _ = False"

text \<open>What holds of the shared state while a thread is at \<open>p\<close>.\<close>

fun pc_ok :: "singleton \<Rightarrow> pc \<Rightarrow> bool" where
  "pc_ok s New = (inst s = None \<and> made s = 0)"
| "pc_ok s (Publish n) = (n = 0 \<and> inst s = None \<and> made s = 1)"
| "pc_ok s InitObject = (inst s = Some 0)"
| "pc_ok s Release = (inst s = Some 0)"
| "pc_ok s ReadInstance = (inst s = Some 0)"
| "pc_ok s (Returned r) = (r = Some 0 \<and> inst s = Some 0)"
| "pc_ok s _ = True"

definition singleton_ok :: "singleton \<Rightarrow> bool" where
  "singleton_ok s \<longleftrightarrow>
     (\<forall>t. critical (pcs s t) \<longleftrightarrow> mtx s = Some t) \<and> (\<forall>t. pc_ok s (pcs s t)) \<and>
     (inst s = None \<and> (\<forall>t n. pcs s t \<noteq> Publish n) \<longrightarrow> made s = 0) \<and>
     (inst s \<noteq> None \<longrightarrow> inst s = Some 0 \<and> made s = 1)"

lemma singleton_okD:
  assumes "singleton_ok s"
  shows "critical (pcs s t) \<longleftrightarrow> mtx s = Some t" and "pc_ok s (pcs s t)"
    and "inst s = None \<Longrightarrow> (\<And>t n. pcs s t \<noteq> Publish n) \<Longrightarrow> made s = 0"
    and "inst s \<noteq> None \<Longrightarrow> inst s = Some 0 \<and> made s = 1"
  using assms by (auto simp: singleton_ok_def)

text \<open>Outside of its critical section a thread's place is not affected by the others.\<close>

lemma pc_ok_outside:
  assumes "\<not> critical p" and "pc_ok s p" and "inst s = None \<or> inst s' = inst s"
  shows "pc_ok s' p"
  using assms by (cases p) auto

lemma pc_ok_frame [simp]:
  "pc_ok (s\<lparr>mtx := m\<rparr>) p = pc_ok s p" "pc_ok (s\<lparr>ready := r\<rparr>) p = pc_ok s p" "pc_ok (goto t q s) p = pc_ok s p"
  by (cases p; simp add: goto_def)+

lemma goto_simps [simp]:
  "inst (goto t p s) = inst s" "mtx (goto t p s) = mtx s" "made (goto t p s) = made s"
  "ready (goto t p s) = ready s" "pcs (goto t p s) = (pcs s)(t := p)"
  by (simp_all add: goto_def)

text \<open>A step of \<open>t\<close> to \<open>p\<close> with a change \<open>s\<close> of the shared state, seen by the other threads.\<close>

lemma singleton_ok_goto:
  assumes "critical p \<longleftrightarrow> mtx s = Some t" and "\<And>u. u \<noteq> t \<Longrightarrow> critical (pcs s u) \<longleftrightarrow> mtx s = Some u"
    and "pc_ok s p" and "\<And>u. u \<noteq> t \<Longrightarrow> pc_ok s (pcs s u)"
    and "inst s = None \<Longrightarrow> (\<And>n. p \<noteq> Publish n) \<Longrightarrow> made s = 0"
    and "inst s \<noteq> None \<Longrightarrow> inst s = Some 0 \<and> made s = 1"
  shows "singleton_ok (goto t p s)"
proof -
  have "\<And>n. p \<noteq> Publish n" if "\<forall>u n. ((pcs s)(t := p)) u \<noteq> Publish n" using that by (metis fun_upd_same)
  with assms show ?thesis unfolding singleton_ok_def by auto
qed

lemma singleton_ok_outside:
  assumes ok: "singleton_ok s" and "\<not> critical (pcs s t)" and "\<not> critical p" and "pc_ok s p"
  shows "singleton_ok (goto t p s)"
proof -
  have "mtx s \<noteq> Some t" using assms(1,2) by (simp add: singleton_ok_def)
  moreover have "pcs s u \<noteq> Publish n" if "\<forall>u n. ((pcs s)(t := p)) u \<noteq> Publish n" for u n
    using that assms(2) by (cases "u = t") (auto split: if_splits)
  ultimately show ?thesis
    using assms unfolding singleton_ok_def by auto
qed

lemma singleton_ok_step:
  assumes ok: "singleton_ok s" and step: "getInstance_step inits s s'"
  shows "singleton_ok s'"
proof -
  note c = singleton_okD(1) [OF ok] and p = singleton_okD(2) [OF ok]
  have out: "pc_ok s' (pcs s u)" if "mtx s = Some t" "u \<noteq> t" "inst s = None \<or> inst s' = inst s" for t u s'
  proof (rule pc_ok_outside)
    show "\<not> critical (pcs s u)" using that(1,2) c [of u] by simp
  qed (use that(3) p [of u] in simp_all)
  have idle: "made s = 0" if "inst s = None" "mtx s = None \<or> (\<exists>t. mtx s = Some t \<and> (\<forall>n. pcs s t \<noteq> Publish n))"
  proof (rule singleton_okD(3) [OF ok that(1)])
    fix u n show "pcs s u \<noteq> Publish n" using that(2) c [of u] by auto
  qed
  have unchanged: "inst s \<noteq> None \<Longrightarrow> inst s = Some 0 \<and> made s = 1" using singleton_okD(4) [OF ok] .
  from step show ?thesis
  proof (cases rule: getInstance_step.cases)
    case (outer_null t)
    then show ?thesis using singleton_ok_outside [OF ok, of t Acquire] by simp
  next
    case (outer_set t)
    then show ?thesis using singleton_ok_outside [OF ok, of t ReadInstance] unchanged by simp
  next
    case (lock t)
    have "\<not> critical (pcs s u)" for u using lock c [of u] by simp
    then show ?thesis
      unfolding lock(1) by (intro singleton_ok_goto) (use lock p idle unchanged in simp_all)
  next
    case (inner_null t)
    then have "mtx s = Some t" using c [of t] by simp
    moreover from this inner_null have "made s = 0" using idle by auto
    ultimately show ?thesis
      unfolding inner_null(1) by (intro singleton_ok_goto) (use inner_null c p in auto)
  next
    case (inner_set t)
    then have "mtx s = Some t" using c [of t] by simp
    then show ?thesis
      unfolding inner_set(1) by (intro singleton_ok_goto) (use inner_set c p unchanged in simp_all)
  next
    case (new t)
    then have m: "mtx s = Some t" "inst s = None" "made s = 0" using c [of t] p [of t] by auto
    show ?thesis
      unfolding new(1) by (rule singleton_ok_goto) (use m c out [OF m(1)] in auto)
  next
    case (publish t n)
    then have m: "mtx s = Some t" "inst s = None" "made s = 1" "n = 0" using c [of t] p [of t] by auto
    show ?thesis
      unfolding publish(1) by (rule singleton_ok_goto) (use m c out [OF m(1)] in auto)
  next
    case (initialise t)
    then have m: "mtx s = Some t" "inst s = Some 0" using c [of t] p [of t] by auto
    moreover from this have "made s = 1" using unchanged by simp
    ultimately show ?thesis
      unfolding initialise(1) by (intro singleton_ok_goto) (use c p in simp_all)
  next
    case (unlock t)
    then have m: "mtx s = Some t" "inst s = Some 0" using c [of t] p [of t] by auto
    moreover from this have "made s = 1" using unchanged by simp
    ultimately show ?thesis
      unfolding unlock(1) by (intro singleton_ok_goto) (use c p in simp_all)
  next
    case (return t)
    then have "inst s = Some 0" using p [of t] by simp
    with return show ?thesis using singleton_ok_outside [OF ok, of t "Returned (inst s)"] by simp
  qed
qed

lemma reachable_ok: "reachable inits s \<Longrightarrow> singleton_ok s"
  unfolding reachable_def
proof (induction rule: rtranclp_induct)
  case base
  show ?case by (simp add: singleton_ok_def no_instance_def)
qed (rule singleton_ok_step)

section \<open>Properties\<close>

text \<open>
  C38: However the calls of any number of threads interleave, at most one object is made, at most one thread
  is past the lock, and every call that returns gives the same object and never the null pointer.
\<close>

theorem get_instance_unique:
  assumes "reachable inits s"
  shows "made s \<le> 1 \<and> (\<forall>t u. critical (pcs s t) \<and> critical (pcs s u) \<longrightarrow> t = u) \<and>
    (\<forall>t r. pcs s t = Returned r \<longrightarrow> r = Some 0)"
proof -
  note ok = reachable_ok [OF assms]
  have "made s \<le> 1"
  proof (cases "inst s = None \<and> (\<exists>t n. pcs s t = Publish n)")
    case True
    then show ?thesis using singleton_okD(2) [OF ok] by (metis order_refl pc_ok.simps(2))
  next
    case False
    then show ?thesis using singleton_okD(3,4) [OF ok] by (cases "inst s") auto
  qed
  moreover have "t = u" if "critical (pcs s t)" "critical (pcs s u)" for t u
    using that singleton_okD(1) [OF ok] by (metis option.inject)
  moreover have "r = Some 0" if "pcs s t = Returned r" for t r
    using that singleton_okD(2) [OF ok, of t] by simp
  ultimately show ?thesis by blast
qed

theorem get_instance_unique_witness:
  "\<exists>s. reachable True s \<and> pcs s 1 = Acquire \<and> made s \<le> 1"
proof -
  have "reachable True (goto 1 Acquire no_instance)"
    unfolding reachable_def
    by (intro r_into_rtranclp getInstance_step.outer_null) (simp_all add: no_instance_def)
  from get_instance_unique [OF this] this show ?thesis by (auto simp: goto_def)
qed

text \<open>
  The calls do not get stuck: in every state that can be reached, if some call has not returned, some
  thread can take a step.
\<close>

theorem get_instance_progress:
  assumes "reachable inits s" and "\<forall>r. pcs s t \<noteq> Returned r"
  shows "\<exists>s'. getInstance_step inits s s'"
proof -
  note ok = reachable_ok [OF assms(1)]
  have step: "\<exists>s'. getInstance_step inits s s'" if "\<forall>r. pcs s u \<noteq> Returned r" "pcs s u = Acquire \<longrightarrow> mtx s = None" for u
    using that by (cases "pcs s u"; cases "inst s") (auto intro: getInstance_step.intros)
  show ?thesis
  proof (cases "pcs s t = Acquire \<and> mtx s \<noteq> None")
    case True
    then obtain u where "mtx s = Some u" by auto
    then have "critical (pcs s u)" using singleton_okD(1) [OF ok] by simp
    then have "\<forall>r. pcs s u \<noteq> Returned r" and "pcs s u \<noteq> Acquire" by auto
    then show ?thesis using step by simp
  next
    case False
    then show ?thesis using step assms(2) by simp
  qed
qed

theorem get_instance_progress_witness: "\<exists>s'. getInstance_step False no_instance s'"
  by (rule get_instance_progress [of False no_instance 0]) (simp_all add: reachable_def no_instance_def)

text \<open>
  \<open>jiebaUtil::getInstance\<close> can return an object that is not ready: the pointer is published before
  \<open>initJiebaUtil\<close> has run, and the first check does not take the lock, so that a second thread gets the
  object while its stop words are not loaded.
\<close>

theorem get_instance_too_early:
  "\<exists>s. reachable True s \<and> pcs s 1 = Returned (Some 0) \<and> \<not> ready s"
proof -
  let ?s1 = "goto 0 Acquire no_instance"
  let ?s2 = "goto 0 InnerCheck (?s1\<lparr>mtx := Some 0\<rparr>)"
  let ?s3 = "goto 0 New ?s2"
  let ?s4 = "goto 0 (Publish 0) (?s3\<lparr>made := 1\<rparr>)"
  let ?s5 = "goto 0 InitObject (?s4\<lparr>inst := Some 0, ready := False\<rparr>)"
  let ?s6 = "goto 1 ReadInstance ?s5"
  let ?s7 = "goto 1 (Returned (Some 0)) ?s6"
  let ?st = "getInstance_step True"
  note d = goto_def no_instance_def
  have "?st no_instance ?s1" by (rule outer_null) (simp_all add: d)
  moreover have "?st ?s1 ?s2" by (rule lock) (simp_all add: d)
  moreover have "?st ?s2 ?s3" by (rule inner_null) (simp_all add: d)
  moreover have "?st ?s3 ?s4" using new [of ?s3 0 True] by (simp add: d)
  moreover have "?st ?s4 ?s5" using publish [of ?s4 0 0 True] by (simp add: d)
  moreover have "?st ?s5 ?s6" by (rule outer_set) (simp_all add: d)
  moreover have "?st ?s6 ?s7" using return [of ?s6 1 True] by (simp add: d)
  ultimately have "reachable True ?s7"
    unfolding reachable_def by (meson converse_rtranclp_into_rtranclp r_into_rtranclp)
  moreover have "pcs ?s7 1 = Returned (Some 0)" and "\<not> ready ?s7" by (simp_all add: d)
  ultimately show ?thesis by blast
qed

text \<open>\<open>index::getInstance\<close> has no such state: the constructor is through before the pointer is out.\<close>

lemma index_instance_ready:
  assumes "reachable False s" and "pcs s t = Returned r"
  shows "ready s"
proof -
  have "inst s \<noteq> None \<longrightarrow> ready s" using assms(1) unfolding reachable_def
  proof (induction rule: rtranclp_induct)
    case (step s s')
    from step.hyps(2) step.IH show ?case
      by (cases rule: getInstance_step.cases) (auto simp: goto_def)
  qed (simp add: no_instance_def)
  then show ?thesis
    using singleton_okD(2) [OF reachable_ok [OF assms(1)], of t] assms(2) by simp
qed

end
