(* ===== verification/Md5.thy ===== *)
theory Md5 imports StringUtil begin

text \<open>
  \<open>limonp/Md5.hpp\<close>: the MD5 digest of a message that comes in pieces.

  \<^item> \<open>UINT4\<close> is a 32-bit word. The context has the four words of the state, the number of bits in two words, and a
    buffer for the bytes that do not fill a block yet. What the object holds before \<open>Init\<close> is a parameter.
  \<^item> Positions in the input are natural numbers. The code has them as \<open>unsigned int\<close> and adds 63 to them, so a
    piece must be shorter than \<open>2 ^ 32 - 63\<close> bytes.
  \<^item> \<open>md5\<close> is the digest of a whole message as RFC 1321 describes it. The pieces of \<open>Update\<close> and the padding of
    \<open>Final\<close> are shown to give this digest however the message is cut.
\<close>

unbundle bit_operations_syntax

section \<open>The transformation of a block\<close>

definition S11 :: nat where "S11 = 7"
definition S12 :: nat where "S12 = 12"
definition S13 :: nat where "S13 = 17"
definition S14 :: nat where "S14 = 22"
definition S21 :: nat where "S21 = 5"
definition S22 :: nat where "S22 = 9"
definition S23 :: nat where "S23 = 14"
definition S24 :: nat where "S24 = 20"
definition S31 :: nat where "S31 = 4"
definition S32 :: nat where "S32 = 11"
definition S33 :: nat where "S33 = 16"
definition S34 :: nat where "S34 = 23"
definition S41 :: nat where "S41 = 6"
definition S42 :: nat where "S42 = 10"
definition S43 :: nat where "S43 = 15"
definition S44 :: nat where "S44 = 21"

definition md5_F :: "u32 \<Rightarrow> u32 \<Rightarrow> u32 \<Rightarrow> u32" where
  "md5_F x y z = (x AND y) OR ((NOT x) AND z)"

definition md5_G :: "u32 \<Rightarrow> u32 \<Rightarrow> u32 \<Rightarrow> u32" where
  "md5_G x y z = (x AND z) OR (y AND (NOT z))"

definition md5_H :: "u32 \<Rightarrow> u32 \<Rightarrow> u32 \<Rightarrow> u32" where
  "md5_H x y z = (x XOR y) XOR z"

definition md5_I :: "u32 \<Rightarrow> u32 \<Rightarrow> u32 \<Rightarrow> u32" where
  "md5_I x y z = y XOR (x OR (NOT z))"

definition ROTATE_LEFT :: "u32 \<Rightarrow> nat \<Rightarrow> u32" where
  "ROTATE_LEFT x n = push_bit n x OR drop_bit (32 - n) x"

text \<open>The four macros assign to their first argument; here they give its new value.\<close>

definition FF :: "u32 \<Rightarrow> u32 \<Rightarrow> u32 \<Rightarrow> u32 \<Rightarrow> u32 \<Rightarrow> nat \<Rightarrow> u32 \<Rightarrow> u32" where
  "FF a b c d x s ac = ROTATE_LEFT (a + (md5_F b c d + x + ac)) s + b"

definition GG :: "u32 \<Rightarrow> u32 \<Rightarrow> u32 \<Rightarrow> u32 \<Rightarrow> u32 \<Rightarrow> nat \<Rightarrow> u32 \<Rightarrow> u32" where
  "GG a b c d x s ac = ROTATE_LEFT (a + (md5_G b c d + x + ac)) s + b"

definition HH :: "u32 \<Rightarrow> u32 \<Rightarrow> u32 \<Rightarrow> u32 \<Rightarrow> u32 \<Rightarrow> nat \<Rightarrow> u32 \<Rightarrow> u32" where
  "HH a b c d x s ac = ROTATE_LEFT (a + (md5_H b c d + x + ac)) s + b"

definition II :: "u32 \<Rightarrow> u32 \<Rightarrow> u32 \<Rightarrow> u32 \<Rightarrow> u32 \<Rightarrow> nat \<Rightarrow> u32 \<Rightarrow> u32" where
  "II a b c d x s ac = ROTATE_LEFT (a + (md5_I b c d + x + ac)) s + b"

text \<open>\<open>Encode\<close> and \<open>Decode\<close>: words to bytes and back, the low byte first.\<close>

definition encode_word :: "u32 \<Rightarrow> byte list" where
  "encode_word w = [ucast (w AND 0xff), ucast (drop_bit 8 w AND 0xff), ucast (drop_bit 16 w AND 0xff), ucast (drop_bit 24 w AND 0xff)]"

definition Encode :: "u32 list \<Rightarrow> byte list" where
  "Encode ws = concat (map encode_word ws)"

fun Decode :: "byte list \<Rightarrow> u32 list" where
  "Decode (b0 # b1 # b2 # b3 # bs) =
     (ucast b0 OR push_bit 8 (ucast b1) OR push_bit 16 (ucast b2) OR push_bit 24 (ucast b3)) # Decode bs"
| "Decode bs = []"

type_synonym md5_state = "u32 \<times> u32 \<times> u32 \<times> u32"

definition MD5Transform :: "md5_state \<Rightarrow> byte list \<Rightarrow> md5_state" where
  "MD5Transform st block =
     (let (state0, state1, state2, state3) = st;
          a = state0; b = state1; c = state2; d = state3;
          x = Decode block;
          a = FF a b c d (x ! 0) S11 0xd76aa478;
          d = FF d a b c (x ! 1) S12 0xe8c7b756;
          c = FF c d a b (x ! 2) S13 0x242070db;
          b = FF b c d a (x ! 3) S14 0xc1bdceee;
          a = FF a b c d (x ! 4) S11 0xf57c0faf;
          d = FF d a b c (x ! 5) S12 0x4787c62a;
          c = FF c d a b (x ! 6) S13 0xa8304613;
          b = FF b c d a (x ! 7) S14 0xfd469501;
          a = FF a b c d (x ! 8) S11 0x698098d8;
          d = FF d a b c (x ! 9) S12 0x8b44f7af;
          c = FF c d a b (x ! 10) S13 0xffff5bb1;
          b = FF b c d a (x ! 11) S14 0x895cd7be;
          a = FF a b c d (x ! 12) S11 0x6b901122;
          d = FF d a b c (x ! 13) S12 0xfd987193;
          c = FF c d a b (x ! 14) S13 0xa679438e;
          b = FF b c d a (x ! 15) S14 0x49b40821;
          a = GG a b c d (x ! 1) S21 0xf61e2562;
          d = GG d a b c (x ! 6) S22 0xc040b340;
          c = GG c d a b (x ! 11) S23 0x265e5a51;
          b = GG b c d a (x ! 0) S24 0xe9b6c7aa;
          a = GG a b c d (x ! 5) S21 0xd62f105d;
          d = GG d a b c (x ! 10) S22 0x2441453;
          c = GG c d a b (x ! 15) S23 0xd8a1e681;
          b = GG b c d a (x ! 4) S24 0xe7d3fbc8;
          a = GG a b c d (x ! 9) S21 0x21e1cde6;
          d = GG d a b c (x ! 14) S22 0xc33707d6;
          c = GG c d a b (x ! 3) S23 0xf4d50d87;
          b = GG b c d a (x ! 8) S24 0x455a14ed;
          a = GG a b c d (x ! 13) S21 0xa9e3e905;
          d = GG d a b c (x ! 2) S22 0xfcefa3f8;
          c = GG c d a b (x ! 7) S23 0x676f02d9;
          b = GG b c d a (x ! 12) S24 0x8d2a4c8a;
          a = HH a b c d (x ! 5) S31 0xfffa3942;
          d = HH d a b c (x ! 8) S32 0x8771f681;
          c = HH c d a b (x ! 11) S33 0x6d9d6122;
          b = HH b c d a (x ! 14) S34 0xfde5380c;
          a = HH a b c d (x ! 1) S31 0xa4beea44;
          d = HH d a b c (x ! 4) S32 0x4bdecfa9;
          c = HH c d a b (x ! 7) S33 0xf6bb4b60;
          b = HH b c d a (x ! 10) S34 0xbebfbc70;
          a = HH a b c d (x ! 13) S31 0x289b7ec6;
          d = HH d a b c (x ! 0) S32 0xeaa127fa;
          c = HH c d a b (x ! 3) S33 0xd4ef3085;
          b = HH b c d a (x ! 6) S34 0x4881d05;
          a = HH a b c d (x ! 9) S31 0xd9d4d039;
          d = HH d a b c (x ! 12) S32 0xe6db99e5;
          c = HH c d a b (x ! 15) S33 0x1fa27cf8;
          b = HH b c d a (x ! 2) S34 0xc4ac5665;
          a = II a b c d (x ! 0) S41 0xf4292244;
          d = II d a b c (x ! 7) S42 0x432aff97;
          c = II c d a b (x ! 14) S43 0xab9423a7;
          b = II b c d a (x ! 5) S44 0xfc93a039;
          a = II a b c d (x ! 12) S41 0x655b59c3;
          d = II d a b c (x ! 3) S42 0x8f0ccc92;
          c = II c d a b (x ! 10) S43 0xffeff47d;
          b = II b c d a (x ! 1) S44 0x85845dd1;
          a = II a b c d (x ! 8) S41 0x6fa87e4f;
          d = II d a b c (x ! 15) S42 0xfe2ce6e0;
          c = II c d a b (x ! 6) S43 0xa3014314;
          b = II b c d a (x ! 13) S44 0x4e0811a1;
          a = II a b c d (x ! 4) S41 0xf7537e82;
          d = II d a b c (x ! 11) S42 0xbd3af235;
          c = II c d a b (x ! 2) S43 0x2ad7d2bb;
          b = II b c d a (x ! 9) S44 0xeb86d391
      in (state0 + a, state1 + b, state2 + c, state3 + d))"

section \<open>The object\<close>

record MD5 =
  md5_words :: md5_state
  md5_count :: "u32 \<times> u32"
  md5_buffer :: "byte list"
  digestRaw :: "byte list"
  digestChars :: string

definition Init :: "MD5 \<Rightarrow> MD5" where
  "Init m = m\<lparr>md5_count := (0, 0), md5_words := (0x67452301, 0xefcdab89, 0x98badcfe, 0x10325476)\<rparr>"

definition PADDING :: "byte list" where
  "PADDING = 0x80 # replicate 63 0"

text \<open>\<open>memcpy(&buffer[index], src, n)\<close> for a source of \<open>n\<close> bytes.\<close>

definition copy_at :: "'a list \<Rightarrow> nat \<Rightarrow> 'a list \<Rightarrow> 'a list" where
  "copy_at buf index src = take index buf @ src @ drop (index + length src) buf"

text \<open>The loop of \<open>Update\<close> over the whole blocks of the input from \<open>i\<close> on.\<close>

function update_loop :: "md5_state \<Rightarrow> byte list \<Rightarrow> nat \<Rightarrow> md5_state \<times> nat" where
  "update_loop st input i =
     (if i + 63 < length input then update_loop (MD5Transform st (slice input i (i + 64))) input (i + 64) else (st, i))"
  by pat_completeness auto
termination
  by (relation "measure (\<lambda>(st, input, i). length input - i)") auto

declare update_loop.simps [simp del]

text \<open>The number of bits, in two words with a carry.\<close>

definition count_bits :: "u32 \<times> u32 \<Rightarrow> u32 \<Rightarrow> u32 \<times> u32" where
  "count_bits = (\<lambda>(count0, count1) inputLen.
     (let count0 = count0 + push_bit 3 inputLen;
          count1 = (if count0 < push_bit 3 inputLen then count1 + 1 else count1)
      in (count0, count1 + drop_bit 29 inputLen)))"

definition buffer_index :: "MD5 \<Rightarrow> nat" where
  "buffer_index m = unat (drop_bit 3 (fst (md5_count m)) AND 0x3F)"

definition Update :: "MD5 \<Rightarrow> byte list \<Rightarrow> MD5" where
  "Update m input =
     (let index = buffer_index m;
          m = m\<lparr>md5_count := count_bits (md5_count m) (word_of_nat (length input))\<rparr>;
          partLen = 64 - index
      in if length input \<ge> partLen then
           (let buffer = copy_at (md5_buffer m) index (take partLen input);
                (st, i) = update_loop (MD5Transform (md5_words m) buffer) input partLen
            in m\<lparr>md5_words := st, md5_buffer := copy_at buffer 0 (drop i input)\<rparr>)
         else m\<lparr>md5_buffer := copy_at (md5_buffer m) index input\<rparr>)"

text \<open>\<open>sprintf("%02x")\<close> of each byte of the digest.\<close>

definition hex_byte :: "byte \<Rightarrow> string" where
  "hex_byte b = [''0123456789abcdef'' ! (unat b div 16), ''0123456789abcdef'' ! (unat b mod 16)]"

definition writeToString :: "MD5 \<Rightarrow> MD5" where
  "writeToString m = m\<lparr>digestChars := concat (map hex_byte (digestRaw m))\<rparr>"

definition Final :: "MD5 \<Rightarrow> MD5" where
  "Final m =
     (let bits = Encode [fst (md5_count m), snd (md5_count m)];
          index = buffer_index m;
          padLen = (if index < 56 then 56 - index else 120 - index);
          m = Update m (take padLen PADDING);
          m = Update m bits;
          m = m\<lparr>digestRaw := (case md5_words m of (a, b, c, d) \<Rightarrow> Encode [a, b, c, d])\<rparr>
      in writeToString (m\<lparr>md5_words := (0, 0, 0, 0), md5_count := (0, 0), md5_buffer := replicate 64 0\<rparr>))"

text \<open>\<open>digestMemory\<close>, \<open>digestString\<close> of a C string without its zero byte, and \<open>digestFile\<close>, which reads 1024 bytes at
a time; a null pointer and a file that cannot be opened give \<open>None\<close>.\<close>

definition digestMemory :: "MD5 \<Rightarrow> byte list option \<Rightarrow> (string \<times> MD5) option" where
  "digestMemory m memchunk = map_option (\<lambda>bs. let m = Final (Update (Init m) bs) in (digestChars m, m)) memchunk"

definition digestString :: "MD5 \<Rightarrow> string option \<Rightarrow> (string \<times> MD5) option" where
  "digestString m str = map_option (\<lambda>s. let m = Final (Update (Init m) (map byte_of s)) in (digestChars m, m)) str"

function read_chunks :: "nat \<Rightarrow> 'a list \<Rightarrow> 'a list list" where
  "read_chunks n bs = (if bs = [] \<or> n = 0 then [] else take n bs # read_chunks n (drop n bs))"
  by pat_completeness auto
termination
  by (relation "measure (\<lambda>(n, bs). length bs)") auto

declare read_chunks.simps [simp del]

definition digestFile :: "filesystem \<Rightarrow> MD5 \<Rightarrow> string option \<Rightarrow> (string \<times> MD5) option" where
  "digestFile fs m filename =
     (case filename of
        None \<Rightarrow> None
      | Some f \<Rightarrow>
          if f = [] then None
          else (case fs f of
                  None \<Rightarrow> None
                | Some content \<Rightarrow>
                    (let m = Final (foldl Update (Init m) (read_chunks 1024 (map byte_of content))) in Some (digestChars m, m))))"

text \<open>\<open>md5String\<close> and \<open>md5File\<close>: the result and \<open>res\<close>, with an object whose memory was arbitrary before.\<close>

definition md5String :: "MD5 \<Rightarrow> string option \<Rightarrow> bool \<times> string" where
  "md5String raw str =
     (case str of None \<Rightarrow> (False, [])
      | Some s \<Rightarrow> (case digestString (Init raw) (Some s) of None \<Rightarrow> (False, []) | Some (r, _) \<Rightarrow> (True, r)))"

definition md5File :: "filesystem \<Rightarrow> MD5 \<Rightarrow> string option \<Rightarrow> bool \<times> string" where
  "md5File fs raw filepath =
     (case filepath of None \<Rightarrow> (False, [])
      | Some f \<Rightarrow> if f = [] then (False, [])
          else (case digestFile fs (Init raw) (Some f) of None \<Rightarrow> (False, []) | Some (r, _) \<Rightarrow> (True, r)))"

section \<open>The digest of a whole message\<close>

text \<open>The state after the whole blocks of a message, from a state on; a shorter rest is left out.\<close>

function md5_blocks :: "md5_state \<Rightarrow> byte list \<Rightarrow> md5_state" where
  "md5_blocks st m = (if length m < 64 then st else md5_blocks (MD5Transform st (take 64 m)) (drop 64 m))"
  by pat_completeness auto
termination
  by (relation "measure (\<lambda>(st, m). length m)") auto

declare md5_blocks.simps [simp del]

definition md5_start :: md5_state where
  "md5_start = (0x67452301, 0xefcdab89, 0x98badcfe, 0x10325476)"

text \<open>A bit 1, bits 0 up to 448 modulo 512, and the number of bits modulo \<open>2 ^ 64\<close>, the low word first.\<close>

definition md5_length :: "nat \<Rightarrow> byte list" where
  "md5_length n = Encode [word_of_nat (8 * n), word_of_nat (8 * n div 2 ^ 32)]"

definition md5_pad :: "byte list \<Rightarrow> byte list" where
  "md5_pad m = m @ 0x80 # replicate ((119 - length m mod 64) mod 64) 0 @ md5_length (length m)"

definition md5_raw :: "byte list \<Rightarrow> byte list" where
  "md5_raw m = (case md5_blocks md5_start (md5_pad m) of (a, b, c, d) \<Rightarrow> Encode [a, b, c, d])"

definition md5 :: "byte list \<Rightarrow> string" where
  "md5 m = concat (map hex_byte (md5_raw m))"

section \<open>Blocks and the rest\<close>

definition rest_of :: "'a list \<Rightarrow> 'a list" where
  "rest_of m = drop (64 * (length m div 64)) m"

lemma length_rest_of [simp]: "length (rest_of m) = length m mod 64"
  by (simp add: rest_of_def minus_mult_div_eq_mod)

lemma md5_blocks_short: "length m < 64 \<Longrightarrow> md5_blocks st m = st"
  by (simp add: md5_blocks.simps)

lemma md5_blocks_block: "length b = 64 \<Longrightarrow> md5_blocks st (b @ m) = md5_blocks (MD5Transform st b) m"
  by (subst md5_blocks.simps) simp

lemma rest_of_block: "length b = 64 \<Longrightarrow> rest_of (b @ m) = rest_of m"
  by (simp add: rest_of_def)

lemma rest_of_short: "length m < 64 \<Longrightarrow> rest_of m = m"
  by (simp add: rest_of_def)

text \<open>What a message leaves in the buffer goes in front of what comes next.\<close>

lemma md5_blocks_append: "md5_blocks st (m @ m') = md5_blocks (md5_blocks st m) (rest_of m @ m')"
proof (induction st m rule: md5_blocks.induct)
  case (1 st m)
  show ?case
  proof (cases "length m < 64")
    case True
    then show ?thesis by (simp add: md5_blocks_short rest_of_short)
  next
    case False
    then have l: "length (take 64 m) = 64" and m: "m = take 64 m @ drop 64 m" by simp_all
    show ?thesis
      using "1.IH" [OF False] md5_blocks_block [OF l, of st] rest_of_block [OF l] m by (metis append_assoc)
  qed
qed

lemma rest_of_append: "rest_of (m @ m') = rest_of (rest_of m @ m')"
proof -
  let ?q = "length m div 64" and ?k = "(length m mod 64 + length m') div 64"
  have q: "drop (64 * ?q) (m @ m') = rest_of m @ m'" by (simp add: rest_of_def)
  have "length m + length m' = 64 * ?q + (length m mod 64 + length m')" by simp
  then have "length (m @ m') div 64 = ?q + ?k" by (metis div_mult_self4 length_append zero_neq_numeral)
  then have "rest_of (m @ m') = drop (64 * ?k + 64 * ?q) (m @ m')" unfolding rest_of_def by (simp only: add.commute add_mult_distrib2)
  also have "\<dots> = drop (64 * ?k) (rest_of m @ m')" by (simp only: drop_drop [symmetric] q)
  finally show ?thesis by (subst (2) rest_of_def) simp
qed

lemma update_loop_eq:
  "update_loop st input i = (md5_blocks st (drop i input), i + 64 * ((length input - i) div 64))"
proof (induction st input i rule: update_loop.induct)
  case (1 st input i)
  show ?case
  proof (cases "i + 63 < length input")
    case True
    have "drop i input = slice input i (i + 64) @ drop (i + 64) input" and "length (slice input i (i + 64)) = 64"
      using True by (simp_all add: slice_def) (metis append_take_drop_id add.commute drop_drop)
    moreover have "(length input - i) div 64 = Suc ((length input - (i + 64)) div 64)"
      using True le_div_geq [of 64 "length input - i"] by simp
    ultimately show ?thesis
      using "1.IH" [OF True] True by (subst update_loop.simps) (simp add: md5_blocks_block)
  next
    case False
    then show ?thesis by (subst update_loop.simps) (simp add: md5_blocks_short)
  qed
qed

section \<open>The number of bits\<close>

definition counts :: "u32 \<times> u32 \<Rightarrow> nat \<Rightarrow> bool" where
  "counts c n \<longleftrightarrow> unat (fst c) = 8 * n mod 2 ^ 32 \<and> unat (snd c) = 8 * n div 2 ^ 32 mod 2 ^ 32"

lemma carry_nat:
  fixes x y M :: nat
  assumes "x < M" and "y < M"
  shows "(x + y) mod M < y \<longleftrightarrow> M \<le> x + y" and "(x + y) div M = of_bool (M \<le> x + y)"
proof -
  have "(x + y) mod M = (if M \<le> x + y then x + y - M else x + y)" using assms by (simp add: le_mod_geq)
  then show "(x + y) mod M < y \<longleftrightarrow> M \<le> x + y" using assms by auto
  show "(x + y) div M = of_bool (M \<le> x + y)" using assms by (simp add: le_div_geq)
qed

lemma unat_plus_u32: "unat (a + b :: u32) = (unat a + unat b) mod 2 ^ 32"
  by (simp add: unat_word_ariths)

lemma unat_word_u32: "unat (word_of_nat n :: u32) = n mod 2 ^ 32"
  by (subst unat_of_nat) simp

lemma unat_shifted: "unat (push_bit 3 (word_of_nat n) :: u32) = 8 * n mod 2 ^ 32"
proof -
  have "push_bit 3 (word_of_nat n) = (word_of_nat (8 * n) :: u32)" by (simp add: push_bit_eq_mult)
  then show ?thesis by (metis unat_word_u32)
qed

lemma unat_high_bits: "n < 2 ^ 32 \<Longrightarrow> unat (drop_bit 29 (word_of_nat n) :: u32) = 8 * n div 2 ^ 32"
proof -
  assume "n < 2 ^ 32"
  then have "unat (drop_bit 29 (word_of_nat n) :: u32) = n div 2 ^ 29"
    by (metis unat_drop_bit unat_word_u32 mod_less)
  also have "\<dots> = 8 * n div 2 ^ 32" using div_mult_mult1 [of 8 n "2 ^ 29"] by simp
  finally show ?thesis .
qed

text \<open>\<open>Update\<close> counts the bits of a piece, with the carry into the high word.\<close>

lemma counts_count_bits:
  assumes c: "counts c n" and k: "k < 2 ^ 32"
  shows "counts (count_bits c (word_of_nat k)) (n + k)"
proof -
  define M :: nat where "M = 2 ^ 32"
  have M: "0 < M" by (simp add: M_def)
  let ?p = "push_bit 3 (word_of_nat k) :: u32" and ?x = "8 * n mod M" and ?y = "8 * k mod M"
  obtain c0 c1 where cc: "c = (c0, c1)" by (cases c)
  have c0: "unat c0 = ?x" and c1: "unat c1 = 8 * n div M mod M" using c cc by (simp_all add: counts_def M_def)
  have p: "unat ?p = ?y" and d: "unat (drop_bit 29 (word_of_nat k) :: u32) = 8 * k div M"
    using unat_shifted [of k] unat_high_bits [OF k] by (simp_all add: M_def)
  note plus = unat_plus_u32 [folded M_def]
  have low: "unat (c0 + ?p) = (?x + ?y) mod M" using plus [of c0 ?p] c0 p by simp
  have cy: "(?x + ?y) mod M < ?y \<longleftrightarrow> M \<le> ?x + ?y" "(?x + ?y) div M = of_bool (M \<le> ?x + ?y)"
    using carry_nat [of ?x M ?y] M by simp_all
  have less: "c0 + ?p < ?p \<longleftrightarrow> M \<le> ?x + ?y" using low p cy(1) by (simp add: word_less_nat_alt)
  have h: "unat (if c0 + ?p < ?p then c1 + 1 else c1) = (8 * n div M + of_bool (M \<le> ?x + ?y)) mod M"
    using plus [of c1 1] c1 less by (cases "M \<le> ?x + ?y") (simp_all add: mod_Suc_eq)
  have "8 * (n + k) div M = 8 * n div M + of_bool (M \<le> ?x + ?y) + 8 * k div M"
    using div_add1_eq [of "8 * n" "8 * k" M] cy(2) by (simp add: distrib_left)
  then have high: "unat ((if c0 + ?p < ?p then c1 + 1 else c1) + drop_bit 29 (word_of_nat k)) = 8 * (n + k) div M mod M"
    using plus [of "if c0 + ?p < ?p then c1 + 1 else c1" "drop_bit 29 (word_of_nat k)"] h d
    by (simp only: mod_add_left_eq)
  have "(?x + ?y) mod M = 8 * (n + k) mod M" by (simp only: mod_add_eq distrib_left)
  then show ?thesis
    using low high unfolding cc counts_def count_bits_def Let_def prod.case fst_conv snd_conv M_def [symmetric] by simp
qed

lemma counts_index:
  assumes "counts (md5_count m) n"
  shows "buffer_index m = n mod 64"
proof -
  have w: "unat (fst (md5_count m)) = 8 * (n mod 2 ^ 29)"
    using assms mult_mod_right [of 8 n "2 ^ 29"] by (simp add: counts_def)
  have "(0x3F :: u32) = mask 6" by (simp add: mask_eq_exp_minus_1)
  then have "buffer_index m = unat (drop_bit 3 (fst (md5_count m))) mod 2 ^ 6"
    by (metis buffer_index_def unat_and_mask)
  also have "\<dots> = n mod 2 ^ 29 mod 2 ^ 6" by (simp only: unat_drop_bit w) simp
  finally show ?thesis by (simp add: mod_mod_cancel)
qed

lemma counts_length:
  assumes "counts (c0, c1) n"
  shows "Encode [c0, c1] = md5_length n"
proof -
  have "c0 = word_of_nat (8 * n)" "c1 = word_of_nat (8 * n div 2 ^ 32)"
    using assms unat_word_u32 by (metis counts_def fst_conv snd_conv word_unat_eq_iff)+
  then show ?thesis by (simp add: md5_length_def)
qed

section \<open>Pieces\<close>

text \<open>What the context holds of the bytes that \<open>Update\<close> has been given.\<close>

definition md5_ok :: "byte list \<Rightarrow> MD5 \<Rightarrow> bool" where
  "md5_ok bs m \<longleftrightarrow> md5_words m = md5_blocks md5_start bs \<and> counts (md5_count m) (length bs) \<and>
     length (md5_buffer m) = 64 \<and> take (length bs mod 64) (md5_buffer m) = rest_of bs"

lemma md5_ok_Init: "length (md5_buffer m) = 64 \<Longrightarrow> md5_ok [] (Init m)"
  by (simp add: md5_ok_def Init_def md5_start_def md5_blocks_short counts_def rest_of_def)

lemma length_copy_at: "index + length src \<le> length buf \<Longrightarrow> length (copy_at buf index src) = length buf"
  by (simp add: copy_at_def)

lemma md5_ok_Update:
  assumes ok: "md5_ok bs m" and len: "length input < 2 ^ 32"
  shows "md5_ok (bs @ input) (Update m input)"
proof -
  let ?r = "length bs mod 64" and ?n = "length input"
  have w: "md5_words m = md5_blocks md5_start bs" and c: "counts (md5_count m) (length bs)"
    and b: "length (md5_buffer m) = 64" and t: "take ?r (md5_buffer m) = rest_of bs"
    using ok by (simp_all add: md5_ok_def)
  note i = counts_index [OF c] and c' = counts_count_bits [OF c len]
  have r: "?r < 64" by simp
  show ?thesis
  proof (cases "64 - ?r \<le> ?n")
    case False
    have short: "length (rest_of bs @ input) < 64" using False r by simp
    have rest: "rest_of (bs @ input) = rest_of bs @ input" by (subst rest_of_append) (simp add: rest_of_short [OF short])
    have "(length bs + ?n) mod 64 = ?r + ?n" using length_rest_of [of "bs @ input"] rest by simp
    moreover have "md5_blocks md5_start (bs @ input) = md5_words m"
      by (subst md5_blocks_append) (simp add: md5_blocks_short [OF short] w)
    moreover have "Update m input = m\<lparr>md5_count := count_bits (md5_count m) (word_of_nat ?n),
        md5_buffer := copy_at (md5_buffer m) ?r input\<rparr>"
      using False by (simp add: Update_def i Let_def)
    moreover have "length (copy_at (md5_buffer m) ?r input) = 64"
      by (subst length_copy_at) (use False r in \<open>simp_all add: b\<close>)
    moreover have "take (?r + ?n) (copy_at (md5_buffer m) ?r input) = rest_of bs @ input"
      using t b r by (simp add: copy_at_def)
    ultimately show ?thesis using c' rest by (simp add: md5_ok_def)
  next
    case True
    define buf where "buf = copy_at (md5_buffer m) ?r (take (64 - ?r) input)"
    define k where "k = 64 - ?r + 64 * ((?n - (64 - ?r)) div 64)"
    have buf: "buf = rest_of bs @ take (64 - ?r) input" using True b t r by (simp add: buf_def copy_at_def)
    then have lb: "length buf = 64" using True r by simp
    have split: "rest_of bs @ input = buf @ drop (64 - ?r) input" by (simp add: buf)
    have rest: "rest_of (bs @ input) = drop k input"
      by (subst rest_of_append) (simp only: split rest_of_block [OF lb], simp add: rest_of_def k_def ac_simps)
    have words: "md5_blocks md5_start (bs @ input) = md5_blocks (MD5Transform (md5_words m) buf) (drop (64 - ?r) input)"
      by (subst md5_blocks_append) (simp add: split md5_blocks_block [OF lb] w)
    have "length (drop k input) = (length bs + ?n) mod 64" using length_rest_of [of "bs @ input"] rest by simp
    moreover from this have "length (copy_at buf 0 (drop k input)) = 64"
      by (subst length_copy_at) (simp_all add: lb less_imp_le)
    moreover have "take (length (drop k input)) (copy_at buf 0 (drop k input)) = drop k input" by (simp add: copy_at_def)
    moreover have "Update m input = m\<lparr>md5_count := count_bits (md5_count m) (word_of_nat ?n),
        md5_words := md5_blocks (MD5Transform (md5_words m) buf) (drop (64 - ?r) input), md5_buffer := copy_at buf 0 (drop k input)\<rparr>"
      using True by (simp add: Update_def i Let_def buf_def [symmetric] update_loop_eq k_def)
    ultimately show ?thesis using c' words rest by (simp add: md5_ok_def)
  qed
qed

lemma md5_ok_pieces:
  "md5_ok bs m \<Longrightarrow> \<forall>p \<in> set ps. length p < 2 ^ 32 \<Longrightarrow> md5_ok (bs @ concat ps) (foldl Update m ps)"
proof (induction ps arbitrary: bs m)
  case (Cons p ps)
  then show ?case using Cons.IH [of "bs @ p" "Update m p"] md5_ok_Update [of bs m p] by simp
qed simp

lemma length_Encode: "length (Encode ws) = 4 * length ws"
  by (induction ws) (simp_all add: Encode_def encode_word_def)

text \<open>The padding of \<open>Final\<close>.\<close>

lemma digest_Final:
  assumes ok: "md5_ok bs m"
  shows "digestChars (Final m) = md5 bs"
proof -
  let ?r = "length bs mod 64"
  define p where "p = take (if ?r < 56 then 56 - ?r else 120 - ?r) PADDING"
  define bits where "bits = md5_length (length bs)"
  have c: "counts (md5_count m) (length bs)" using ok by (simp add: md5_ok_def)
  have b: "Encode [fst (md5_count m), snd (md5_count m)] = bits"
    using counts_length [of "fst (md5_count m)" "snd (md5_count m)"] c by (simp add: bits_def)
  have "length p \<le> 64" by (simp add: p_def PADDING_def)
  then have "length p < 2 ^ 32" by simp
  note okp = md5_ok_Update [OF ok this]
  have "length bits < 2 ^ 32" by (simp add: bits_def md5_length_def length_Encode)
  note md5_ok_Update [OF okp this]
  moreover have "p = 0x80 # replicate ((119 - ?r) mod 64) 0"
  proof (cases "?r < 56")
    case True
    then have "(119 - ?r) mod 64 = 55 - ?r" by (simp add: le_mod_geq)
    moreover from True have "56 - ?r = Suc (55 - ?r)" by simp
    moreover have "55 - ?r \<le> 63" by simp
    ultimately show ?thesis using True by (simp add: p_def PADDING_def min_def)
  next
    case False
    moreover have "?r < 64" by simp
    ultimately have "(119 - ?r) mod 64 = 119 - ?r" and "120 - ?r = Suc (119 - ?r)" by simp_all
    then show ?thesis using False by (simp add: p_def PADDING_def)
  qed
  ultimately have "md5_words (Update (Update m p) bits) = md5_blocks md5_start (md5_pad bs)"
    by (simp add: md5_ok_def md5_pad_def bits_def)
  then show ?thesis
    by (simp add: Final_def Let_def counts_index [OF c] b p_def [symmetric] writeToString_def md5_def md5_raw_def)
qed

section \<open>Properties\<close>

lemma concat_read_chunks: "0 < n \<Longrightarrow> concat (read_chunks n bs) = bs"
  by (induction n bs rule: read_chunks.induct) (subst read_chunks.simps, auto)

lemma read_chunks_bound: "p \<in> set (read_chunks n bs) \<Longrightarrow> length p \<le> n"
  by (induction n bs rule: read_chunks.induct) (subst (asm) (2) read_chunks.simps, auto split: if_splits)

lemma digest_pieces:
  assumes "length (md5_buffer raw) = 64" and "\<forall>p \<in> set ps. length p < 2 ^ 32"
  shows "digestChars (Final (foldl Update (Init raw) ps)) = md5 (concat ps)"
  using digest_Final [OF md5_ok_pieces [OF md5_ok_Init [OF assms(1)] assms(2)]] by simp

definition sample_md5 :: MD5 where
  "sample_md5 = \<lparr>md5_words = (1, 2, 3, 4), md5_count = (5, 6), md5_buffer = replicate 64 255, digestRaw = [], digestChars = []\<rparr>"

text \<open>
  C29: However a message comes in pieces, the digest is that of the whole message, padded and cut into blocks of 64 bytes
  as RFC 1321 describes it: nothing of what the buffer held before, and nothing of where the pieces end, is left in it.
\<close>

theorem md5_any_pieces:
  assumes "length (md5_buffer raw) = 64" and "\<forall>p \<in> set ps. length p < 2 ^ 32 - 63"
  shows "digestChars (Final (foldl Update (Init raw) ps)) = md5 (concat ps)"
  using assms by (intro digest_pieces) auto

theorem md5_any_pieces_witness:
  "digestChars (Final (foldl Update (Init sample_md5) [[97], [], [98, 99]])) = md5 [97, 98, 99]"
  using md5_any_pieces [of sample_md5 "[[97], [], [98, 99]]"] by (simp add: sample_md5_def)

text \<open>
  The digest of a file, which is read 1024 bytes at a time, is the one of a string with the same bytes; a file that
  cannot be opened, an empty name and a null pointer give the empty string and \<open>false\<close>.
\<close>

theorem md5_file_as_string:
  assumes "length (md5_buffer raw) = 64" and "length content < 2 ^ 32 - 63" and "filepath \<noteq> []"
  shows "md5String raw (Some content) = (True, md5 (map byte_of content)) \<and>
    md5File [filepath \<mapsto> content] raw (Some filepath) = md5String raw (Some content) \<and>
    md5File Map.empty raw (Some filepath) = (False, []) \<and> md5File fs raw (Some []) = md5File fs raw None \<and>
    md5String raw None = (False, [])"
proof -
  have b: "length (md5_buffer (Init raw)) = 64" using assms(1) by (simp add: Init_def)
  have "md5String raw (Some content) = (True, md5 (map byte_of content))"
    using digest_pieces [OF b, of "[map byte_of content]"] assms(2) by (simp add: md5String_def digestString_def Let_def)
  moreover have "\<forall>p \<in> set (read_chunks 1024 (map byte_of content)). length p < 2 ^ 32"
    using read_chunks_bound by fastforce
  then have "md5File [filepath \<mapsto> content] raw (Some filepath) = (True, md5 (map byte_of content))"
    using digest_pieces [OF b, of "read_chunks 1024 (map byte_of content)"] assms(3)
    by (simp add: md5File_def digestFile_def Let_def concat_read_chunks)
  ultimately show ?thesis using assms(3) by (simp add: md5File_def md5String_def digestFile_def)
qed

theorem md5_file_as_string_witness:
  "md5File [''f'' \<mapsto> ''abc''] sample_md5 (Some ''f'') = (True, md5 (map byte_of ''abc''))"
  using md5_file_as_string [of sample_md5 "''abc''" "''f''"] by (simp add: sample_md5_def)

end
