(* ===== verification/ConfigArgv.thy ===== *)
theory ConfigArgv imports StringUtil begin

text \<open>
  \<open>limonp/Config.hpp\<close>, a file of lines \<open>key = value\<close>, and \<open>limonp/ArgvContext.hpp\<close>, the arguments of a command line.

  \<^item> The map of a configuration is a map from keys to values. A failed \<open>assert\<close> is \<open>Inl\<close>.
  \<^item> \<open>GetConfigInfo\<close> and the two operators \<open><<\<close> print a map and are left out.
\<close>

section \<open>Configuration files\<close>

type_synonym Config = "string \<rightharpoonup> string"

definition config_line :: "string \<Rightarrow> Config \<Rightarrow> abort + Config" where
  "config_line line m =
     (let line = Trim line in
      if line = [] \<or> StartsWith line ''#'' then Inr m
      else (let vecBuf = Split line ''='' in
            if 2 \<noteq> length vecBuf then Inl AssertFailed
            else (let key = Trim (vecBuf ! 0); value = Trim (vecBuf ! 1) in
                  if m key \<noteq> None then Inl AssertFailed else Inr (m(key \<mapsto> value)))))"

fun config_lines :: "string list \<Rightarrow> Config \<Rightarrow> abort + Config" where
  "config_lines [] m = Inr m"
| "config_lines (line # lines) m = (case config_line line m of Inl e \<Rightarrow> Inl e | Inr m \<Rightarrow> config_lines lines m)"

definition LoadFile :: "filesystem \<Rightarrow> string \<Rightarrow> abort + Config" where
  "LoadFile fs filePath =
     (case fs filePath of None \<Rightarrow> Inl AssertFailed | Some content \<Rightarrow> config_lines (read_lines content) Map.empty)"

definition config_bool :: "Config \<Rightarrow> bool" where
  "config_bool m \<longleftrightarrow> m \<noteq> Map.empty"

definition Config_Get :: "Config \<Rightarrow> string \<Rightarrow> string \<Rightarrow> string" where
  "Config_Get m key defaultvalue = (case m key of Some v \<Rightarrow> v | None \<Rightarrow> defaultvalue)"

definition Config_Get_int :: "Config \<Rightarrow> string \<Rightarrow> int \<Rightarrow> int" where
  "Config_Get_int m key defaultvalue =
     (let str = Config_Get m key [] in if [] = str then defaultvalue else atoi str)"

definition Config_at :: "Config \<Rightarrow> string option \<Rightarrow> string option" where
  "Config_at m key = (case key of None \<Rightarrow> None | Some k \<Rightarrow> m k)"

section \<open>Command lines\<close>

record ArgvContext =
  argv_args :: "string list"
  argv_mpss :: "string \<rightharpoonup> string"
  argv_sset :: "string set"

fun argv_loop :: "string list \<Rightarrow> ArgvContext \<Rightarrow> ArgvContext" where
  "argv_loop [] c = c"
| "argv_loop [a] c =
     (if StartsWith a ''-'' then c\<lparr>argv_sset := insert a (argv_sset c)\<rparr> else c\<lparr>argv_args := argv_args c @ [a]\<rparr>)"
| "argv_loop (a # b # rest) c =
     (if StartsWith a ''-'' then
        (if \<not> StartsWith b ''-'' then argv_loop rest (c\<lparr>argv_mpss := (argv_mpss c)(a \<mapsto> b)\<rparr>)
         else argv_loop (b # rest) (c\<lparr>argv_sset := insert a (argv_sset c)\<rparr>))
      else argv_loop (b # rest) (c\<lparr>argv_args := argv_args c @ [a]\<rparr>))"

definition new_ArgvContext :: "string list \<Rightarrow> ArgvContext" where
  "new_ArgvContext argv = argv_loop argv \<lparr>argv_args = [], argv_mpss = Map.empty, argv_sset = {}\<rparr>"

definition argv_at :: "ArgvContext \<Rightarrow> nat \<Rightarrow> string" where
  "argv_at c i = (if i < length (argv_args c) then argv_args c ! i else [])"

definition argv_value :: "ArgvContext \<Rightarrow> string \<Rightarrow> string" where
  "argv_value c key = (case argv_mpss c key of Some v \<Rightarrow> v | None \<Rightarrow> [])"

definition HasKey :: "ArgvContext \<Rightarrow> string \<Rightarrow> bool" where
  "HasKey c key \<longleftrightarrow> argv_mpss c key \<noteq> None \<or> key \<in> argv_sset c"

section \<open>What a file says\<close>

definition config_entries :: "string \<Rightarrow> string list" where
  "config_entries content = filter (\<lambda>l. l \<noteq> [] \<and> \<not> StartsWith l ''#'') (map Trim (read_lines content))"

definition entry_of :: "string \<Rightarrow> string \<times> string" where
  "entry_of l = (Trim (Split l ''='' ! 0), Trim (Split l ''='' ! 1))"

lemma config_lines_iff:
  "config_lines lines m0 = Inr m \<longleftrightarrow>
    (let ls = filter (\<lambda>l. l \<noteq> [] \<and> \<not> StartsWith l ''#'') (map Trim lines); es = map entry_of ls
     in (\<forall>l \<in> set ls. length (Split l ''='') = 2) \<and> distinct (map fst es) \<and> (\<forall>k \<in> set (map fst es). m0 k = None) \<and>
        m = m0 ++ map_of es)"
proof (induction lines arbitrary: m0)
  case (Cons line lines)
  let ?l = "Trim line"
  consider (skip) "?l = [] \<or> prefix ''#'' ?l" | (bad) "?l \<noteq> []" "\<not> prefix ''#'' ?l" "length (Split ?l ''='') \<noteq> 2 \<or> m0 (fst (entry_of ?l)) \<noteq> None"
    | (good) "?l \<noteq> []" "\<not> prefix ''#'' ?l" "length (Split ?l ''='') = 2" "m0 (fst (entry_of ?l)) = None" by blast
  then show ?case
  proof cases
    case skip
    then show ?thesis using Cons.IH [of m0] by (auto simp: config_line_def Let_def)
  next
    case bad
    then show ?thesis by (auto simp: config_line_def Let_def entry_of_def)
  next
    case good
    let ?e = "entry_of ?l"
    have l: "config_lines (line # lines) m0 = config_lines lines (m0(fst ?e \<mapsto> snd ?e))"
      using good by (simp add: config_line_def Let_def entry_of_def)
    have a: "m0(fst ?e \<mapsto> snd ?e) ++ map_of es = m0 ++ (map_of es)(fst ?e \<mapsto> snd ?e)"
      if "fst ?e \<notin> fst ` set es" for es
      using that by (metis map_add_upd map_add_upd_left dom_map_of_conv_image_fst)
    define ls where "ls = filter (\<lambda>l. l \<noteq> [] \<and> \<not> StartsWith l ''#'') (map Trim lines)"
    define es where "es = map entry_of ls"
    have rest: "config_lines (line # lines) m0 = Inr m \<longleftrightarrow> (\<forall>l \<in> set ls. length (Split l ''='') = 2) \<and> distinct (map fst es) \<and>
        (\<forall>k \<in> set (map fst es). (m0(fst ?e \<mapsto> snd ?e)) k = None) \<and> m = m0(fst ?e \<mapsto> snd ?e) ++ map_of es"
      unfolding l Cons.IH by (simp only: Let_def ls_def es_def)
    have whole: "filter (\<lambda>l. l \<noteq> [] \<and> \<not> StartsWith l ''#'') (map Trim (line # lines)) = ?l # ls"
      using good(1,2) by (simp add: ls_def)
    show ?thesis
    proof (cases "fst ?e \<in> set (map fst es)")
      case True
      then show ?thesis unfolding rest whole by (auto simp: Let_def es_def)
    next
      case False
      then have "(\<forall>k \<in> set (map fst es). (m0(fst ?e \<mapsto> snd ?e)) k = None) \<longleftrightarrow> (\<forall>k \<in> set (map fst es). m0 k = None)"
        by (metis fun_upd_other)
      then show ?thesis
        unfolding rest whole using False good(3,4) a [of es] by (auto simp add: Let_def es_def image_iff)
    qed
  qed
qed auto

text \<open>The fields of a line that was trimmed are trimmed once more.\<close>

definition plain_field :: "string \<Rightarrow> bool" where
  "plain_field s \<longleftrightarrow> s \<noteq> [] \<and> \<not> IsSpace (hd s) \<and> \<not> IsSpace (last s) \<and> CHR ''='' \<notin> set s \<and> NL \<notin> set s"

lemma Trim_ends:
  assumes "s \<noteq> []" and "\<not> IsSpace (hd s)" and "\<not> IsSpace (last s)"
  shows "Trim s = s"
proof -
  have "dropWhile IsSpace (rev s) = rev s" and "dropWhile IsSpace s = s"
    using assms by (simp_all add: dropWhile_eq_self_iff hd_rev)
  then show ?thesis by (simp add: Trim_def RTrim_def LTrim_def)
qed

lemma Trim_left: "IsSpace c \<Longrightarrow> s \<noteq> [] \<Longrightarrow> \<not> IsSpace (last s) \<Longrightarrow> Trim (c # s) = Trim s"
  by (cases s rule: rev_cases) (auto simp: Trim_def RTrim_def LTrim_def)

lemma Trim_right: "IsSpace c \<Longrightarrow> Trim (s @ [c]) = Trim s"
  by (simp add: Trim_def RTrim_def)

definition config_text :: "string \<times> string \<Rightarrow> string" where
  "config_text = (\<lambda>(k, v). k @ '' = '' @ v)"

lemma config_text_entry:
  assumes k: "plain_field k" and v: "plain_field v" and len: "length k + length v < 2 ^ 64 - 4"
  shows "Trim (config_text (k, v)) = config_text (k, v)" and "length (Split (config_text (k, v)) ''='') = 2"
    and "entry_of (config_text (k, v)) = (k, v)"
proof -
  have b: "IsSpace (CHR '' '')" by (simp add: IsSpace_def is_space_def)
  have "config_text (k, v) = k @ '' = '' @ v" by (simp add: config_text_def)
  moreover have "hd (k @ '' = '' @ v) = hd k" and "last (k @ '' = '' @ v) = last v" using k v by (simp_all add: plain_field_def)
  ultimately show "Trim (config_text (k, v)) = config_text (k, v)"
    using k v by (intro Trim_ends) (simp_all add: plain_field_def)
  have "Split (config_text (k, v)) ''='' = pieces (CHR ''='') ((k @ '' '') @ CHR ''='' # '' '' @ v)"
    using len by (subst Split_pieces) (simp_all add: config_text_def unat_npos)
  also have "\<dots> = [k @ '' '', '' '' @ v]"
    using k v by (subst pieces_piece) (auto simp: plain_field_def pieces_last)
  finally have s: "Split (config_text (k, v)) ''='' = [k @ '' '', '' '' @ v]" .
  show "length (Split (config_text (k, v)) ''='') = 2" by (simp add: s)
  show "entry_of (config_text (k, v)) = (k, v)"
    using k v b Trim_right [of "CHR '' ''" k] Trim_left [of "CHR '' ''" v] Trim_ends [of k] Trim_ends [of v]
    by (simp add: entry_of_def s plain_field_def)
qed

text \<open>
  A configuration is loaded exactly when every line that is neither blank nor a comment is a key and a value around
  one equals sign and no key comes twice; otherwise an \<open>assert\<close> ends the process. Every key then has the value of
  its line, both without the white space around them, and other keys have the default value.
\<close>

theorem config_loaded:
  "LoadFile fs p = Inr m \<longleftrightarrow>
    (\<exists>content. fs p = Some content \<and> (\<forall>l \<in> set (config_entries content). length (Split l ''='') = 2) \<and>
       distinct (map (fst \<circ> entry_of) (config_entries content)) \<and> m = map_of (map entry_of (config_entries content)))"
  by (cases "fs p") (auto simp: LoadFile_def config_lines_iff config_entries_def Let_def comp_def)

theorem config_loaded_witness: "LoadFile [''f'' \<mapsto> ''a = 1''] ''f'' = Inr [''a'' \<mapsto> ''1'']"
proof -
  have "config_entries ''a = 1'' = [''a = 1'']" and "length (Split ''a = 1'' ''='') = 2" and "entry_of ''a = 1'' = (''a'', ''1'')"
    by code_simp+
  then show ?thesis using config_loaded [of "[''f'' \<mapsto> ''a = 1'']" "''f''" "[''a'' \<mapsto> ''1'']"] by simp
qed

text \<open>
  What is written as lines \<open>key = value\<close> is read back: with keys that differ and are not comments, and without
  equals signs, newlines and white space at the ends of keys and values, \<open>Get\<close> gives every key its value.
\<close>

theorem config_roundtrip:
  assumes "\<forall>(k, v) \<in> set kvs. plain_field k \<and> plain_field v \<and> hd k \<noteq> CHR ''#'' \<and> length k + length v < 2 ^ 64 - 4"
    and "distinct (map fst kvs)"
  shows "\<exists>m. LoadFile [p \<mapsto> concat (map (\<lambda>kv. config_text kv @ [NL]) kvs)] p = Inr m \<and>
    (\<forall>k d. Config_Get m k d = (case map_of kvs k of Some v \<Rightarrow> v | None \<Rightarrow> d))"
proof -
  have e: "Trim (config_text x) = config_text x" "length (Split (config_text x) ''='') = 2" "entry_of (config_text x) = x"
    "config_text x \<noteq> []" "\<not> prefix ''#'' (config_text x)" "NL \<notin> set (config_text x)" if "x \<in> set kvs" for x
  proof -
    obtain k v where x: "x = (k, v)" by (cases x)
    then have f: "plain_field k" "plain_field v" "hd k \<noteq> CHR ''#''" "length k + length v < 2 ^ 64 - 4"
      using assms(1) that by auto
    then show "Trim (config_text x) = config_text x" "length (Split (config_text x) ''='') = 2" "entry_of (config_text x) = x"
      using config_text_entry x by auto
    show "config_text x \<noteq> []" "\<not> prefix ''#'' (config_text x)" "NL \<notin> set (config_text x)"
      using f by (cases k; auto simp: x config_text_def plain_field_def)+
  qed
  have "read_lines (concat (map (\<lambda>kv. config_text kv @ [NL]) kvs)) = map config_text kvs"
    using pieces_append_line [of "map config_text kvs" NL] e(6) by (simp add: read_lines_pieces comp_def) force
  then have "config_entries (concat (map (\<lambda>kv. config_text kv @ [NL]) kvs)) = map config_text kvs"
    using e(1,4,5) by (simp add: config_entries_def cong: map_cong)
  moreover have "map entry_of (map config_text kvs) = kvs" using e(3) by (simp add: map_idI)
  ultimately have "LoadFile [p \<mapsto> concat (map (\<lambda>kv. config_text kv @ [NL]) kvs)] p = Inr (map_of kvs)"
    using assms(2) e(2,3) by (auto simp: config_loaded comp_def cong: map_cong)
  then show ?thesis by (intro exI [of _ "map_of kvs"]) (simp add: Config_Get_def)
qed

theorem config_roundtrip_witness:
  "\<exists>m. LoadFile [''f'' \<mapsto> concat (map (\<lambda>kv. config_text kv @ [NL]) [(''port'', ''80 81''), (''host'', ''h'')])] ''f'' = Inr m \<and>
    Config_Get m ''port'' [] = ''80 81''"
  using config_roundtrip [of "[(''port'', ''80 81''), (''host'', ''h'')]" "''f''"]
  by (auto simp: plain_field_def IsSpace_def is_space_def)

section \<open>What a command line says\<close>

text \<open>An option is an argument that starts with a dash. The last argument has no next one, as if a dash came next.\<close>

definition dash :: "string \<Rightarrow> bool" where
  "dash a \<longleftrightarrow> prefix ''-'' a"

definition positional :: "string \<Rightarrow> string list \<Rightarrow> string list" where
  "positional before argv = map snd (filter (\<lambda>(p, a). \<not> dash p \<and> \<not> dash a) (zip (before # argv) argv))"

definition options_with_value :: "string list \<Rightarrow> (string \<times> string) list" where
  "options_with_value argv = filter (\<lambda>(a, b). dash a \<and> \<not> dash b) (zip argv (tl argv))"

definition options_alone :: "string list \<Rightarrow> string set" where
  "options_alone argv = fst ` set (filter (\<lambda>(a, b). dash a \<and> dash b) (zip argv (tl argv @ [''-''])))"

lemma dash_dash [simp]: "dash ''-''"
  by (simp add: dash_def)

lemma argv_loop_eq:
  "\<not> dash before \<Longrightarrow> argv_loop argv c = c\<lparr>argv_args := argv_args c @ positional before argv,
     argv_mpss := argv_mpss c ++ map_of (rev (options_with_value argv)), argv_sset := argv_sset c \<union> options_alone argv\<rparr>"
proof (induction argv c arbitrary: before rule: argv_loop.induct)
  case (1 c)
  then show ?case by (simp add: positional_def options_with_value_def options_alone_def)
next
  case (2 a c)
  then show ?case by (simp add: positional_def options_with_value_def options_alone_def dash_def)
next
  case (3 a b rest c)
  consider (valued) "dash a" "\<not> dash b" | (flag) "dash a" "dash b" | (arg) "\<not> dash a" by blast
  then show ?case
  proof cases
    case valued
    have "argv_loop (a # b # rest) c = argv_loop rest (c\<lparr>argv_mpss := (argv_mpss c)(a \<mapsto> b)\<rparr>)"
      using valued by (simp add: dash_def)
    also have "\<dots> = c\<lparr>argv_args := argv_args c @ positional b rest,
        argv_mpss := (argv_mpss c)(a \<mapsto> b) ++ map_of (rev (options_with_value rest)), argv_sset := argv_sset c \<union> options_alone rest\<rparr>"
      using "3.IH"(1) [of b] valued by (simp add: dash_def fun_upd_def)
    also have "positional b rest = positional before (a # b # rest)" using valued by (simp add: positional_def)
    also have "options_alone rest = options_alone (a # b # rest)" using valued by (cases rest) (simp_all add: options_alone_def)
    also have "(argv_mpss c)(a \<mapsto> b) ++ map_of (rev (options_with_value rest)) =
        argv_mpss c ++ map_of (rev (options_with_value (a # b # rest)))"
      using valued by (cases rest) (simp_all add: options_with_value_def)
    finally show ?thesis .
  next
    case flag
    then show ?thesis
      using "3.IH"(2) [of before] "3.prems" by (simp add: dash_def positional_def options_with_value_def options_alone_def)
  next
    case arg
    then show ?thesis
      using "3.IH"(3) [of a] "3.prems" by (simp add: dash_def positional_def options_with_value_def options_alone_def)
  qed
qed

text \<open>
  Every argument of the command line is classified by its place: an option followed by an argument without a dash
  has that argument as its value, the last such place counting; an option at the end or before another option
  stands alone; and what is neither an option nor the value of one is a positional argument, in order.
\<close>

theorem argv_classified:
  "new_ArgvContext argv = \<lparr>argv_args = positional [] argv, argv_mpss = map_of (rev (options_with_value argv)),
     argv_sset = options_alone argv\<rparr>"
  using argv_loop_eq [of "[]" argv "\<lparr>argv_args = [], argv_mpss = Map.empty, argv_sset = {}\<rparr>"]
  by (simp add: new_ArgvContext_def dash_def)

end
