(* ===== verification/TextRank.thy ===== *)
theory TextRank imports Jieba begin

text \<open>
  \<open>cppjieba/TextRankExtractor.hpp\<close>: the words of a text that are ranked highest in the graph of the words near each
  other.

  \<^item> A \<open>std::map\<close> is a list of entries in the order of their keys, since its iteration is the order in which the code
    adds numbers up; \<open>at_key\<close> is an assignment through \<open>operator[]\<close>, which makes a missing entry from the default.
  \<^item> \<open>partial_sort\<close> leaves the order of equal weights open; the model has them in their old order.
\<close>

section \<open>Maps in the order of their keys\<close>

fun at_key :: "'k :: linorder \<Rightarrow> 'v \<Rightarrow> ('v \<Rightarrow> 'v) \<Rightarrow> ('k \<times> 'v) list \<Rightarrow> ('k \<times> 'v) list" where
  "at_key k d f [] = [(k, f d)]"
| "at_key k d f ((k', v) # m) =
     (if k = k' then (k', f v) # m else if k < k' then (k, f d) # (k', v) # m else (k', v) # at_key k d f m)"

definition keyed :: "('k :: linorder \<times> 'v) list \<Rightarrow> bool" where
  "keyed m \<longleftrightarrow> sorted_wrt (<) (map fst m)"

lemma keys_at_key [simp]: "fst ` set (at_key k d f m) = insert k (fst ` set m)"
  by (induction k d f m rule: at_key.induct) auto

lemma keyed_Nil [simp]: "keyed []"
  by (simp add: keyed_def)

lemma keyed_at_key: "keyed m \<Longrightarrow> keyed (at_key k d f m)"
proof (induction k d f m rule: at_key.induct)
  case (2 k d f k' v m)
  have "\<forall>x \<in> set (map fst (at_key k d f m)). k' < x" if "k \<noteq> k'" "\<not> k < k'"
    using 2 that keys_at_key [of k d f m] by (auto simp: keyed_def)
  then show ?case using 2 by (cases "k = k'"; cases "k < k'") (auto simp: keyed_def)
qed (simp add: keyed_def)

lemma map_of_at_key:
  "keyed m \<Longrightarrow> map_of (at_key k d f m) = (map_of m)(k \<mapsto> f (case map_of m k of None \<Rightarrow> d | Some v \<Rightarrow> v))"
proof (induction k d f m rule: at_key.induct)
  case (2 k d f k' v m)
  show ?case
  proof (cases "k = k' \<or> k < k'")
    case True
    moreover have "map_of m k = None" if "k < k'" using 2(2) that by (auto simp: keyed_def map_of_eq_None_iff)
    ultimately show ?thesis by (auto simp: fun_eq_iff)
  next
    case False
    with 2 show ?thesis by (auto simp: fun_eq_iff keyed_def)
  qed
qed (simp add: fun_eq_iff)

lemma keyed_distinct: "keyed m \<Longrightarrow> distinct (map fst m)"
  by (simp add: keyed_def strict_sorted_iff)

section \<open>The graph of the words\<close>

record RankWord =
  rw_word :: string
  rw_offsets :: "nat list"
  rw_weight :: real

type_synonym rank_map = "(string \<times> RankWord) list"

record WordGraph =
  gr_d :: real
  gr_graph :: "(string \<times> (string \<times> real) list) list"
  gr_nodeSet :: "string list"

definition new_WordGraph :: "fpenv \<Rightarrow> WordGraph" where
  "new_WordGraph E = \<lparr>gr_d = rnd E (85 / 100), gr_graph = [], gr_nodeSet = []\<rparr>"

text \<open>A new element of a map of words: its weight is zero.\<close>

definition no_word :: RankWord where
  "no_word = \<lparr>rw_word = [], rw_offsets = [], rw_weight = 0\<rparr>"

definition add_to :: "fpenv \<Rightarrow> string \<Rightarrow> string \<Rightarrow> real \<Rightarrow> (string \<times> (string \<times> real) list) list \<Rightarrow>
    (string \<times> (string \<times> real) list) list" where
  "add_to E start end weight = at_key start [] (at_key end 0 (\<lambda>w. fadd E w weight))"

definition addEdge :: "fpenv \<Rightarrow> string \<Rightarrow> string \<Rightarrow> real \<Rightarrow> WordGraph \<Rightarrow> WordGraph" where
  "addEdge E start end weight g =
     g\<lparr>gr_nodeSet := insort_insert end (insort_insert start (gr_nodeSet g)),
       gr_graph := add_to E end start weight (add_to E start end weight (gr_graph g))\<rparr>"

definition out_sum :: "fpenv \<Rightarrow> (string \<times> real) list \<Rightarrow> real" where
  "out_sum E edges = foldl (\<lambda>s (v, w). fadd E s w) 0 edges"

definition weight_at :: "rank_map \<Rightarrow> string \<Rightarrow> real" where
  "weight_at ws v = (case map_of ws v of None \<Rightarrow> 0 | Some x \<Rightarrow> rw_weight x)"

text \<open>The first loop of \<open>rank\<close>, one round over a node, and the bounds for the last loop.\<close>

definition rank_start :: "real \<Rightarrow> string \<times> (string \<times> real) list \<Rightarrow> rank_map \<Rightarrow> rank_map" where
  "rank_start wsdef = (\<lambda>(v, edges). at_key v no_word (\<lambda>x. x\<lparr>rw_word := v, rw_weight := wsdef\<rparr>))"

definition rank_node :: "fpenv \<Rightarrow> WordGraph \<Rightarrow> (string \<Rightarrow> real) \<Rightarrow> string \<Rightarrow> rank_map \<Rightarrow> rank_map" where
  "rank_node E g outSum node ws =
     (let edges = (case map_of (gr_graph g) node of None \<Rightarrow> [] | Some es \<Rightarrow> es);
          s = foldl (\<lambda>s (v, w). fadd E s (fmul E (fdiv E w (outSum v)) (weight_at ws v))) 0 edges
      in at_key node no_word (\<lambda>x. x\<lparr>rw_weight := fadd E (fsub E 1 (gr_d g)) (fmul E (gr_d g) s)\<rparr>) ws)"

definition rank_bounds :: "rank_map \<Rightarrow> real \<times> real" where
  "rank_bounds ws = foldl (\<lambda>(lo, hi) (k, x). (if rw_weight x < lo then rw_weight x else lo, if rw_weight x > hi then rw_weight x else hi))
     (rw_weight (snd (hd ws)), rw_weight (snd (hd ws))) ws"

definition rank_scaled :: "fpenv \<Rightarrow> real \<Rightarrow> real \<Rightarrow> string \<times> RankWord \<Rightarrow> string \<times> RankWord" where
  "rank_scaled E min_rank max_rank = (\<lambda>(k, x).
     (k, x\<lparr>rw_weight := fdiv E (fsub E (rw_weight x) (fdiv E min_rank 10)) (fsub E max_rank (fdiv E min_rank 10))\<rparr>))"

definition rank_outSum :: "fpenv \<Rightarrow> WordGraph \<Rightarrow> string \<Rightarrow> real" where
  "rank_outSum E g v = (case map_of (gr_graph g) v of None \<Rightarrow> 0 | Some es \<Rightarrow> out_sum E es)"

definition rank :: "fpenv \<Rightarrow> WordGraph \<Rightarrow> rank_map \<Rightarrow> nat \<Rightarrow> rank_map" where
  "rank E g ws rankTime =
     (if gr_graph g = [] then ws
      else (let wsdef = fdiv E 1 (rnd E (of_nat (length (gr_graph g))));
                ws = fold (rank_start wsdef) (gr_graph g) ws;
                ws = (fold (rank_node E g (rank_outSum E g)) (gr_nodeSet g) ^^ rankTime) ws;
                (min_rank, max_rank) = rank_bounds ws
            in map (rank_scaled E min_rank max_rank) ws))"

section \<open>Extraction\<close>

definition rank_skips :: "string set \<Rightarrow> string \<Rightarrow> bool" where
  "rank_skips stops w \<longleftrightarrow> IsSingleWord w \<or> w \<in> stops"

text \<open>The inner loop, which links word \<open>i\<close> to the words after it.\<close>

function link_from :: "fpenv \<Rightarrow> string set \<Rightarrow> string list \<Rightarrow> nat \<Rightarrow> nat \<Rightarrow> nat \<Rightarrow> nat \<Rightarrow> WordGraph \<Rightarrow> WordGraph" where
  "link_from E stops words i width j skip g =
     (if j < i + width + skip \<and> j < length words then
        (if rank_skips stops (words ! j) then link_from E stops words i width (j + 1) (skip + 1) g
         else link_from E stops words i width (j + 1) skip (addEdge E (words ! i) (words ! j) 1 g))
      else g)"
  by pat_completeness auto
termination
  by (relation "measure (\<lambda>(E, stops, words, i, width, j, skip, g). length words - j)") auto

declare link_from.simps [simp del]

text \<open>The outer loop from word \<open>i\<close> on, at byte \<open>offs\<close>.\<close>

function scan_words :: "fpenv \<Rightarrow> string set \<Rightarrow> string list \<Rightarrow> nat \<Rightarrow> nat \<Rightarrow> nat \<Rightarrow> WordGraph \<times> rank_map \<Rightarrow>
    nat \<times> WordGraph \<times> rank_map" where
  "scan_words E stops words width i offs st =
     (if i < length words then
        scan_words E stops words width (i + 1) (offs + length (words ! i))
          (if rank_skips stops (words ! i) then st
           else (link_from E stops words i width (i + 1) 0 (fst st),
                 at_key (words ! i) no_word (\<lambda>x. x\<lparr>rw_offsets := rw_offsets x @ [offs]\<rparr>) (snd st)))
      else (offs, st))"
  by pat_completeness auto
termination
  by (relation "measure (\<lambda>(E, stops, words, width, i, offs, st). length words - i)") auto

declare scan_words.simps [simp del]

definition TextRank_Extract ::
  "fpenv \<Rightarrow> DictTrie \<Rightarrow> HMMModel \<Rightarrow> string set \<Rightarrow> string \<Rightarrow> RankWord list \<Rightarrow> nat \<Rightarrow> nat \<Rightarrow> nat \<Rightarrow> RankWord list" where
  "TextRank_Extract E d m stops sentence keywords topN width rankTime =
     (let words = MixSegment_Cut_sentence E d m default_symbols sentence True;
          (offs, graph, wordmap) = scan_words E stops words width 0 0 (new_WordGraph E, [])
      in if offs \<noteq> length sentence then keywords
         else (let keywords = map snd (rank E graph wordmap rankTime)
               in take (min topN (length keywords)) (sort_key (\<lambda>x. - rw_weight x) keywords)))"

definition TextRank_Extract_pairs ::
  "fpenv \<Rightarrow> DictTrie \<Rightarrow> HMMModel \<Rightarrow> string set \<Rightarrow> string \<Rightarrow> (string \<times> real) list \<Rightarrow> nat \<Rightarrow> (string \<times> real) list" where
  "TextRank_Extract_pairs E d m stops sentence keywords topN =
     keywords @ map (\<lambda>x. (rw_word x, rw_weight x)) (TextRank_Extract E d m stops sentence [] topN 5 10)"

definition TextRank_Extract_strings ::
  "fpenv \<Rightarrow> DictTrie \<Rightarrow> HMMModel \<Rightarrow> string set \<Rightarrow> string \<Rightarrow> string list \<Rightarrow> nat \<Rightarrow> string list" where
  "TextRank_Extract_strings E d m stops sentence keywords topN =
     keywords @ map rw_word (TextRank_Extract E d m stops sentence [] topN 5 10)"

text \<open>
  The constructors build the mixed segmenter from a dictionary and a model, which are arguments here, and load the stop
  words.
\<close>

definition TextRank_LoadStopWordDict :: "filesystem \<Rightarrow> string \<Rightarrow> abort + string set" where
  "TextRank_LoadStopWordDict fs filePath =
     (case fs filePath of
        None \<Rightarrow> Inl XCheckFailed
      | Some content \<Rightarrow>
          (let stops = fold insert (read_lines content) {} in if stops = {} then Inl AssertFailed else Inr stops))"

definition new_TextRankExtractor ::
  "filesystem \<Rightarrow> DictTrie \<Rightarrow> HMMModel \<Rightarrow> string \<Rightarrow> abort + (DictTrie \<times> HMMModel) \<times> string set" where
  "new_TextRankExtractor fs d m stopWordPath =
     (case TextRank_LoadStopWordDict fs stopWordPath of Inl e \<Rightarrow> Inl e | Inr stops \<Rightarrow> Inr ((d, m), stops))"

section \<open>The window over the words that count\<close>

definition kept :: "string set \<Rightarrow> string list \<Rightarrow> string list" where
  "kept stops ws = filter (\<lambda>w. \<not> rank_skips stops w) ws"

fun window_pairs :: "nat \<Rightarrow> string list \<Rightarrow> (string \<times> string) list" where
  "window_pairs width [] = []"
| "window_pairs width (w # ws) = map (Pair w) (take (width - 1) ws) @ window_pairs width ws"

definition link_all :: "fpenv \<Rightarrow> (string \<times> string) list \<Rightarrow> WordGraph \<Rightarrow> WordGraph" where
  "link_all E ps g = foldl (\<lambda>g (a, b). addEdge E a b 1 g) g ps"

lemma link_all_append: "link_all E (ps @ qs) g = link_all E qs (link_all E ps g)"
  by (simp add: link_all_def)

lemma kept_drop: "j < length ws \<Longrightarrow> kept stops (drop j ws) =
    (if rank_skips stops (ws ! j) then kept stops (drop (Suc j) ws) else ws ! j # kept stops (drop (Suc j) ws))"
  by (simp add: kept_def Cons_nth_drop_Suc [symmetric])

text \<open>A word that is skipped widens the loop by one, so that it sees the next \<open>width - 1\<close> words that count.\<close>

lemma link_from_eq:
  "i < j \<Longrightarrow> link_from E stops words i width j skip g =
    link_all E (map (Pair (words ! i)) (take (i + width + skip - j) (kept stops (drop j words)))) g"
proof (induction E stops words i width j skip g rule: link_from.induct)
  case (1 E stops words i width j skip g)
  show ?case
  proof (cases "j < i + width + skip \<and> j < length words")
    case True
    then obtain n where n: "i + width + skip - j = Suc n" by (metis Suc_diff_Suc)
    then have m: "i + width + (skip + 1) - (j + 1) = Suc n" "i + width + skip - (j + 1) = n" by simp_all
    show ?thesis
    proof (cases "rank_skips stops (words ! j)")
      case skips: True
      have "link_from E stops words i width j skip g = link_from E stops words i width (j + 1) (skip + 1) g"
        using True skips by (subst link_from.simps) simp
      also have "\<dots> = link_all E (map (Pair (words ! i)) (take (Suc n) (kept stops (drop (j + 1) words)))) g"
        using "1.IH"(1) [OF True skips] "1.prems" by (simp only: m)
      finally show ?thesis using True skips by (simp add: n kept_drop)
    next
      case counts: False
      have "link_from E stops words i width j skip g = link_from E stops words i width (j + 1) skip (addEdge E (words ! i) (words ! j) 1 g)"
        using True counts by (subst link_from.simps) simp
      also have "\<dots> = link_all E (map (Pair (words ! i)) (take n (kept stops (drop (j + 1) words)))) (addEdge E (words ! i) (words ! j) 1 g)"
        using "1.IH"(2) [OF True counts] "1.prems" by (simp only: m)
      finally show ?thesis using True counts by (simp add: n kept_drop link_all_def)
    qed
  next
    case False
    then show ?thesis by (subst link_from.simps) (auto simp: link_all_def kept_def not_less)
  qed
qed

lemma scan_words_graph:
  "fst (snd (scan_words E stops words width i offs st)) = link_all E (window_pairs width (kept stops (drop i words))) (fst st)"
proof (induction E stops words width i offs st rule: scan_words.induct)
  case (1 E stops words width i offs st)
  show ?case
  proof (cases "i < length words")
    case True
    then show ?thesis
      using "1.IH" [OF True] link_from_eq [of i "i + 1" E stops words width 0 "fst st"]
      by (subst scan_words.simps) (simp add: kept_drop link_all_append)
  next
    case False
    then show ?thesis by (subst scan_words.simps) (simp add: kept_def link_all_def)
  qed
qed

lemma scan_words_offs: "fst (scan_words E stops words width i offs st) = offs + length (concat (drop i words))"
proof (induction E stops words width i offs st rule: scan_words.induct)
  case (1 E stops words width i offs st)
  show ?case
  proof (cases "i < length words")
    case True
    then show ?thesis
      using "1.IH" [OF True] by (subst scan_words.simps) (simp add: Cons_nth_drop_Suc [symmetric])
  next
    case False
    then show ?thesis by (subst scan_words.simps) simp
  qed
qed

text \<open>The entries of the word map: every word that counts, with the offsets of its occurrences.\<close>

definition found_word :: "nat list \<Rightarrow> RankWord option \<Rightarrow> RankWord" where
  "found_word offs x = (case x of None \<Rightarrow> no_word\<lparr>rw_offsets := offs\<rparr> | Some x \<Rightarrow> x\<lparr>rw_offsets := rw_offsets x @ offs\<rparr>)"

lemma scan_words_map:
  assumes "keyed (snd st)"
  shows "keyed (snd (snd (scan_words E stops words width i offs st))) \<and>
    map_of (snd (snd (scan_words E stops words width i offs st))) k =
      (if k \<in> set (kept stops (drop i words)) then Some (found_word (word_offsets k offs (drop i words)) (map_of (snd st) k))
       else map_of (snd st) k)"
  using assms
proof (induction E stops words width i offs st rule: scan_words.induct)
  case (1 E stops words width i offs st)
  show ?case
  proof (cases "i < length words")
    case True
    let ?w = "words ! i"
    have d: "drop i words = ?w # drop (i + 1) words" using True by (simp add: Cons_nth_drop_Suc)
    have none: "word_offsets k o' us = []" if "k \<notin> set us" for o' us
      using that by (metis count_list_0_iff length_0_conv length_word_offsets)
    show ?thesis
    proof (cases "rank_skips stops ?w")
      case skips: True
      then show ?thesis
        using "1.IH" [OF True] "1.prems" True d
        by (subst (1 2) scan_words.simps) (auto simp: kept_def)
    next
      case counts: False
      let ?m = "at_key ?w no_word (\<lambda>x. x\<lparr>rw_offsets := rw_offsets x @ [offs]\<rparr>) (snd st)"
      have m: "keyed ?m" "map_of ?m = (map_of (snd st))(?w \<mapsto> found_word [offs] (map_of (snd st) ?w))"
        using keyed_at_key [OF "1.prems"] map_of_at_key [OF "1.prems"]
        by (auto simp: found_word_def no_word_def split: option.split)
      have f: "found_word (offs # us) x = found_word us (Some (found_word [offs] x))" for us x
        by (simp add: found_word_def no_word_def split: option.split)
      have f0: "found_word [] (Some x) = x" for x by (simp add: found_word_def)
      define st' where "st' = (link_from E stops words i width (i + 1) 0 (fst st), ?m)"
      have step: "scan_words E stops words width i offs st = scan_words E stops words width (i + 1) (offs + length ?w) st'"
        using True counts by (subst scan_words.simps) (simp add: st'_def)
      have ih: "keyed (snd (snd (scan_words E stops words width i offs st))) \<and>
          map_of (snd (snd (scan_words E stops words width i offs st))) k =
            (if k \<in> set (kept stops (drop (i + 1) words))
             then Some (found_word (word_offsets k (offs + length ?w) (drop (i + 1) words)) (map_of ?m k)) else map_of ?m k)"
        unfolding step using "1.IH" [OF True, unfolded if_not_P [OF counts] st'_def [symmetric]] m(1) by (simp add: st'_def)
      have kd: "kept stops (?w # us) = ?w # kept stops us" for us using counts by (simp add: kept_def)
      have "k = ?w \<Longrightarrow> k \<notin> set (kept stops (drop (i + 1) words)) \<Longrightarrow> word_offsets k (offs + length ?w) (drop (i + 1) words) = []"
        using none [where us = "drop (i + 1) words"] counts by (simp add: kept_def)
      then show ?thesis
        using ih unfolding d kd m(2) by (cases "k = ?w"; cases "k \<in> set (kept stops (drop (i + 1) words))") (simp_all add: f [symmetric] f0)
    qed
  next
    case False
    then show ?thesis using "1.prems" by (subst (1 2) scan_words.simps) (simp add: kept_def)
  qed
qed

section \<open>The nodes of the graph\<close>

lemma nodes_addEdge: "fst ` set (gr_graph (addEdge E a b w g)) = {a, b} \<union> fst ` set (gr_graph g)"
  by (auto simp: addEdge_def add_to_def)

lemma nodeSet_addEdge: "set (gr_nodeSet (addEdge E a b w g)) = {a, b} \<union> set (gr_nodeSet g)"
  by (auto simp: addEdge_def set_insort_insert)

lemma nodes_link_all:
  "fst ` set (gr_graph (link_all E ps g)) = fst ` set ps \<union> snd ` set ps \<union> fst ` set (gr_graph g) \<and>
   set (gr_nodeSet (link_all E ps g)) = fst ` set ps \<union> snd ` set ps \<union> set (gr_nodeSet g)"
proof (induction ps arbitrary: g)
  case (Cons p ps)
  obtain a b where p: "p = (a, b)" by (cases p)
  then have "link_all E (p # ps) g = link_all E ps (addEdge E a b 1 g)" by (simp add: link_all_def)
  then show ?case using Cons.IH [of "addEdge E a b 1 g"] by (auto simp: p nodes_addEdge nodeSet_addEdge)
qed (simp add: link_all_def)

lemma window_nodes: "2 \<le> width \<Longrightarrow> 2 \<le> length ws \<Longrightarrow>
    fst ` set (window_pairs width ws) \<union> snd ` set (window_pairs width ws) = set ws"
proof (induction ws)
  case (Cons w ws)
  then obtain v us where ws: "ws = v # us" by (cases ws) auto
  obtain n where n: "width = Suc (Suc n)" using Cons.prems(1) by (metis add_2_eq_Suc le_Suc_ex)
  let ?P = "\<lambda>ps. fst ` set ps \<union> snd ` set ps"
  have "?P (map (Pair w) (take (width - 1) ws)) = insert w (insert v (set (take n us)))"
    by (auto simp: n ws image_iff)
  moreover have "?P (window_pairs width ws) = (if us = [] then {} else set ws)"
    using Cons.IH Cons.prems(1) by (cases us) (simp_all add: ws)
  moreover have "?P (window_pairs width (w # ws)) = ?P (map (Pair w) (take (width - 1) ws)) \<union> ?P (window_pairs width ws)"
    by (simp add: image_Un) blast
  ultimately have "?P (window_pairs width (w # ws)) = insert w (insert v (set (take n us))) \<union> (if us = [] then {} else set ws)"
    by (simp only:)
  also have "\<dots> = set (w # ws)" using set_take_subset [of n us] by (cases "us = []") (auto simp: ws)
  finally show ?case .
qed simp

section \<open>What the ranking keeps\<close>

text \<open>The same words with the same offsets; \<open>V\<close> are those whose \<open>word\<close> has been set.\<close>

definition ranked :: "string set \<Rightarrow> rank_map \<Rightarrow> rank_map \<Rightarrow> bool" where
  "ranked V ws ws' \<longleftrightarrow> keyed ws' \<and> fst ` set ws' = fst ` set ws \<and>
     (\<forall>k x'. map_of ws' k = Some x' \<longrightarrow>
        (\<exists>x. map_of ws k = Some x \<and> rw_offsets x' = rw_offsets x \<and> rw_word x' = (if k \<in> V then k else rw_word x)))"

lemma ranked_refl: "keyed ws \<Longrightarrow> ranked {} ws ws"
  by (simp add: ranked_def)

lemma ranked_weight:
  assumes "ranked V ws ws'" and "v \<in> fst ` set ws"
  shows "ranked V ws (at_key v no_word (\<lambda>x. x\<lparr>rw_weight := r\<rparr>) ws')"
proof -
  have "v \<in> fst ` set ws'" using assms by (simp add: ranked_def)
  then obtain y where y: "map_of ws' v = Some y" by (metis map_of_eq_None_iff not_None_eq)
  then obtain x where "map_of ws v = Some x" "rw_offsets y = rw_offsets x" "rw_word y = (if v \<in> V then v else rw_word x)"
    using assms(1) unfolding ranked_def by blast
  then show ?thesis using assms y by (auto simp: ranked_def keyed_at_key map_of_at_key)
qed

lemma ranked_start:
  assumes "ranked V ws ws'" and "v \<in> fst ` set ws"
  shows "ranked (insert v V) ws (rank_start wsdef (v, es) ws')"
proof -
  have "v \<in> fst ` set ws'" using assms by (simp add: ranked_def)
  then obtain y where y: "map_of ws' v = Some y" by (metis map_of_eq_None_iff not_None_eq)
  then obtain x where "map_of ws v = Some x" "rw_offsets y = rw_offsets x"
    using assms(1) unfolding ranked_def by blast
  then show ?thesis using assms y by (auto simp: rank_start_def ranked_def keyed_at_key map_of_at_key)
qed

lemma ranked_starts:
  "ranked V ws ws' \<Longrightarrow> fst ` set g \<subseteq> fst ` set ws \<Longrightarrow> ranked (V \<union> fst ` set g) ws (fold (rank_start wsdef) g ws')"
proof (induction g arbitrary: V ws')
  case (Cons e g)
  obtain v es where "e = (v, es)" by (cases e)
  then show ?case
    using Cons.IH [OF ranked_start [OF Cons.prems(1), of v wsdef es]] Cons.prems(2) by (simp add: Un_commute)
qed simp

lemma ranked_nodes:
  "ranked V ws ws' \<Longrightarrow> set ns \<subseteq> fst ` set ws \<Longrightarrow> ranked V ws (fold (rank_node E g outs) ns ws')"
proof (induction ns arbitrary: ws')
  case (Cons n ns)
  then show ?case using ranked_weight [OF Cons.prems(1), of n] by (simp add: rank_node_def Let_def)
qed simp

lemma ranked_rounds:
  "ranked V ws ws' \<Longrightarrow> set ns \<subseteq> fst ` set ws \<Longrightarrow> ranked V ws ((fold (rank_node E g outs) ns ^^ t) ws')"
  by (induction t) (simp_all add: ranked_nodes)

lemma ranked_scaled: "ranked V ws ws' \<Longrightarrow> ranked V ws (map (rank_scaled E lo hi) ws')"
proof -
  assume r: "ranked V ws ws'"
  have k: "map fst (map (rank_scaled E lo hi) ws') = map fst ws'" by (simp add: rank_scaled_def case_prod_unfold comp_def)
  have m: "map_of (map (rank_scaled E lo hi) ws') j = map_option (\<lambda>x. snd (rank_scaled E lo hi (j, x))) (map_of ws' j)" for j
    by (induction ws') (auto simp: rank_scaled_def)
  have "keyed (map (rank_scaled E lo hi) ws')" and "fst ` set (map (rank_scaled E lo hi) ws') = fst ` set ws"
    using r k unfolding ranked_def keyed_def by (metis list.set_map)+
  moreover have "\<exists>x. map_of ws k = Some x \<and> rw_offsets x' = rw_offsets x \<and> rw_word x' = (if k \<in> V then k else rw_word x)"
    if e: "map_of (map (rank_scaled E lo hi) ws') k = Some x'" for k x'
  proof -
    obtain y where y: "map_of ws' k = Some y" "x' = snd (rank_scaled E lo hi (k, y))" using e by (auto simp: m)
    then obtain x where "map_of ws k = Some x" "rw_offsets y = rw_offsets x" "rw_word y = (if k \<in> V then k else rw_word x)"
      using r unfolding ranked_def by blast
    moreover have "rw_offsets x' = rw_offsets y" "rw_word x' = rw_word y" using y(2) by (simp_all add: rank_scaled_def)
    ultimately show ?thesis by simp
  qed
  ultimately show ?thesis unfolding ranked_def by (intro conjI allI impI)
qed

lemma ranked_rank:
  assumes "keyed ws" and "fst ` set (gr_graph g) \<subseteq> fst ` set ws" and "set (gr_nodeSet g) \<subseteq> fst ` set ws"
  shows "ranked (fst ` set (gr_graph g)) ws (rank E g ws rankTime)"
proof (cases "gr_graph g = []")
  case False
  have "ranked ({} \<union> fst ` set (gr_graph g)) ws (fold (rank_start wsdef) (gr_graph g) ws)" for wsdef
    by (rule ranked_starts [OF ranked_refl [OF assms(1)] assms(2)])
  then show ?thesis
    using False ranked_rounds [OF _ assms(3)] by (simp add: rank_def Let_def case_prod_unfold ranked_scaled)
qed (simp add: rank_def ranked_refl assms(1))

section \<open>The range of the weights\<close>

definition fp_rounding :: "fpenv \<Rightarrow> bool" where
  "fp_rounding E \<longleftrightarrow> mono (rnd E) \<and> (\<forall>a. rnd E (rnd E a) = rnd E a) \<and> rnd E 0 = 0 \<and> rnd E 1 = 1"

lemma rnd_nonneg: "fp_rounding E \<Longrightarrow> 0 \<le> a \<Longrightarrow> 0 \<le> rnd E a"
  by (metis fp_rounding_def monoD)

definition weights_ok :: "fpenv \<Rightarrow> rank_map \<Rightarrow> bool" where
  "weights_ok E ws \<longleftrightarrow> (\<forall>(k, x) \<in> set ws. 0 \<le> rw_weight x \<and> rnd E (rw_weight x) = rw_weight x)"

lemma set_at_key: "x \<in> set (at_key k d f m) \<Longrightarrow> x \<in> set m \<or> fst x = k \<and> (snd x = f d \<or> (\<exists>v. (k, v) \<in> set m \<and> snd x = f v))"
  by (induction k d f m rule: at_key.induct) (auto split: if_splits)

lemma bounds_fold:
  fixes b :: "real \<times> real"
  assumes "(lo, hi) = foldl (\<lambda>(lo, hi) (k, x). (if rw_weight x < lo then rw_weight x else lo, if rw_weight x > hi then rw_weight x else hi)) b ws"
  shows "lo \<le> fst b \<and> snd b \<le> hi \<and> (\<forall>(k, x) \<in> set ws. lo \<le> rw_weight x \<and> rw_weight x \<le> hi) \<and>
    (lo = fst b \<or> (\<exists>(k, x) \<in> set ws. lo = rw_weight x))"
  using assms
proof (induction ws arbitrary: b)
  case (Cons e ws)
  obtain k x where e: "e = (k, x)" by (cases e)
  let ?b = "(if rw_weight x < fst b then rw_weight x else fst b, if rw_weight x > snd b then rw_weight x else snd b)"
  have "(lo, hi) = foldl (\<lambda>(lo, hi) (k, x). (if rw_weight x < lo then rw_weight x else lo, if rw_weight x > hi then rw_weight x else hi)) ?b ws"
    using Cons.prems by (simp add: e case_prod_unfold)
  from Cons.IH [OF this] show ?case by (auto simp: e split: if_splits)
qed simp

lemma scaled_range:
  assumes E: "fp_rounding E" and ok: "weights_ok E ws" and b: "rank_bounds ws = (lo, hi)" and x: "(k, x) \<in> set ws"
  shows "0 \<le> rw_weight (snd (rank_scaled E lo hi (k, x))) \<and> rw_weight (snd (rank_scaled E lo hi (k, x))) \<le> 1"
proof -
  let ?w = "rw_weight x" and ?m = "fdiv E lo 10"
  have mono: "mono (rnd E)" and r1: "rnd E 1 = 1" using E by (simp_all add: fp_rounding_def)
  have "hd ws \<in> set ws" using x by (cases ws) auto
  note bf = bounds_fold [OF b [symmetric, unfolded rank_bounds_def]]
  have lo: "lo \<le> ?w" "?w \<le> hi" using bf x by auto
  have "\<exists>(k, y) \<in> set ws. lo = rw_weight y" using bf \<open>hd ws \<in> set ws\<close> by (cases "hd ws") auto
  then have l: "0 \<le> lo" "rnd E lo = lo" using ok by (auto simp: weights_ok_def)
  have "?m \<le> lo" using monoD [OF mono, of "lo / 10" lo] l by (simp add: fdiv_def)
  then have n: "0 \<le> fsub E ?w ?m" using rnd_nonneg [OF E] lo by (simp add: fsub_def)
  have d: "fsub E ?w ?m \<le> fsub E hi ?m" using lo by (simp add: fsub_def monoD [OF mono])
  have "0 \<le> fsub E ?w ?m / fsub E hi ?m" "fsub E ?w ?m / fsub E hi ?m \<le> 1" using n d by (auto simp: divide_le_eq_1)
  then show ?thesis using rnd_nonneg [OF E] monoD [OF mono] r1 by (fastforce simp: rank_scaled_def fdiv_def)
qed

lemma in_keyed: "keyed m \<Longrightarrow> (k, x) \<in> set m \<longleftrightarrow> map_of m k = Some x"
  by (simp add: keyed_distinct)

lemma weights_ok_at_key:
  assumes "weights_ok E ws" and "\<And>x. 0 \<le> rw_weight (f x) \<and> rnd E (rw_weight (f x)) = rw_weight (f x)"
  shows "weights_ok E (at_key k d f ws)"
  unfolding weights_ok_def
proof (intro ballI, clarify)
  fix j x assume "(j, x) \<in> set (at_key k d f ws)"
  then show "0 \<le> rw_weight x \<and> rnd E (rw_weight x) = rw_weight x"
    using set_at_key [of "(j, x)" k d f ws] assms by (auto simp: weights_ok_def)
qed

lemma weight_at_nonneg: "weights_ok E ws \<Longrightarrow> 0 \<le> weight_at ws v"
  by (auto simp: weight_at_def weights_ok_def dest: map_of_SomeD split: option.split)

definition edges_ok :: "(string \<times> (string \<times> real) list) list \<Rightarrow> bool" where
  "edges_ok m \<longleftrightarrow> (\<forall>(v, es) \<in> set m. \<forall>(u, w) \<in> set es. 0 \<le> w)"

lemma edges_okD: "edges_ok m \<Longrightarrow> (v, es) \<in> set m \<Longrightarrow> (u, w) \<in> set es \<Longrightarrow> 0 \<le> w"
  by (auto simp: edges_ok_def)

definition graph_ok :: "WordGraph \<Rightarrow> bool" where
  "graph_ok g \<longleftrightarrow> 0 \<le> gr_d g \<and> gr_d g \<le> 1 \<and> edges_ok (gr_graph g)"

lemma graph_ok_new: "fp_rounding E \<Longrightarrow> graph_ok (new_WordGraph E)"
  using rnd_nonneg [of E "85 / 100"] monoD [of "rnd E" "85 / 100" 1] by (simp add: graph_ok_def edges_ok_def new_WordGraph_def fp_rounding_def)

lemma edges_ok_add_to:
  assumes E: "fp_rounding E" and ok: "edges_ok m"
  shows "edges_ok (add_to E a b 1 m)"
  unfolding edges_ok_def
proof (intro ballI, clarify)
  fix v es u w assume v: "(v, es) \<in> set (add_to E a b 1 m)" and u: "(u, w) \<in> set es"
  have e: "0 \<le> w" if "\<And>u w. (u, w) \<in> set es0 \<Longrightarrow> 0 \<le> w" "(u, w) \<in> set (at_key b 0 (\<lambda>w. fadd E w 1) es0)" for es0
    using set_at_key [OF that(2)] that(1) rnd_nonneg [OF E] by (auto simp: fadd_def)
  obtain es0 where es0: "es = at_key b 0 (\<lambda>w. fadd E w 1) es0 \<or> (v, es) \<in> set m" "es0 = [] \<or> (v, es0) \<in> set m"
    using set_at_key [OF v [unfolded add_to_def], unfolded fst_conv snd_conv] by blast
  have "0 \<le> w'" if "(u', w') \<in> set es0" for u' w' using es0(2) that edges_okD [OF ok] by auto
  with e [of es0] es0(1) u edges_okD [OF ok] show "0 \<le> w" by blast
qed

lemma graph_ok_link_all: "fp_rounding E \<Longrightarrow> graph_ok g \<Longrightarrow> graph_ok (link_all E ps g)"
proof (induction ps arbitrary: g)
  case (Cons p ps)
  obtain a b where p: "p = (a, b)" by (cases p)
  have "graph_ok (addEdge E a b 1 g)"
    using Cons.prems edges_ok_add_to by (simp add: graph_ok_def addEdge_def)
  then show ?case using Cons by (simp add: link_all_def p)
qed (simp add: link_all_def)

lemma sum_nonneg_fold: "fp_rounding E \<Longrightarrow> \<forall>x \<in> set xs. 0 \<le> h x \<Longrightarrow> 0 \<le> s \<Longrightarrow> 0 \<le> foldl (\<lambda>s x. fadd E s (h x)) s xs"
  by (induction xs arbitrary: s) (simp_all add: fadd_def rnd_nonneg)

lemma weights_ok_node:
  assumes E: "fp_rounding E" and g: "graph_ok g" and ok: "weights_ok E ws" and outs: "\<And>v. 0 \<le> outs v"
  shows "weights_ok E (rank_node E g outs node ws)"
proof -
  define es where "es = (case map_of (gr_graph g) node of None \<Rightarrow> [] | Some es \<Rightarrow> es)"
  define s where "s = foldl (\<lambda>s (v, w). fadd E s (fmul E (fdiv E w (outs v)) (weight_at ws v))) 0 es"
  have "0 \<le> w" if "(u, w) \<in> set es" for u w
  proof (cases "map_of (gr_graph g) node")
    case (Some es')
    then show ?thesis
      using g that edges_okD [of "gr_graph g" node es' u w] by (simp add: graph_ok_def es_def map_of_SomeD)
  qed (use that in \<open>simp add: es_def\<close>)
  then have "\<forall>x \<in> set es. 0 \<le> (case x of (v, w) \<Rightarrow> fmul E (fdiv E w (outs v)) (weight_at ws v))"
    using outs weight_at_nonneg [OF ok] rnd_nonneg [OF E] by (auto simp: fmul_def fdiv_def)
  from sum_nonneg_fold [OF E this order_refl] have "0 \<le> s" unfolding s_def by (simp add: case_prod_unfold)
  moreover have "0 \<le> fsub E 1 (gr_d g)" using g rnd_nonneg [OF E] by (simp add: fsub_def graph_ok_def)
  ultimately have "0 \<le> fadd E (fsub E 1 (gr_d g)) (fmul E (gr_d g) s)"
    using g rnd_nonneg [OF E] by (simp add: fadd_def fmul_def graph_ok_def)
  moreover have "rnd E (fadd E x y) = fadd E x y" for x y using E by (simp add: fadd_def fp_rounding_def)
  ultimately show ?thesis
    unfolding rank_node_def es_def [symmetric] s_def [symmetric] Let_def by (intro weights_ok_at_key [OF ok]) simp
qed

lemma rank_weights:
  assumes E: "fp_rounding E" and g: "graph_ok g" and ok: "weights_ok E ws" and ne: "gr_graph g \<noteq> []"
    and x: "(k, x) \<in> set (rank E g ws t)"
  shows "0 \<le> rw_weight x \<and> rw_weight x \<le> 1"
proof -
  define wsdef where "wsdef = fdiv E 1 (rnd E (of_nat (length (gr_graph g))))"
  have w: "0 \<le> wsdef \<and> rnd E wsdef = wsdef"
    using rnd_nonneg [OF E] E by (simp add: wsdef_def fdiv_def fp_rounding_def)
  have start: "weights_ok E (fold (rank_start wsdef) es ws')" if "weights_ok E ws'" for es ws'
    using that
  proof (induction es arbitrary: ws')
    case (Cons e es)
    have "weights_ok E (rank_start wsdef e ws')"
      using Cons.prems w by (auto simp: rank_start_def case_prod_unfold intro!: weights_ok_at_key)
    then show ?case using Cons.IH by simp
  qed simp
  have outs: "0 \<le> rank_outSum E g v" for v
  proof -
    have "0 \<le> out_sum E es" if "(v, es) \<in> set (gr_graph g)" for es
    proof -
      have "\<forall>x \<in> set es. 0 \<le> snd x" using g edges_okD [of "gr_graph g" v es] that by (auto simp: graph_ok_def)
      from sum_nonneg_fold [OF E this order_refl] show ?thesis by (simp add: out_sum_def case_prod_unfold)
    qed
    then show ?thesis by (auto simp: rank_outSum_def dest: map_of_SomeD split: option.split)
  qed
  have nodes: "weights_ok E (fold (rank_node E g (rank_outSum E g)) ns ws')" if "weights_ok E ws'" for ns ws'
    using that by (induction ns arbitrary: ws') (simp_all add: weights_ok_node [OF E g _ outs])
  define ws' where "ws' = (fold (rank_node E g (rank_outSum E g)) (gr_nodeSet g) ^^ t) (fold (rank_start wsdef) (gr_graph g) ws)"
  have ok': "weights_ok E ws'" unfolding ws'_def by (induction t) (simp_all add: start ok nodes)
  obtain lo hi where b: "rank_bounds ws' = (lo, hi)" by (cases "rank_bounds ws'")
  have "rank E g ws t = map (rank_scaled E lo hi) ws'"
    using ne b by (simp add: rank_def Let_def ws'_def wsdef_def)
  then obtain j y where "(j, y) \<in> set ws'" "(k, x) = rank_scaled E lo hi (j, y)" using x by auto
  with scaled_range [OF E ok' b, of j y] show ?thesis by (metis snd_conv)
qed

section \<open>Properties\<close>

text \<open>
  The graph has an edge for every pair of words that are less than \<open>width\<close> apart among the words that count, once for
  each such pair of occurrences: the loop over the words of the text, with its counter of the words skipped, gives
  the graph of a window over the text without stop words and single runes.
\<close>

theorem text_rank_window:
  "fst (snd (scan_words E stops words width 0 0 (new_WordGraph E, []))) =
    link_all E (window_pairs width (kept stops words)) (new_WordGraph E)"
  by (simp add: scan_words_graph)

lemma scan_wordmap:
  fixes E stops words width
  defines "m \<equiv> snd (snd (scan_words E stops words width 0 0 (new_WordGraph E, [])))"
  shows "keyed m" and "fst ` set m = set (kept stops words)"
    and "map_of m k = Some x \<Longrightarrow> x = no_word\<lparr>rw_offsets := word_offsets k 0 words\<rparr>"
    and "fp_rounding E \<Longrightarrow> weights_ok E m"
proof -
  have k: "keyed m \<and> map_of m k = (if k \<in> set (kept stops words) then Some (no_word\<lparr>rw_offsets := word_offsets k 0 words\<rparr>) else None)" for k
    unfolding m_def using scan_words_map [of "(new_WordGraph E, [])" E stops words width 0 0 k] by (simp add: found_word_def)
  then show kd: "keyed m" by blast
  show "fst ` set m = set (kept stops words)" using k by (auto simp flip: dom_map_of_conv_image_fst) (metis option.distinct(1))
  show "map_of m k = Some x \<Longrightarrow> x = no_word\<lparr>rw_offsets := word_offsets k 0 words\<rparr>" using k [of k] by (simp split: if_splits)
  show "fp_rounding E \<Longrightarrow> weights_ok E m"
    using k by (auto simp: weights_ok_def in_keyed [OF kd] no_word_def fp_rounding_def split: if_splits)
qed

lemma extract_shape:
  assumes "dict_ok d" and "fst (DecodeRunesInString s)" and "ws = MixSegment_Cut_sentence E d m default_symbols s True"
    and "xs = map snd (rank E (link_all E (window_pairs width (kept stops ws)) (new_WordGraph E))
      (snd (snd (scan_words E stops ws width 0 0 (new_WordGraph E, [])))) rankTime)"
  shows "TextRank_Extract E d m stops s old topN width rankTime = take (min topN (length xs)) (sort_key (\<lambda>x. - rw_weight x) xs)"
    and "concat ws = s"
proof -
  show c: "concat ws = s"
    using mix.concat_Cut_strings [of "(E, d, m, True)" default_symbols s] assms(1-3) by (simp add: MixSegment_Cut_sentence_def)
  have "fst (scan_words E stops ws width 0 0 (new_WordGraph E, [])) = length s" using c by (simp add: scan_words_offs)
  then show "TextRank_Extract E d m stops s old topN width rankTime = take (min topN (length xs)) (sort_key (\<lambda>x. - rw_weight x) xs)"
    by (simp add: TextRank_Extract_def assms(3) [symmetric] assms(4) case_prod_unfold Let_def scan_words_graph)
qed

text \<open>
  C36: When at least two occurrences of words count, the ranked words are as many as asked for and there are, all different
  words that count, by falling weight; each has the offsets of all its occurrences, where the text has it, and a
  weight between 0 and 1.
\<close>

theorem text_rank_keywords:
  assumes "dict_ok d" and "fst (DecodeRunesInString s)" and "ws = MixSegment_Cut_sentence E d m default_symbols s True"
    and "fp_rounding E" and "2 \<le> width" and "2 \<le> length (kept stops ws)"
    and "out = TextRank_Extract E d m stops s old topN width rankTime"
  shows "length out = min topN (card (set (kept stops ws))) \<and> distinct (map rw_word out) \<and>
    sorted_wrt (\<lambda>a b. rw_weight b \<le> rw_weight a) out \<and>
    (\<forall>x \<in> set out. rw_word x \<in> set (kept stops ws) \<and> rw_offsets x = word_offsets (rw_word x) 0 ws \<and>
       (\<forall>p \<in> set (rw_offsets x). take (length (rw_word x)) (drop p s) = rw_word x) \<and>
       0 \<le> rw_weight x \<and> rw_weight x \<le> 1)"
proof -
  define g where "g = link_all E (window_pairs width (kept stops ws)) (new_WordGraph E)"
  define wm where "wm = snd (snd (scan_words E stops ws width 0 0 (new_WordGraph E, [])))"
  define r where "r = rank E g wm rankTime"
  let ?xs = "map snd r"
  note shape = extract_shape [OF assms(1-3), of "?xs" width stops rankTime, unfolded r_def g_def wm_def, OF refl]
  have out: "out = take (min topN (length ?xs)) (sort_key (\<lambda>x. - rw_weight x) ?xs)" and c: "concat ws = s"
    using shape by (simp_all add: assms(7) r_def g_def wm_def)
  have nodes: "fst ` set (gr_graph g) = set (kept stops ws)" "set (gr_nodeSet g) = set (kept stops ws)"
    using nodes_link_all [of E "window_pairs width (kept stops ws)" "new_WordGraph E"] window_nodes [OF assms(5,6)]
    by (simp_all add: g_def new_WordGraph_def)
  note wm = scan_wordmap [of E stops ws width, folded wm_def]
  have rk: "ranked (set (kept stops ws)) wm r" using ranked_rank [OF wm(1), of g E rankTime] nodes wm(2) by (simp add: r_def)
  have kr: "keyed r" "fst ` set r = set (kept stops ws)" using rk wm(2) by (simp_all add: ranked_def)
  have entry: "rw_word x = k \<and> rw_offsets x = word_offsets k 0 ws \<and> k \<in> set (kept stops ws)" if "(k, x) \<in> set r" for k x
  proof -
    have "k \<in> set (kept stops ws)" using that kr(2) by force
    then show ?thesis using rk that wm(3) unfolding ranked_def in_keyed [OF kr(1)] by fastforce
  qed
  have words: "map rw_word ?xs = map fst r" using entry by (auto intro!: map_cong [OF refl] simp: comp_def)
  have dist: "distinct (map rw_word ?xs)" unfolding words by (rule keyed_distinct [OF kr(1)])
  have "length ?xs = card (fst ` set r)" using keyed_distinct [OF kr(1)] by (metis distinct_card length_map list.set_map)
  then have l: "length out = min topN (card (set (kept stops ws)))" by (simp add: out kr(2))
  have "distinct (map rw_word out)" by (rule take_best(4) [OF out dist])
  moreover have "sorted_wrt (\<lambda>a b. rw_weight b \<le> rw_weight a) out" by (rule take_best(1) [OF out])
  moreover have "gr_graph g \<noteq> []" using nodes(1) assms(6) by (cases "kept stops ws") auto
  note range = rank_weights [OF assms(4) graph_ok_link_all [OF assms(4) graph_ok_new [OF assms(4)]] wm(4) [OF assms(4)] this [unfolded g_def]]
  have occ: "take (length k) (drop p s) = k" if "p \<in> set (word_offsets k 0 ws)" for p k
    using word_offsets_occur [of p k "[]" ws] that c by simp
  have "rw_word x \<in> set (kept stops ws) \<and> rw_offsets x = word_offsets (rw_word x) 0 ws \<and> 0 \<le> rw_weight x \<and> rw_weight x \<le> 1"
    if x: "x \<in> set out" for x
  proof -
    obtain k where "(k, x) \<in> set r" using take_best(2) [OF out] x by auto
    with entry [OF this] range [of k x rankTime] show ?thesis by (simp add: r_def g_def)
  qed
  ultimately show ?thesis using l occ by auto
qed

text \<open>
  When the text has a single occurrence of a word that counts, the word is lost: \<open>rank\<close> returns before it has set the
  words of the map, so that \<open>Extract\<close> gives an empty word of weight 0 with the offset of that word.
\<close>

theorem text_rank_lone_word:
  assumes "dict_ok d" and "fst (DecodeRunesInString s)" and "ws = MixSegment_Cut_sentence E d m default_symbols s True"
    and "kept stops ws = [w]" and "0 < topN"
  shows "TextRank_Extract E d m stops s old topN width rankTime = [\<lparr>rw_word = [], rw_offsets = word_offsets w 0 ws, rw_weight = 0\<rparr>]"
proof -
  define wm where "wm = snd (snd (scan_words E stops ws width 0 0 (new_WordGraph E, [])))"
  note wm = scan_wordmap [of E stops ws width, folded wm_def]
  have "length wm = card (fst ` set wm)" using keyed_distinct [OF wm(1)] by (metis distinct_card length_map list.set_map)
  then obtain k x where kx: "wm = [(k, x)]" using assms(4) wm(2) by (auto simp: length_Suc_conv)
  then have "k = w" using wm(2) assms(4) by simp
  then have "wm = [(w, no_word\<lparr>rw_offsets := word_offsets w 0 ws\<rparr>)]" using wm(3) [of w x] kx by simp
  moreover have "rank E (link_all E (window_pairs width (kept stops ws)) (new_WordGraph E)) wm rankTime = wm"
    by (simp add: assms(4) link_all_def rank_def new_WordGraph_def)
  ultimately show ?thesis
    using extract_shape(1) [OF assms(1-3) refl, of stops old topN width rankTime] assms(5)
    by (simp add: wm_def [symmetric] no_word_def)
qed

theorem text_rank_keywords_witness:
  "map rw_word (TextRank_Extract sample_env sample_dict sample_hmm {''the''} ''ab abc ab'' [] 2 5 3) \<noteq> [] \<and>
   distinct (map rw_word (TextRank_Extract sample_env sample_dict sample_hmm {''the''} ''ab abc ab'' [] 2 5 3))"
proof -
  have d: "fst (DecodeRunesInString ''ab abc ab'')" and k: "kept {''the''} (MixSegment_Cut_sentence sample_env sample_dict sample_hmm default_symbols ''ab abc ab'' True)
      = [''ab'', ''abc'', ''ab'']" by code_simp+
  have E: "fp_rounding sample_env" by (simp add: fp_rounding_def sample_env_def mono_def)
  let ?kept = "kept {''the''} (MixSegment_Cut_sentence sample_env sample_dict sample_hmm default_symbols ''ab abc ab'' True)"
  let ?out = "TextRank_Extract sample_env sample_dict sample_hmm {''the''} ''ab abc ab'' [] 2 5 3"
  have "2 \<le> length ?kept" by (simp add: k)
  then have "length ?out = min 2 (card (set ?kept)) \<and> distinct (map rw_word ?out)"
    using text_rank_keywords [where m = sample_hmm and width = 5 and stops = "{''the''}" and old = "[]" and topN = 2 and rankTime = 3,
        OF sample_dict_ok d refl E _ _ refl] by simp
  moreover have "card (set ?kept) = 2" by (simp add: k card_insert_if)
  ultimately show ?thesis by (metis length_0_conv length_map min.idem zero_neq_numeral)
qed

theorem text_rank_lone_word_witness:
  "map rw_word (TextRank_Extract sample_env sample_dict sample_hmm {''ab''} ''ab abc ab'' [] 2 5 10) = [[]]"
proof -
  have d: "fst (DecodeRunesInString ''ab abc ab'')" and k: "kept {''ab''} (MixSegment_Cut_sentence sample_env sample_dict sample_hmm default_symbols ''ab abc ab'' True)
      = [''abc'']" by code_simp+
  from text_rank_lone_word [OF sample_dict_ok d refl k, of 2 "[]" 5 10] show ?thesis by simp
qed

end
