(* ===== verification/LocalVector.thy ===== *)
theory LocalVector imports Prelude begin

text \<open>
  \<open>limonp/LocalVector.hpp\<close>, the vector of the runes of a sentence: up to 16 elements in a buffer of the object
  itself, more of them in a block from \<open>malloc\<close>.

  \<^item> \<open>lv_heap\<close> is the block when \<open>ptr_\<close> points to one, and \<open>None\<close> when it points to the buffer.
  \<^item> What a block from \<open>malloc\<close> holds at first is a parameter, a list of the requested length.
  \<^item> \<open>lv_abs\<close> is the sequence from \<open>begin()\<close> to \<open>end()\<close>. The interface \<open>sequence\<close> states what the other
    components use when they take these vectors for lists.
\<close>

section \<open>The object\<close>

definition LOCAL_VECTOR_BUFFER_SIZE :: nat where "LOCAL_VECTOR_BUFFER_SIZE = 16"

record 'a local_vector =
  lv_buffer :: "'a list"
  lv_heap :: "'a list option"
  lv_size :: nat
  lv_capacity :: nat

definition lv_data :: "'a local_vector \<Rightarrow> 'a list" where
  "lv_data v = (case lv_heap v of None \<Rightarrow> lv_buffer v | Some b \<Rightarrow> b)"

definition lv_abs :: "'a local_vector \<Rightarrow> 'a list" where
  "lv_abs v = take (lv_size v) (lv_data v)"

definition lv_ok :: "'a local_vector \<Rightarrow> bool" where
  "lv_ok v \<longleftrightarrow> length (lv_buffer v) = LOCAL_VECTOR_BUFFER_SIZE \<and> lv_size v \<le> lv_capacity v \<and>
     LOCAL_VECTOR_BUFFER_SIZE \<le> lv_capacity v \<and> length (lv_data v) = lv_capacity v"

section \<open>Operations\<close>

definition lv_init :: "'a local_vector \<Rightarrow> 'a local_vector" where
  "lv_init v = v\<lparr>lv_heap := None, lv_size := 0, lv_capacity := LOCAL_VECTOR_BUFFER_SIZE\<rparr>"

text \<open>A new object, whose buffer holds what was there before.\<close>

definition lv_new :: "'a list \<Rightarrow> 'a local_vector" where
  "lv_new garbage = lv_init \<lparr>lv_buffer = garbage, lv_heap = None, lv_size = 0, lv_capacity = 0\<rparr>"

definition lv_clear :: "'a local_vector \<Rightarrow> 'a local_vector" where
  "lv_clear v = lv_init v"

text \<open>\<open>memcpy(dst, src, n)\<close>.\<close>

definition memcpy :: "'a list \<Rightarrow> 'a list \<Rightarrow> nat \<Rightarrow> 'a list" where
  "memcpy dst src n = take n src @ drop n dst"

definition lv_reserve :: "(nat \<Rightarrow> 'a list) \<Rightarrow> 'a local_vector \<Rightarrow> nat \<Rightarrow> 'a local_vector" where
  "lv_reserve malloc v n =
     (if n \<le> lv_capacity v then v
      else v\<lparr>lv_heap := Some (memcpy (malloc n) (lv_data v) (lv_capacity v)), lv_capacity := n\<rparr>)"

definition lv_set :: "'a local_vector \<Rightarrow> nat \<Rightarrow> 'a \<Rightarrow> 'a local_vector" where
  "lv_set v i x =
     (case lv_heap v of None \<Rightarrow> v\<lparr>lv_buffer := (lv_buffer v)[i := x]\<rparr> | Some b \<Rightarrow> v\<lparr>lv_heap := Some (b[i := x])\<rparr>)"

definition lv_get :: "'a local_vector \<Rightarrow> nat \<Rightarrow> 'a" where
  "lv_get v i = lv_data v ! i"

definition lv_push_back :: "(nat \<Rightarrow> 'a list) \<Rightarrow> 'a local_vector \<Rightarrow> 'a \<Rightarrow> 'a local_vector" where
  "lv_push_back malloc v x =
     (let v = (if lv_size v = lv_capacity v then lv_reserve malloc v (lv_capacity v * 2) else v)
      in (lv_set v (lv_size v) x)\<lparr>lv_size := lv_size v + 1\<rparr>)"

definition lv_empty :: "'a local_vector \<Rightarrow> bool" where
  "lv_empty v \<longleftrightarrow> 0 = lv_size v"

text \<open>\<open>*this = vec\<close> for another object, and for \<open>vec\<close> being the object itself: there the first statement has
already emptied what is then copied.\<close>

definition lv_copy :: "(nat \<Rightarrow> 'a list) \<Rightarrow> 'a local_vector \<Rightarrow> 'a local_vector \<Rightarrow> 'a local_vector" where
  "lv_copy malloc this vec =
     (let this = this\<lparr>lv_size := lv_size vec, lv_capacity := lv_capacity vec\<rparr>
      in case lv_heap vec of
           None \<Rightarrow> this\<lparr>lv_buffer := memcpy (lv_buffer this) (lv_buffer vec) (lv_size this), lv_heap := None\<rparr>
         | Some b \<Rightarrow> this\<lparr>lv_heap := Some (memcpy (malloc (lv_capacity vec)) b (lv_size vec))\<rparr>)"

definition lv_assign :: "(nat \<Rightarrow> 'a list) \<Rightarrow> 'a local_vector \<Rightarrow> 'a local_vector \<Rightarrow> 'a local_vector" where
  "lv_assign malloc this vec = lv_copy malloc (lv_clear this) vec"

definition lv_assign_self :: "(nat \<Rightarrow> 'a list) \<Rightarrow> 'a local_vector \<Rightarrow> 'a local_vector" where
  "lv_assign_self malloc this = (let this = lv_clear this in lv_copy malloc this this)"

text \<open>The constructors from another vector, from a range and from a repeated element.\<close>

definition lv_from_copy :: "(nat \<Rightarrow> 'a list) \<Rightarrow> 'a list \<Rightarrow> 'a local_vector \<Rightarrow> 'a local_vector" where
  "lv_from_copy malloc garbage vec = lv_assign malloc (lv_new garbage) vec"

definition lv_from_range :: "(nat \<Rightarrow> 'a list) \<Rightarrow> 'a list \<Rightarrow> 'a list \<Rightarrow> 'a local_vector" where
  "lv_from_range malloc garbage xs = foldl (lv_push_back malloc) (lv_new garbage) xs"

definition lv_from_repeat :: "(nat \<Rightarrow> 'a list) \<Rightarrow> 'a list \<Rightarrow> nat \<Rightarrow> 'a \<Rightarrow> 'a local_vector" where
  "lv_from_repeat malloc garbage n x = foldl (lv_push_back malloc) (lv_new garbage) (replicate n x)"

section \<open>Every operation on the sequence\<close>

definition allocates :: "(nat \<Rightarrow> 'a list) \<Rightarrow> bool" where
  "allocates malloc \<longleftrightarrow> (\<forall>n. length (malloc n) = n)"

lemma allocates_length [simp]: "allocates malloc \<Longrightarrow> length (malloc n) = n"
  by (simp add: allocates_def)

lemma length_memcpy: "n \<le> length src \<Longrightarrow> length (memcpy dst src n) = max n (length dst)"
  by (auto simp: memcpy_def)

lemma lv_new_ok: "length garbage = LOCAL_VECTOR_BUFFER_SIZE \<Longrightarrow> lv_ok (lv_new garbage) \<and> lv_abs (lv_new garbage) = []"
  by (simp add: lv_ok_def lv_new_def lv_init_def lv_data_def lv_abs_def)

lemma lv_clear_ok: "lv_ok v \<Longrightarrow> lv_ok (lv_clear v) \<and> lv_abs (lv_clear v) = []"
  by (simp add: lv_ok_def lv_clear_def lv_init_def lv_data_def lv_abs_def)

lemma lv_reserve_ok:
  "lv_ok v \<Longrightarrow> allocates malloc \<Longrightarrow>
   lv_ok (lv_reserve malloc v n) \<and> lv_abs (lv_reserve malloc v n) = lv_abs v \<and>
   lv_size (lv_reserve malloc v n) = lv_size v \<and> lv_capacity (lv_reserve malloc v n) = max n (lv_capacity v)"
  by (auto simp: lv_reserve_def lv_ok_def lv_abs_def lv_data_def length_memcpy memcpy_def)

lemma lv_data_set: "lv_data (lv_set v i x) = (lv_data v)[i := x]"
  by (simp add: lv_set_def lv_data_def split: option.split)

lemma lv_set_frame: "lv_size (lv_set v i x) = lv_size v" "lv_capacity (lv_set v i x) = lv_capacity v"
  "length (lv_buffer (lv_set v i x)) = length (lv_buffer v)"
  by (simp_all add: lv_set_def split: option.split)

lemma lv_set_ok: "lv_ok v \<Longrightarrow> lv_ok (lv_set v i x) \<and> (i < lv_size v \<longrightarrow> lv_abs (lv_set v i x) = (lv_abs v)[i := x])"
  by (simp add: lv_ok_def lv_abs_def lv_data_set lv_set_frame take_update_swap)

lemma lv_push_back_ok:
  assumes "lv_ok v" and "allocates malloc"
  shows "lv_ok (lv_push_back malloc v x) \<and> lv_abs (lv_push_back malloc v x) = lv_abs v @ [x] \<and>
    lv_capacity (lv_push_back malloc v x) = (if lv_size v = lv_capacity v then 2 * lv_capacity v else lv_capacity v)"
proof -
  define w where "w = (if lv_size v = lv_capacity v then lv_reserve malloc v (lv_capacity v * 2) else v)"
  note r = lv_reserve_ok [OF assms, of "lv_capacity v * 2"]
  have "0 < lv_capacity v" using assms(1) by (simp add: lv_ok_def LOCAL_VECTOR_BUFFER_SIZE_def)
  then have w: "lv_ok w" "lv_abs w = lv_abs v" "lv_size w = lv_size v" "lv_size w < lv_capacity w"
    "lv_capacity w = (if lv_size v = lv_capacity v then 2 * lv_capacity v else lv_capacity v)"
    using r assms(1) by (auto simp: w_def lv_ok_def)
  have p: "lv_push_back malloc v x = (lv_set w (lv_size w) x)\<lparr>lv_size := lv_size w + 1\<rparr>"
    by (simp add: lv_push_back_def w_def Let_def)
  have d: "lv_data (u\<lparr>lv_size := n\<rparr>) = lv_data u" for u :: "'a local_vector" and n
    by (simp add: lv_data_def split: option.split)
  have "lv_abs (lv_push_back malloc v x) = lv_abs w @ [x]"
    using w(1,4) by (simp add: p lv_abs_def d lv_data_set lv_ok_def take_Suc_conv_app_nth)
  then show ?thesis using w by (simp add: p d lv_ok_def lv_data_set lv_set_frame)
qed

lemma lv_copy_ok:
  assumes "lv_ok this" and "lv_ok vec" and "allocates malloc"
  shows "lv_ok (lv_copy malloc this vec) \<and> lv_abs (lv_copy malloc this vec) = lv_abs vec \<and>
    lv_capacity (lv_copy malloc this vec) = lv_capacity vec"
  using assms
  by (cases "lv_heap vec") (auto simp: lv_copy_def lv_ok_def lv_abs_def lv_data_def length_memcpy memcpy_def Let_def)

section \<open>The interface of a sequence\<close>

locale sequence =
  fixes abs :: "'v \<Rightarrow> 'a list" and ok :: "'v \<Rightarrow> bool"
    and empty :: 'v and push :: "'v \<Rightarrow> 'a \<Rightarrow> 'v" and size_of :: "'v \<Rightarrow> nat"
    and get :: "'v \<Rightarrow> nat \<Rightarrow> 'a"
  assumes empty: "ok empty" "abs empty = []"
    and push: "ok v \<Longrightarrow> ok (push v x)" "ok v \<Longrightarrow> abs (push v x) = abs v @ [x]"
    and size_of: "ok v \<Longrightarrow> size_of v = length (abs v)"
    and get: "ok v \<Longrightarrow> i < size_of v \<Longrightarrow> get v i = abs v ! i"
begin

lemma push_all: "ok v \<Longrightarrow> ok (foldl push v xs) \<and> abs (foldl push v xs) = abs v @ xs"
  by (induction xs arbitrary: v) (auto simp: push)

lemma get_pushed: "i < length xs \<Longrightarrow> get (foldl push empty xs) i = xs ! i"
  using push_all [OF empty(1), of xs] by (simp add: get size_of empty)

end

text \<open>An allocator whose blocks have zeros, for examples, and the interface for any allocator.\<close>

interpretation lv: sequence lv_abs lv_ok "lv_new (replicate 16 (x0 :: 'a))" "lv_push_back (\<lambda>n. replicate n x0)" lv_size lv_get
proof unfold_locales
  show "lv_ok (lv_new (replicate 16 x0))" and "lv_abs (lv_new (replicate 16 x0)) = []"
    using lv_new_ok [of "replicate 16 x0"] by (simp_all add: LOCAL_VECTOR_BUFFER_SIZE_def)
next
  fix v :: "'a local_vector" and x
  assume "lv_ok v"
  then show "lv_ok (lv_push_back (\<lambda>n. replicate n x0) v x)" and "lv_abs (lv_push_back (\<lambda>n. replicate n x0) v x) = lv_abs v @ [x]"
    using lv_push_back_ok [of v "\<lambda>n. replicate n x0" x] by (simp_all add: allocates_def)
qed (auto simp: lv_ok_def lv_abs_def lv_get_def)

section \<open>Any sequence of operations\<close>

datatype 'a lv_op = PushBack 'a | Reserve nat | Assign "'a list" | SetAt nat 'a | Clear

primrec lv_step :: "(nat \<Rightarrow> 'a list) \<Rightarrow> 'a list \<Rightarrow> 'a lv_op \<Rightarrow> 'a local_vector \<Rightarrow> 'a local_vector" where
  "lv_step malloc garbage (PushBack x) v = lv_push_back malloc v x"
| "lv_step malloc garbage (Reserve n) v = lv_reserve malloc v n"
| "lv_step malloc garbage (Assign xs) v = lv_assign malloc v (lv_from_range malloc garbage xs)"
| "lv_step malloc garbage (SetAt i x) v = (if i < lv_size v then lv_set v i x else v)"
| "lv_step malloc garbage Clear v = lv_clear v"

text \<open>What they promise on the sequence.\<close>

primrec list_step :: "'a lv_op \<Rightarrow> 'a list \<Rightarrow> 'a list" where
  "list_step (PushBack x) xs = xs @ [x]"
| "list_step (Reserve n) xs = xs"
| "list_step (Assign ys) xs = ys"
| "list_step (SetAt i x) xs = xs[i := x]"
| "list_step Clear xs = []"

lemma lv_from_range_ok:
  assumes "allocates malloc" and "length garbage = LOCAL_VECTOR_BUFFER_SIZE"
  shows "lv_ok (lv_from_range malloc garbage xs) \<and> lv_abs (lv_from_range malloc garbage xs) = xs \<and>
    lv_capacity (lv_from_range malloc garbage xs) \<le> max LOCAL_VECTOR_BUFFER_SIZE (2 * length xs)"
proof (induction xs rule: rev_induct)
  case Nil
  then show ?case using lv_new_ok [OF assms(2)] by (simp add: lv_from_range_def lv_new_def lv_init_def)
next
  case (snoc x xs)
  define v where "v = lv_from_range malloc garbage xs"
  have v: "lv_ok v" "lv_abs v = xs" "lv_capacity v \<le> max LOCAL_VECTOR_BUFFER_SIZE (2 * length xs)"
    using snoc by (simp_all add: v_def)
  then have "lv_size v = length xs" by (auto simp: lv_ok_def lv_abs_def)
  moreover have "lv_from_range malloc garbage (xs @ [x]) = lv_push_back malloc v x"
    by (simp add: lv_from_range_def v_def)
  ultimately show ?case using lv_push_back_ok [OF v(1) assms(1), of x] v(2,3) by (auto simp: max_def split: if_splits)
qed

lemma lv_assign_ok:
  assumes "lv_ok this" and "lv_ok vec" and "allocates malloc"
  shows "lv_ok (lv_assign malloc this vec) \<and> lv_abs (lv_assign malloc this vec) = lv_abs vec"
  using lv_copy_ok [of "lv_clear this" vec malloc] lv_clear_ok [OF assms(1)] assms(2,3) by (simp add: lv_assign_def)

lemma lv_step_ok:
  assumes "lv_ok v" and "allocates malloc" and "length garbage = LOCAL_VECTOR_BUFFER_SIZE"
  shows "lv_ok (lv_step malloc garbage op v) \<and> lv_abs (lv_step malloc garbage op v) = list_step op (lv_abs v)"
proof (cases op)
  case (SetAt i x)
  have "lv_size v = length (lv_abs v)" using assms(1) by (auto simp: lv_ok_def lv_abs_def)
  then show ?thesis using SetAt lv_set_ok [OF assms(1), of i x] assms(1) by (simp add: list_update_beyond)
qed (simp_all add: assms lv_push_back_ok lv_reserve_ok lv_assign_ok lv_from_range_ok lv_clear_ok)



text \<open>
  An assignment of a vector to itself empties it: \<open>operator =\<close> has no test for it and starts with \<open>clear\<close>.
  The copy from another vector keeps all elements.
\<close>

theorem self_assignment_empties:
  assumes "lv_ok v" and "lv_ok w" and "allocates malloc"
  shows "lv_abs (lv_assign_self malloc v) = [] \<and> lv_abs (lv_assign malloc w v) = lv_abs v"
  using lv_clear_ok [OF assms(1)] lv_copy_ok [of "lv_clear v" "lv_clear v" malloc] lv_assign_ok [of w v malloc] assms
  by (simp add: lv_assign_self_def Let_def)

theorem self_assignment_empties_witness:
  "\<exists>v :: nat local_vector. lv_abs v = [3] \<and> lv_abs (lv_assign_self (\<lambda>n. replicate n 0) v) = []"
proof -
  define v :: "nat local_vector" where "v = lv_from_range (\<lambda>n. replicate n 0) (replicate 16 0) [3]"
  have a: "allocates (\<lambda>n. replicate n (0 :: nat))" by (simp add: allocates_def)
  have v: "lv_ok v \<and> lv_abs v = [3]"
    using lv_from_range_ok [OF a, of "replicate 16 0" "[3]"] by (simp add: v_def LOCAL_VECTOR_BUFFER_SIZE_def)
  then show ?thesis using self_assignment_empties [of v v, OF _ _ a] by blast
qed

end
