(* ===== verification/LimonpUtil.thy ===== *)
theory LimonpUtil imports Daemonize ConfigArgv TextRank LocalVector begin

text \<open>
  The small parts of \<open>limonp\<close>: formatting (\<open>StringUtil.hpp\<close>), the printers of containers (\<open>StdExtension.hpp\<close>), the logger
  (\<open>Logging.hpp\<close>), threads (\<open>Thread.hpp\<close>) and file locks (\<open>FileLock.hpp\<close>).

  \<^item> \<open>vsnprintf\<close> and \<open>strftime\<close> are functions from the size of the buffer to their result and the text in the buffer; the
    clock is in them. Descriptors are those of \<open>Daemonize\<close>.
  \<^item> A printer is a function to the text that it writes; the printers of elements are arguments, as the code takes
    them from the type of the elements.
\<close>

section \<open>Formatting\<close>

text \<open>
  The loop of \<open>StringFormat\<close>. It ends when the text fits; the size grows to what is asked for, or doubles for a
  \<open>vsnprintf\<close> that does not say it. The size is an \<open>int\<close>; \<open>None\<close> stands for a size that is too big for it, which C++
  leaves undefined.
\<close>

definition MAX_INT :: nat where "MAX_INT = 2147483647"

definition next_size :: "int \<Rightarrow> nat \<Rightarrow> nat" where
  "next_size n bufsize = (if n > -1 then nat n + 1 else bufsize * 2)"

partial_function (option) StringFormat_loop :: "(nat \<Rightarrow> int \<times> string) \<Rightarrow> nat \<Rightarrow> string option" where
  "StringFormat_loop vsn bufsize =
     (if fst (vsn bufsize) > -1 \<and> fst (vsn bufsize) < int bufsize
      then Some (take (nat (fst (vsn bufsize))) (snd (vsn bufsize)))
      else if next_size (fst (vsn bufsize)) bufsize > MAX_INT then None
      else StringFormat_loop vsn (next_size (fst (vsn bufsize)) bufsize))"

definition StringFormat :: "(nat \<Rightarrow> int \<times> string) \<Rightarrow> string option" where
  "StringFormat vsn = StringFormat_loop vsn 256"

definition GetTime :: "(nat \<Rightarrow> nat \<times> string) \<Rightarrow> string" where
  "GetTime strftime = (let (len, buf) = strftime 64 in take len buf)"

text \<open>What \<open>vsnprintf\<close> does for a text: all of it when it fits; else its length, or -1 from older libraries.\<close>

definition prints :: "string \<Rightarrow> (nat \<Rightarrow> int \<times> string) \<Rightarrow> bool" where
  "prints text vsn \<longleftrightarrow> (\<forall>n.
     if length text < n then vsn n = (int (length text), text) else fst (vsn n) = int (length text) \<or> fst (vsn n) = -1)"

lemma StringFormat_fits: "prints text vsn \<Longrightarrow> length text < n \<Longrightarrow> StringFormat_loop vsn n = Some text"
proof -
  assume "prints text vsn" "length text < n"
  then have "vsn n = (int (length text), text)" unfolding prints_def by meson
  with \<open>length text < n\<close> show ?thesis by (subst StringFormat_loop.simps) simp
qed

text \<open>
  Formatting ends and gives the whole text, for texts of less than a gigabyte, with a \<open>vsnprintf\<close> that tells the length of the text and
  with one that only says that it did not fit.
\<close>

theorem format_terminates:
  assumes "prints text vsn" and "length text < 2 ^ 30"
  shows "StringFormat vsn = Some text"
proof -
  have "StringFormat_loop vsn n = Some text" if "0 < n" for n
    using that
  proof (induction "length text - n" arbitrary: n rule: less_induct)
    case less
    show ?case
    proof (cases "length text < n")
      case True
      then show ?thesis by (rule StringFormat_fits [OF assms(1)])
    next
      case False
      let ?m = "next_size (fst (vsn n)) n"
      have "fst (vsn n) = int (length text) \<or> fst (vsn n) = -1" using assms(1) False unfolding prints_def by meson
      then have m: "?m = length text + 1 \<or> ?m = n * 2" by (auto simp: next_size_def)
      then have "StringFormat_loop vsn n = StringFormat_loop vsn ?m"
        using False assms(2) \<open>fst (vsn n) = int (length text) \<or> fst (vsn n) = -1\<close>
        by (subst StringFormat_loop.simps) (auto simp: MAX_INT_def)
      also have "\<dots> = Some text"
      proof (cases "length text < ?m")
        case True
        then show ?thesis by (rule StringFormat_fits [OF assms(1)])
      next
        case False
        then show ?thesis using less.prems m by (intro less.hyps) auto
      qed
      finally show ?thesis .
    qed
  qed
  from this [of 256] show ?thesis by (simp add: StringFormat_def)
qed

definition old_vsnprintf :: "string \<Rightarrow> nat \<Rightarrow> int \<times> string" where
  "old_vsnprintf text n = (if length text < n then (int (length text), text) else (-1, take (n - 1) text))"

theorem format_terminates_witness: "StringFormat (old_vsnprintf (replicate 1000 (CHR ''x''))) = Some (replicate 1000 (CHR ''x''))"
  by (rule format_terminates) (simp_all add: prints_def old_vsnprintf_def)

text \<open>An error of \<open>vsnprintf\<close> other than a lack of room makes the size grow until it overflows.\<close>

lemma format_result_fits: "StringFormat_loop vsn n = Some y \<Longrightarrow> \<exists>m. fst (vsn m) > -1"
  by (erule StringFormat_loop.raw_induct [rotated]) (force split: if_splits)

lemma format_error_overflows: "(\<And>n. fst (vsn n) = -1) \<Longrightarrow> StringFormat vsn = None"
  using format_result_fits [of vsn 256] by (cases "StringFormat vsn") (auto simp: StringFormat_def)

section \<open>Printers\<close>

definition quote :: string where "quote = [CHR 34]"

fun show_rest :: "string \<Rightarrow> string list \<Rightarrow> string" where
  "show_rest sep [] = []"
| "show_rest sep (x # xs) = sep @ x @ show_rest sep xs"

definition show_between :: "string \<Rightarrow> string \<Rightarrow> string \<Rightarrow> string \<Rightarrow> string list \<Rightarrow> string" where
  "show_between none start sep close xs = (case xs of [] \<Rightarrow> none | x # xs \<Rightarrow> start @ x @ show_rest sep xs @ close)"

definition show_vector :: "('a \<Rightarrow> string) \<Rightarrow> 'a list \<Rightarrow> string" where
  "show_vector sh xs = show_between ''[]'' ''['' '', '' '']'' (map sh xs)"

definition show_strings :: "string list \<Rightarrow> string" where
  "show_strings xs = show_between ''[]'' (''['' @ quote) (quote @ '', '' @ quote) (quote @ '']'') xs"

definition show_deque :: "('a \<Rightarrow> string) \<Rightarrow> 'a list \<Rightarrow> string" where
  "show_deque sh xs = show_between ''[]'' (''['' @ quote) (quote @ '', '' @ quote) (quote @ '']'') (map sh xs)"

definition show_pair :: "('a \<Rightarrow> string) \<Rightarrow> ('b \<Rightarrow> string) \<Rightarrow> 'a \<times> 'b \<Rightarrow> string" where
  "show_pair sh sh' = (\<lambda>(a, b). sh a @ '':'' @ sh' b)"

definition show_map :: "('a \<Rightarrow> string) \<Rightarrow> ('b \<Rightarrow> string) \<Rightarrow> ('a \<times> 'b) list \<Rightarrow> string" where
  "show_map sh sh' m = show_between ''{}'' ''{'' '', '' ''}'' (map (show_pair sh sh') m)"

text \<open>An unordered map is given by its entries in the order in which the iterator meets them.\<close>

definition show_unordered_map :: "('a \<Rightarrow> string) \<Rightarrow> ('b \<Rightarrow> string) \<Rightarrow> ('a \<times> 'b) list \<Rightarrow> string" where
  "show_unordered_map sh sh' m = (case m of
     [] \<Rightarrow> ''{}'' | x # m \<Rightarrow> ''{'' @ show_pair sh sh' x @ show_rest '', '' (map (show_pair sh sh') m) @ ''}'')"

lemma show_maps_agree: "show_unordered_map sh sh' m = show_map sh sh' m"
  by (cases m) (simp_all add: show_unordered_map_def show_map_def show_between_def)

definition show_set :: "('a \<Rightarrow> string) \<Rightarrow> 'a list \<Rightarrow> string" where
  "show_set sh xs = show_between ''{}'' ''{'' '', '' ''}'' (map sh xs)"

text \<open>The entries of a \<open>std::map\<close> in the order of its keys.\<close>

definition map_entries :: "(string \<rightharpoonup> 'b) \<Rightarrow> (string \<times> 'b) list" where
  "map_entries m = map (\<lambda>k. (k, the (m k))) (sorted_list_of_set (dom m))"

definition show_Config :: "(string \<rightharpoonup> string) \<Rightarrow> string" where
  "show_Config m = show_map id id (map_entries m)"

definition show_ArgvContext :: "ArgvContext \<Rightarrow> string" where
  "show_ArgvContext a =
     show_strings (argv_args a) @ show_map id id (map_entries (argv_mpss a)) @ show_set id (sorted_list_of_set (argv_sset a))"

definition show_Word :: "Word \<Rightarrow> string" where
  "show_Word w = ''{'' @ quote @ ''word'' @ quote @ '': '' @ quote @ w_word w @ quote @ '', '' @ quote @ ''offset'' @ quote @ '': '' @
     decimal (w_offset w) @ ''}''"

definition show_RuneStr :: "RuneStr \<Rightarrow> string" where
  "show_RuneStr r = ''{'' @ quote @ ''rune'' @ quote @ '': '' @ quote @ decimal (unat (rune r)) @ quote @ '', '' @ quote @ ''offset'' @ quote @ '': '' @
     decimal (offset r) @ '', '' @ quote @ ''len'' @ quote @ '': '' @ decimal (len r) @ ''}''"

definition show_Keyword :: "(real \<Rightarrow> string) \<Rightarrow> Keyword \<Rightarrow> string" where
  "show_Keyword show_double k = ''{'' @ quote @ ''word'' @ quote @ '': '' @ quote @ kw_word k @ quote @ '', '' @ quote @ ''offset'' @ quote @ '': '' @
     show_vector decimal (kw_offsets k) @ '', '' @ quote @ ''weight'' @ quote @ '': '' @ show_double (kw_weight k) @ ''}''"

definition show_RankWord :: "(real \<Rightarrow> string) \<Rightarrow> RankWord \<Rightarrow> string" where
  "show_RankWord show_double k = ''{'' @ quote @ ''word'' @ quote @ '': '' @ quote @ rw_word k @ quote @ '', '' @ quote @ ''offset'' @ quote @ '': '' @
     show_vector decimal (rw_offsets k) @ '', '' @ quote @ ''weight'' @ quote @ '': '' @ show_double (rw_weight k) @ ''}''"

definition show_local_vector :: "('a \<Rightarrow> string) \<Rightarrow> 'a local_vector \<Rightarrow> string" where
  "show_local_vector sh v = show_between ''[]'' (''['' @ quote) (quote @ '', '' @ quote) (quote @ '']'') (map sh (lv_abs v))"

section \<open>The logger\<close>

definition LOG_LEVEL_ARRAY :: "string list" where
  "LOG_LEVEL_ARRAY = [''DEBUG'', ''INFO'', ''WARN'', ''ERROR'', ''FATAL'']"

definition LL_FATAL :: nat where "LL_FATAL = 4"

record Logger =
  lg_stream :: string
  lg_level :: nat

text \<open>
  The constructor. Its assertion lets the level 5 pass, for which it reads past the end of the array: \<open>None\<close>.
\<close>

definition new_Logger :: "string \<Rightarrow> nat \<Rightarrow> string \<Rightarrow> nat \<Rightarrow> (abort + Logger) option" where
  "new_Logger time_text level filename lineno =
     (if \<not> level \<le> length LOG_LEVEL_ARRAY then Some (Inl AssertFailed)
      else if level = length LOG_LEVEL_ARRAY then None
      else Some (Inr \<lparr>lg_stream = time_text @ '' '' @ filename @ '':'' @ decimal lineno @ '' '' @ LOG_LEVEL_ARRAY ! level @ '' '',
        lg_level = level\<rparr>))"

text \<open>The destructor: the line on standard error, and the end of the program for a fatal message.\<close>

definition Logger_destroy :: "Logger \<Rightarrow> string \<times> abort option" where
  "Logger_destroy lg = (lg_stream lg @ [NL], if lg_level lg = LL_FATAL then Some XCheckFailed else None)"

definition XLOG :: "string \<Rightarrow> nat \<Rightarrow> string \<Rightarrow> nat \<Rightarrow> string \<Rightarrow> (string \<times> abort option) option" where
  "XLOG time_text level filename lineno msg =
     (case new_Logger time_text level filename lineno of
        None \<Rightarrow> None
      | Some (Inl e) \<Rightarrow> Some ([], Some e)
      | Some (Inr lg) \<Rightarrow> Some (Logger_destroy (lg\<lparr>lg_stream := lg_stream lg @ msg\<rparr>)))"

definition XCHECK :: "string \<Rightarrow> string \<Rightarrow> nat \<Rightarrow> bool \<Rightarrow> string \<Rightarrow> (string \<times> abort option) option" where
  "XCHECK time_text filename lineno b expr =
     (if \<not> b then XLOG time_text LL_FATAL filename lineno (''exp: ['' @ expr @ ''] false. '') else Some ([], None))"

lemma xcheck_aborts: "\<exists>text. XCHECK time_text filename lineno b expr = Some (text, if b then None else Some XCheckFailed)"
  by (auto simp: XCHECK_def XLOG_def new_Logger_def LOG_LEVEL_ARRAY_def LL_FATAL_def Logger_destroy_def)

section \<open>Threads\<close>

record IThread =
  isStarted :: bool
  isJoined :: bool

definition new_IThread :: IThread where "new_IThread = \<lparr>isStarted = False, isJoined = False\<rparr>"

definition IThread_Start :: "bool \<Rightarrow> IThread \<Rightarrow> abort + IThread" where
  "IThread_Start created t = (if isStarted t \<or> \<not> created then Inl XCheckFailed else Inr (t\<lparr>isStarted := True\<rparr>))"

definition IThread_Join :: "bool \<Rightarrow> IThread \<Rightarrow> abort + IThread" where
  "IThread_Join joined t = (if isJoined t \<or> \<not> joined then Inl XCheckFailed else Inr (t\<lparr>isJoined := True\<rparr>))"

text \<open>The destructor: whether it detaches the thread, and whether that fails.\<close>

definition IThread_destroy :: "bool \<Rightarrow> IThread \<Rightarrow> abort + bool" where
  "IThread_destroy detached t =
     (if isStarted t \<and> \<not> isJoined t then (if detached then Inr True else Inl XCheckFailed) else Inr False)"

section \<open>File locks\<close>

record FileLock =
  fl_fd :: "nat option"
  fl_ok :: bool
  fl_err :: string

definition new_FileLock :: FileLock where "new_FileLock = \<lparr>fl_fd = None, fl_ok = True, fl_err = []\<rparr>"

text \<open>\<open>fd_\<close> is \<open>None\<close> for -1. \<open>can_open\<close> says which files can be opened, \<open>errno_text\<close> is the text of \<open>strerror(errno)\<close>.\<close>

definition FileLock_Open :: "(string \<Rightarrow> bool) \<Rightarrow> string \<Rightarrow> string \<Rightarrow> FileLock \<Rightarrow> fd_table \<Rightarrow> abort + FileLock \<times> fd_table" where
  "FileLock_Open can_open errno_text fname l t =
     (if fl_fd l \<noteq> None then Inl AssertFailed
      else (case sys_open can_open fname t of
          None \<Rightarrow> Inr (l\<lparr>fl_fd := None, fl_ok := False, fl_err := errno_text\<rparr>, t)
        | Some (fd, t) \<Rightarrow> Inr (l\<lparr>fl_fd := Some fd\<rparr>, t)))"

definition FileLock_Close :: "FileLock \<Rightarrow> fd_table \<Rightarrow> fd_table" where
  "FileLock_Close l t = (case fl_fd l of None \<Rightarrow> t | Some fd \<Rightarrow> sys_close fd t)"

text \<open>\<open>fcntl(fd, F_SETLK, ...)\<close> for the whole file: whether it succeeds. It fails for a descriptor that is not open.\<close>

definition LockOrUnlock :: "(nat option \<Rightarrow> bool \<Rightarrow> bool) \<Rightarrow> bool \<Rightarrow> string \<Rightarrow> FileLock \<Rightarrow> FileLock" where
  "LockOrUnlock setlk lock errno_text l =
     (if \<not> setlk (fl_fd l) lock then l\<lparr>fl_ok := False, fl_err := errno_text\<rparr> else l)"

definition FileLock_Lock :: "(nat option \<Rightarrow> bool \<Rightarrow> bool) \<Rightarrow> string \<Rightarrow> FileLock \<Rightarrow> FileLock" where
  "FileLock_Lock setlk = LockOrUnlock setlk True"

definition FileLock_UnLock :: "(nat option \<Rightarrow> bool \<Rightarrow> bool) \<Rightarrow> string \<Rightarrow> FileLock \<Rightarrow> FileLock" where
  "FileLock_UnLock setlk = LockOrUnlock setlk False"

definition FileLock_destroy :: "FileLock \<Rightarrow> fd_table \<Rightarrow> fd_table" where
  "FileLock_destroy l t = (case fl_fd l of None \<Rightarrow> t | Some fd \<Rightarrow> if fd > 0 then FileLock_Close l t else t)"

lemma sys_openD: "sys_open can_open f t = Some (fd, t') \<Longrightarrow> t fd = None \<and> t' = t(fd \<mapsto> f) \<and> free_fd t = Some fd"
  using free_fd_Some [of t fd] by (auto simp: sys_open_def split: if_splits option.splits)

text \<open>A lock that is opened and destroyed leaves the table as it was, unless it got the descriptor 0, which stays open.\<close>

lemma file_lock_scope:
  assumes "FileLock_Open can_open e f new_FileLock t = Inr (l, t')"
  shows "FileLock_destroy l t' = (if fl_fd l = Some 0 then t(0 \<mapsto> f) else t)"
  using assms by (auto simp: FileLock_Open_def new_FileLock_def FileLock_destroy_def FileLock_Close_def sys_close_def
      split: option.splits dest!: sys_openD)

text \<open>
  \<open>Close\<close> does not reset \<open>fd_\<close>. A file that is opened between \<open>Close\<close> and the end of the lock gets the same descriptor, and
  the destructor closes it.
\<close>

lemma file_lock_closes_other:
  assumes "FileLock_Open can_open e f new_FileLock t = Inr (l, t1)" and "fl_fd l = Some fd" and "0 < fd"
    and "sys_open can_open g (FileLock_Close l t1) = Some (fd', t2)"
  shows "fd' = fd \<and> t2 fd = Some g \<and> FileLock_destroy l t2 = t"
proof -
  have opened: "sys_open can_open f t = Some (fd, t1)"
    using assms(1,2) by (auto simp: FileLock_Open_def new_FileLock_def split: option.splits)
  note d = sys_openD [OF opened]
  have closed_again: "FileLock_Close l t1 = t" using d assms(2) by (auto simp: FileLock_Close_def sys_close_def)
  show ?thesis using sys_openD [OF assms(4) [unfolded closed_again]] d assms(2,3)
    by (auto simp: FileLock_destroy_def FileLock_Close_def sys_close_def)
qed

end
