(* ===== verification/Spec2Isabelle.thy ===== *)
theory Spec2Isabelle imports HttpPosting HttpThreadPool LimonpThreadPool BlockingQueue Singleton Md5 LimonpUtil begin

text \<open>
  A search engine over the Boost documentation: \<open>src/parser.cc\<close> turns a tree of HTML files into one text
  file, and \<open>src/httpServer.cc\<close> loads that file into an index and answers queries over HTTP. The words of
  documents and queries come from the segmentation library in \<open>src/cppjieba\<close>, and requests from
  \<open>src/httplib.h\<close>. This theory imports the development and holds the properties that span its parts.

  \<^bold>\<open>The parts, from the bytes up to the server.\<close>

  \<^item> \<open>Prelude\<close>: machine types, the operations of the C++ library that the code calls, and rounding.
  \<^item> \<open>Unicode\<close> (\<open>cppjieba/Unicode.hpp\<close>) decodes UTF-8 into runes with their places in the sentence;
    \<open>StringUtil\<close> (\<open>limonp/StringUtil.hpp\<close>) has splitting, joining, trimming and the transcoders;
    \<open>LocalVector\<close> (\<open>limonp/LocalVector.hpp\<close>) is the vector of runes, shown to be a list.
  \<^item> \<open>Trie\<close> and \<open>DictTrie\<close> (\<open>cppjieba/Trie.hpp\<close>, \<open>DictTrie.hpp\<close>): the tree of words, and the dictionary with
    its files, weights and user words.
  \<^item> \<open>Segment\<close> (\<open>SegmentBase.hpp\<close>, \<open>PreFilter.hpp\<close>) cuts a sentence at separators and gives the parts to a
    range cutter. The cutters are \<open>MPSegment\<close> (dynamic programming over the dictionary words), \<open>HMM\<close>
    (\<open>HMMModel.hpp\<close>, \<open>HMMSegment.hpp\<close>), \<open>MixSegment\<close> (both, and \<open>PosTagger.hpp\<close>), \<open>FullSegment\<close>,
    \<open>QuerySegment\<close>; \<open>KeywordExtractor\<close> and \<open>TextRank\<close> (\<open>TextRankExtractor.hpp\<close>) are built on the mixed one
    and \<open>Jieba\<close> is the facade of all.
  \<^item> \<open>UtilHpp\<close> (\<open>util.hpp\<close>) reads files and cuts texts without stop words; \<open>ParserDocs\<close> (\<open>parser.cc\<close>),
    \<open>IndexHpp\<close> (\<open>index.hpp\<close>) and \<open>SearcherHpp\<close> (\<open>searcher.hpp\<close>) are the way from the HTML files to the answer
    of a query; \<open>Singleton\<close> is the double-checked locking of \<open>index\<close> and \<open>jiebaUtil\<close>.
  \<^item> \<open>Daemonize\<close>, \<open>LogMessage\<close>, \<open>HttpServer\<close> (\<open>daemonize.hpp\<close>, \<open>logMessage.hpp\<close>, \<open>httpServer.cc\<close>): the process of
    the server and its handler.
  \<^item> \<open>HttpText\<close>, \<open>HttpMessages\<close>, \<open>HttpRouting\<close> (\<open>httplib.h\<close>): URL coding, query strings and paths; the request
    line, headers, requests and responses; mounted directories and the dispatch to handlers. \<open>HttpContent\<close>,
    \<open>HttpRanges\<close> and \<open>HttpMultipart\<close>: bodies of a known length and in chunks, ranges, forms; and on all of
    them \<open>HttpConnection\<close>: a request from its bytes to the bytes of the answer, and the loop over a connection.
    \<open>HttpThreadPool\<close> has the loop of \<open>listen_internal\<close> and the thread pool to which it gives the connections.
  \<^item> \<open>HttpClientText\<close>, \<open>HttpClient\<close> (\<open>httplib.h\<close>): the client of the same header, over a network that is a parameter: base 64,
    addresses, response lines; settings, requests, responses, redirects and the calls of users. \<open>HttpExchange\<close> puts
    this client and the server of the program together.
  \<^item> \<open>HttpHandlers\<close> (\<open>httplib.h\<close>): the server with everything that the program leaves unused, handlers of every method, handlers
    that read the content, content providers, exceptions, the handlers of errors and of \<open>Expect\<close>; without these it is shown to be
    that of \<open>HttpConnection\<close>. \<open>HttpPosting\<close> has the client post to it.
  \<^item> The rest of \<open>limonp\<close>: \<open>BoundedQueue\<close>, and on it \<open>LimonpThreadPool\<close> (\<open>ThreadPool.hpp\<close>, \<open>BoundedBlockingQueue.hpp\<close>);
    \<open>BlockingQueue\<close>; \<open>Md5\<close>; \<open>ConfigArgv\<close> (\<open>Config.hpp\<close>, \<open>ArgvContext.hpp\<close>); \<open>LimonpUtil\<close>: formatting, printers, the logger,
    threads, file locks. \<open>Workers\<close> has what the pools and the queue share.

  \<^bold>\<open>State and interfaces.\<close> A class is a record (\<open>DictTrie\<close>, \<open>Jieba\<close>, \<open>index\<close>, \<open>Server\<close>, \<open>process\<close>) and a method that
  changes it gives the new record. A failed \<open>XCHECK\<close> or \<open>assert\<close>, an exception that ends the program and undefined
  behaviour are values of the type of the result. Files are a map from paths to contents. What one part needs of
  another is a locale: \<open>dictionary\<close> (the tree, for the dictionary), \<open>range_cutter\<close> and \<open>range_segmenter\<close> (the
  segmenters, for the methods on sentences), \<open>posting_lists\<close> (the index, for the searcher), \<open>sequence\<close> (vectors),
  \<open>bounded_queue\<close> (the circular buffer, for the thread pool). Threads are step relations, one step a critical section.

  \<^bold>\<open>What the lemmas show.\<close>

  \<^item> The answer of a server for a file of documents is described from the file alone, with the weights (below);
    a saved file gives back the documents; the index holds exactly the words of the documents; a request
    with an encoded query gets that answer with status 200.
  \<^item> Segmentations tile their sentence, nothing is lost but in \<open>FullSegment\<close>; the two optimal ones are optimal for
    every monotone rounding of the machine's arithmetic.
  \<^item> The tree refines a map, \<open>LocalVector\<close> a list; the word graph lists exactly the words of the dictionary.
  \<^item> The graph of \<open>TextRank\<close> is that of a window over the words that count, and its weights stay between 0 and 1.
  \<^item> A search over HTTP gets exactly the text that the theorem writes out; requests in a row are answered in their order,
    each as if alone. A range gets the bytes that it asks for; chunks and forms give back what was sent.
  \<^item> The client reads what the server writes; whole sessions of searches of a client with the server get the right answers;
    a chain of redirects is followed up to the limit and ends there; base 64 is that of the standard.
  \<^item> What a client posts, parameters or files, its handler gets, and what the handler answers, in any of the three ways, the
    client gets; an exception gives the status 500. Headers and parameters stay in the order of a multimap.
  \<^item> Round trips of UTF-8, URLs, query strings, request lines, headers; no path of a request leaves its directory.
  \<^item> The unbounded queue keeps the order and loses no wakeup. The singleton is made once and no call gets stuck. The two
    thread pools take their jobs in order, lose no wakeup, run each job once and end: a bound for the number of steps counts what each thread has left to do.
  \<^item> The circular buffer refines a bounded list. The MD5 of the pieces of a message is that of the whole.
  \<^item> Where the code does not do what it means to, a theorem says what it does instead.

  \<^bold>\<open>Bounds and parameters.\<close> Offsets and sizes are natural numbers, so texts are shorter than \<open>2 ^ 32\<close> bytes for the
  32-bit offsets of runes; weights of documents and counters are 64-bit words and wrap. A \<open>double\<close> is a real, rounded
  after each operation by a parameter that the theorems take to be monotone; infinities and NaN are not modelled.
  \<open>boost::split\<close>, \<open>boost::to_lower\<close>, the directory walk, the order of hash tables, \<open>std::sort\<close> among equal weights,
  \<open>std::partial_sort\<close>, the writer of jsoncpp, \<open>vsnprintf\<close>, the clock, \<open>fork\<close> and \<open>malloc\<close> are parameters with their
  documented behaviour as hypotheses. Every function of the model terminates, and no fuel is needed, but for the loop of
  \<open>StringFormat\<close>, which is proved to end, and the loops of the client over a content provider of the user, which end only if
  the provider does: \<open>write_sized\<close> and \<open>write_unsized\<close> have no value else, and \<open>NoReturn\<close> is the
  fault of the call. The loops of the server over a provider end at the latest when it is shut down, after a given number of rounds.

  \<^bold>\<open>Not modelled.\<close> Of \<open>httplib.h\<close>: compression, TLS, sockets, the logger of the server, the releasers of resources, and the
  progress functions, timeouts, digest authentication and concurrent use of the client. Memory that is freed, the mutexes and
  condition variables themselves, and the compile-time level of
  the logger of \<open>limonp\<close>.
\<close>

section \<open>From the file to the answer\<close>

lemma filter_eq_upt: "filter (\<lambda>i. i = d) [0..<n] = (if d < n then [d] else [])"
  by (induction n) auto

lemma filter_ids_nth:
  assumes "map idx_docId docs = [0..<length docs]"
  shows "filter (\<lambda>x. idx_docId x = d) docs = (if d < length docs then [docs ! d] else [])"
proof -
  have n: "idx_docId (docs ! i) = i" if "i < length docs" for i
    using assms that by (metis add_0 nth_map nth_upt diff_zero length_upt)
  have "docs = map (\<lambda>i. docs ! i) [0..<length docs]" by (simp add: map_nth)
  then have "filter (\<lambda>x. idx_docId x = d) docs =
      map (\<lambda>i. docs ! i) (filter (\<lambda>i. idx_docId (docs ! i) = d) [0..<length docs])"
    by (metis (no_types, lifting) comp_apply filter_cong filter_map)
  also have "filter (\<lambda>i. idx_docId (docs ! i) = d) [0..<length docs] = filter (\<lambda>i. i = d) [0..<length docs]"
    using n by (intro filter_cong) auto
  also have "\<dots> = (if d < length docs then [d] else [])"
    by (rule filter_eq_upt)
  finally show ?thesis by simp
qed

text \<open>What the lists of the words of a query hold for one document.\<close>

lemma postings_of_doc:
  "filter (\<lambda>e. ie_docId e = d) (postings en k docs) =
     map (posting en k) (filter (has_keyword en k) (filter (\<lambda>x. idx_docId x = d) docs))"
  by (simp add: postings_def filter_map comp_def posting_def conj_commute)

lemma weight_of_doc:
  assumes "map idx_docId docs = [0..<length docs]" and "d < length docs"
  shows "sum_list (map ie_weight (filter (\<lambda>e. ie_docId e = d) (postings en k docs))) = ie_weight (posting en k (docs ! d))"
proof (cases "has_keyword en k (docs ! d)")
  case False
  then have "count_list (keywords_of en (idx_title (docs ! d))) k = 0" "count_list (keywords_of en (idx_content (docs ! d))) k = 0"
    by (auto simp: has_keyword_def count_list_0_iff)
  with False assms show ?thesis by (simp add: postings_of_doc filter_ids_nth posting_def)
qed (use assms in \<open>simp add: postings_of_doc filter_ids_nth\<close>)

lemma met_postings:
  assumes "\<And>k. lookup k = appended None (postings en k docs)"
  shows "met lookup lower words = concat (map (\<lambda>w. postings en (lower w) docs) words)"
  unfolding met_def by (rule arg_cong [of _ _ concat]) (simp add: assms appended_def)

lemma weight_of_words:
  assumes "map idx_docId docs = [0..<length docs]" and "d < length docs"
  shows "sum_list (map ie_weight (filter (\<lambda>e. ie_docId e = d) (concat (map (\<lambda>w. postings en (lower w) docs) ws)))) =
    (\<Sum>w\<leftarrow>map lower ws. ie_weight (posting en w (docs ! d)))"
  by (induction ws) (simp_all add: weight_of_doc [OF assms])

lemma ids_of_postings:
  assumes "map idx_docId docs = [0..<length docs]" and "\<And>i. i < length docs \<Longrightarrow> docs ! i = doc i"
  shows "set (map ie_docId (concat (map (\<lambda>w. postings en (lower w) docs) ws))) =
    {i. i < length docs \<and> (\<exists>w \<in> set (map lower ws). has_keyword en w (doc i))}"
proof -
  have n: "idx_docId (docs ! i) = i" if "i < length docs" for i
    using assms(1) that by (metis add_0 nth_map nth_upt diff_zero length_upt)
  show ?thesis
    by (auto simp: postings_def posting_def image_iff in_set_conv_nth n assms(2) conj_ac)
       (metis assms(2) n nth_mem)+
qed

text \<open>
  C1: From the file of documents to the answer: a server that has loaded its file answers a query with exactly
  the documents whose title or content has a word of the query, each once, by falling weight; and the
  weight of a document is, over the words of the query, 40 for each time the word is in its title and 1
  for each time it is in its content (modulo the 64 bits of the weight).
\<close>

theorem server_answers_exactly:
  assumes "orders (engine.truncate en)" and "sorts en" and "fs inp = Some content"
    and "initSearcher en fs inp new_index = Inr ix"
    and "doc = (\<lambda>i. line_doc (engine.truncate en) (i, read_lines content ! i))"
    and "words = map (en_lower en) (cutString (en_fp en) (en_jieba en) query)"
  shows "\<exists>outs. search en ix query =
      Inr (se_write en (if outs = [] then [search_nothing] else map (answer_of ix) outs)) \<and>
    distinct (map out_docId outs) \<and>
    set (map out_docId outs) =
      {i. i < length (read_lines content) \<and> (\<exists>w \<in> set words. has_keyword (engine.truncate en) w (doc i))} \<and>
    sorted_wrt (\<lambda>a b. out_weight b \<le> out_weight a) outs \<and>
    (\<forall>x \<in> set outs. forwardIndex ix ! out_docId x = doc (out_docId x) \<and>
       out_weight x = (\<Sum>w\<leftarrow>words. of_nat (
         40 * count_list (keywords_of (engine.truncate en) (idx_title (doc (out_docId x)))) w +
         count_list (keywords_of (engine.truncate en) (idx_content (doc (out_docId x)))) w)))"
proof -
  let ?en = "engine.truncate en"
  let ?docs = "map (line_doc ?en) (enumerate 0 (read_lines content))"
  let ?ws = "cutString (en_fp en) (en_jieba en) query"
  let ?es = "met (getInvertedList ix) (en_lower en) ?ws"
  from assms(3,4) have b: "build_lines ?en (read_lines content) new_index = Inr ix"
    by (auto simp: initSearcher_def buildIndex_def split: sum.splits)
  note spec = build_lines_spec [OF assms(1) b]
  have f: "forwardIndex ix = ?docs" using spec by (simp add: new_index_def)
  have l: "getInvertedList ix k = appended None (postings ?en k ?docs)" for k
    using spec by (simp add: new_index_def getInvertedList_def)
  have ids: "map idx_docId ?docs = [0..<length ?docs]" by (simp only: line_doc_ids length_map length_enumerate add_0)
  have nth: "?docs ! i = doc i" if "i < length (read_lines content)" for i
    using that by (simp add: assms(5) nth_enumerate_eq)
  have r: "index_reachable ?en ix"
    using assms(3) b by (intro index_reachable.build [OF index_reachable.start, of _ fs inp True]) (simp add: buildIndex_def)
  note es = met_postings [of "getInvertedList ix", OF l, of "en_lower en" ?ws]
  obtain outs where o:
    "search en ix query = Inr (se_write en (if outs = [] then [search_nothing] else map (answer_of ix) outs))"
    "distinct (map out_docId outs)" "set (map out_docId outs) = set (map ie_docId ?es)"
    "sorted_wrt (\<lambda>a b. out_weight b \<le> out_weight a) outs"
    "\<forall>x \<in> set outs. out_weight x = sum_list (map ie_weight (filter (\<lambda>e. ie_docId e = out_docId x) ?es))"
    using search_shape [OF r assms(1,2) refl, of query] by blast
  have found: "set (map ie_docId ?es) = {i. i < length (read_lines content) \<and> (\<exists>w \<in> set words. has_keyword ?en w (doc i))}"
    using ids_of_postings [OF ids, of doc ?en "en_lower en" ?ws] nth by (simp add: es assms(6))
  have "forwardIndex ix ! d = doc d \<and> sum_list (map ie_weight (filter (\<lambda>e. ie_docId e = d) ?es)) =
      (\<Sum>w\<leftarrow>words. ie_weight (posting ?en w (doc d)))" if "d < length (read_lines content)" for d
    using that weight_of_words [OF ids, of d ?en "en_lower en" ?ws] nth [OF that] by (simp add: es assms(6) f)
  moreover have "out_docId x < length (read_lines content)" if "x \<in> set outs" for x
    using that o(3) found by (metis (mono_tags, lifting) image_eqI list.set_map mem_Collect_eq)
  ultimately have "\<forall>x \<in> set outs. forwardIndex ix ! out_docId x = doc (out_docId x) \<and>
      out_weight x = (\<Sum>w\<leftarrow>words. ie_weight (posting ?en w (doc (out_docId x))))"
    using o(5) by simp
  with o(1,2,4) o(3) [unfolded found] show ?thesis
    by (intro exI [of _ outs] conjI) (simp_all add: posting_def)
qed

theorem server_answers_exactly_witness:
  "\<exists>outs. search sample_search sample_index ''ab'' =
     Inr (concat (map js_url (if outs = [] then [search_nothing] else map (answer_of sample_index) outs))) \<and>
     sorted_wrt (\<lambda>a b. out_weight b \<le> out_weight a) outs"
proof -
  have i: "initSearcher sample_search [''raw'' \<mapsto> sample_raw] ''raw'' new_index = Inr sample_index"
    by (simp add: initSearcher_def truncate_sample_search sample_index_built)
  have w: "se_write sample_search = (\<lambda>es. concat (map js_url es))" by (simp add: sample_search_def engine.defs)
  show ?thesis
    using server_answers_exactly [OF _ sorts_sample _ i refl refl, of sample_raw "''ab''"] orders_sample
    unfolding truncate_sample_search w by auto
qed

end
